(* ===== verification/Kafko_Prelude.thy ===== *)
theory Kafko_Prelude
  imports Main "HOL-Library.Word" "HOL-Library.AList"
begin

text \<open>
  Shared vocabulary of the development: the machine integers and byte strings of the Rust
  sources, the byte order conversions of \<^verbatim>\<open>u32::to_be_bytes\<close> and its relatives, decimal
  numbers as \<^verbatim>\<open>format!\<close> prints and \<^verbatim>\<open>str::parse\<close> reads them, the binary search of
  \<^verbatim>\<open>slice::binary_search_by_key\<close>, and list lemmas the components share.
\<close>

section \<open>Integers and byte strings\<close>

type_synonym u8 = "8 word"
type_synonym u32 = "32 word"
type_synonym u64 = "64 word"
type_synonym i64 = "64 word"
type_synonym bytes = "u8 list"

text \<open>
  \<open>u8\<close>, \<open>u32\<close> and \<open>u64\<close> are kept at their width wherever the source converts,
  hashes or stores them. An \<open>i64\<close> timestamp is its two's complement bit pattern (the source
  only copies it). Lengths, file positions and record offsets (\<^verbatim>\<open>usize\<close> and \<^verbatim>\<open>u64\<close>
  counters that only ever count bytes or records present in memory or on disk) are \<open>nat\<close>.
\<close>

named_theorems wire_simps \<open>equations that read back what was written on the wire\<close>
named_theorems io_simps \<open>what an I/O operation does when the operating system reports no fault\<close>

subsection \<open>Byte order\<close>

primrec le_bytes :: "nat \<Rightarrow> nat \<Rightarrow> bytes" where
  "le_bytes 0 x = []"
| "le_bytes (Suc n) x = of_nat (x mod 256) # le_bytes n (x div 256)"

primrec le_val :: "bytes \<Rightarrow> nat" where
  "le_val [] = 0"
| "le_val (b # bs) = unat b + 256 * le_val bs"

definition be_bytes :: "nat \<Rightarrow> nat \<Rightarrow> bytes" where
  "be_bytes n x = rev (le_bytes n x)"

definition be_val :: "bytes \<Rightarrow> nat" where
  "be_val bs = le_val (rev bs)"

text \<open>\<^verbatim>\<open>to_be_bytes\<close>, \<^verbatim>\<open>from_be_bytes\<close> and the little-endian pair, at the widths in use.\<close>

definition u32_to_be_bytes :: "u32 \<Rightarrow> bytes" where
  "u32_to_be_bytes w = be_bytes 4 (unat w)"

definition u32_from_be_bytes :: "bytes \<Rightarrow> u32" where
  "u32_from_be_bytes bs = of_nat (be_val bs)"

definition u64_to_be_bytes :: "u64 \<Rightarrow> bytes" where
  "u64_to_be_bytes w = be_bytes 8 (unat w)"

definition u64_from_be_bytes :: "bytes \<Rightarrow> u64" where
  "u64_from_be_bytes bs = of_nat (be_val bs)"

definition u32_to_le_bytes :: "u32 \<Rightarrow> bytes" where
  "u32_to_le_bytes w = le_bytes 4 (unat w)"

definition u32_from_le_bytes :: "bytes \<Rightarrow> u32" where
  "u32_from_le_bytes bs = of_nat (le_val bs)"

definition u64_to_le_bytes :: "u64 \<Rightarrow> bytes" where
  "u64_to_le_bytes w = le_bytes 8 (unat w)"

definition u64_from_le_bytes :: "bytes \<Rightarrow> u64" where
  "u64_from_le_bytes bs = of_nat (le_val bs)"

definition u8_to_byte :: "u8 \<Rightarrow> bytes" where
  "u8_to_byte b = [b]"

definition u8_from_byte :: "bytes \<Rightarrow> u8" where
  "u8_from_byte bs = (case bs of [] \<Rightarrow> 0 | b # _ \<Rightarrow> b)"

lemma length_le_bytes [simp]: "length (le_bytes n x) = n"
  by (induction n arbitrary: x) auto

lemma length_be_bytes [simp]: "length (be_bytes n x) = n"
  by (simp add: be_bytes_def)

lemma le_val_le_bytes: "le_val (le_bytes n x) = x mod 256 ^ n"
proof (induction n arbitrary: x)
  case 0
  then show ?case by simp
next
  case (Suc n)
  have "unat (of_nat (x mod 256) :: u8) = x mod 256"
    by (simp add: unat_of_nat)
  then show ?case
    by (simp add: Suc.IH mod_mult2_eq add.commute)
qed

lemma le_val_bound: "le_val bs < 256 ^ length bs"
proof (induction bs)
  case Nil
  then show ?case by simp
next
  case (Cons b bs)
  have "unat b < 256"
    using unsigned_less [of b] by simp
  with Cons.IH have "unat b + 256 * le_val bs < 256 + 256 * (256 ^ length bs - 1)"
    by (intro add_less_le_mono) auto
  also have "\<dots> = 256 ^ Suc (length bs)"
    by (simp add: algebra_simps)
  finally show ?case by simp
qed

lemma le_bytes_le_val: "le_bytes (length bs) (le_val bs) = bs"
proof (induction bs)
  case (Cons b bs)
  have "unat b < 256"
    using unsigned_less [of b] by simp
  with Cons show ?case by simp
qed simp

lemma be_val_be_bytes: "be_val (be_bytes n x) = x mod 256 ^ n"
  by (simp add: be_val_def be_bytes_def le_val_le_bytes)

section \<open>Fixed-width fields\<close>

text \<open>
  A field of fixed width on the wire: what \<open>put\<close> writes is \<open>width\<close> bytes long and
  \<open>get\<close> reads it back. The lemmas below are what the record codec, the index entries and
  the offset store need of each of their integer fields.
\<close>

locale wire_field =
  fixes width :: nat
    and put :: "'a \<Rightarrow> bytes"
    and get :: "bytes \<Rightarrow> 'a"
  assumes put_width: "length (put a) = width"
    and get_put: "get (put a) = a"
begin

lemma take_put: "take width (put a @ rest) = put a"
  by (simp add: put_width)

lemma drop_put: "drop width (put a @ rest) = rest"
  by (simp add: put_width)

lemma get_take_put: "get (take width (put a @ rest)) = a"
  by (simp add: put_width get_put)

lemma put_inj: "put a = put b \<Longrightarrow> a = b"
  by (metis get_put)

lemma put_not_short: "\<not> length (put a @ rest) < width"
  by (simp add: put_width)

end

interpretation be32: wire_field 4 u32_to_be_bytes u32_from_be_bytes
proof
  fix a :: u32
  have "unat a < 256 ^ 4"
    using unsigned_less [of a] by simp
  then show "u32_from_be_bytes (u32_to_be_bytes a) = a"
    by (simp add: u32_to_be_bytes_def u32_from_be_bytes_def be_val_be_bytes)
qed (simp add: u32_to_be_bytes_def)

interpretation be64: wire_field 8 u64_to_be_bytes u64_from_be_bytes
proof
  fix a :: u64
  have "unat a < 256 ^ 8"
    using unsigned_less [of a] by simp
  then show "u64_from_be_bytes (u64_to_be_bytes a) = a"
    by (simp add: u64_to_be_bytes_def u64_from_be_bytes_def be_val_be_bytes)
qed (simp add: u64_to_be_bytes_def)

interpretation le32: wire_field 4 u32_to_le_bytes u32_from_le_bytes
proof
  fix a :: u32
  have "unat a < 256 ^ 4"
    using unsigned_less [of a] by simp
  then show "u32_from_le_bytes (u32_to_le_bytes a) = a"
    by (simp add: u32_to_le_bytes_def u32_from_le_bytes_def le_val_le_bytes)
qed (simp add: u32_to_le_bytes_def)

interpretation le64: wire_field 8 u64_to_le_bytes u64_from_le_bytes
proof
  fix a :: u64
  have "unat a < 256 ^ 8"
    using unsigned_less [of a] by simp
  then show "u64_from_le_bytes (u64_to_le_bytes a) = a"
    by (simp add: u64_to_le_bytes_def u64_from_le_bytes_def le_val_le_bytes)
qed (simp add: u64_to_le_bytes_def)

interpretation byte1: wire_field 1 u8_to_byte u8_from_byte
  by unfold_locales (simp_all add: u8_to_byte_def u8_from_byte_def)

text \<open>A field whose every byte string of the right length is the encoding of its value.\<close>

locale full_field = wire_field +
  assumes put_get: "length bs = width \<Longrightarrow> put (get bs) = bs"
begin

lemma get_eq: "length bs = width \<Longrightarrow> get bs = a \<longleftrightarrow> bs = put a"
  by (metis get_put put_get)

end

lemma unat_le_val:
  assumes "length bs = 4"
  shows "unat (of_nat (le_val bs) :: u32) = le_val bs"
  using le_val_bound [of bs] assms by (simp add: unat_of_nat take_bit_nat_eq_self)

interpretation be32_full: full_field 4 u32_to_be_bytes u32_from_be_bytes
proof
  fix bs :: bytes
  assume "length bs = 4"
  then show "u32_to_be_bytes (u32_from_be_bytes bs) = bs"
    using unat_le_val [of "rev bs"] le_bytes_le_val [of "rev bs"]
    by (simp add: u32_to_be_bytes_def u32_from_be_bytes_def be_bytes_def be_val_def)
qed

interpretation le32_full: full_field 4 u32_to_le_bytes u32_from_le_bytes
proof
  fix bs :: bytes
  assume "length bs = 4"
  then show "u32_to_le_bytes (u32_from_le_bytes bs) = bs"
    using unat_le_val [of bs] le_bytes_le_val [of bs]
    by (simp add: u32_to_le_bytes_def u32_from_le_bytes_def)
qed

lemmas field_width [simp] =
  be32.put_width be64.put_width le32.put_width le64.put_width byte1.put_width

lemmas field_roundtrip [simp] =
  be32.get_put be64.get_put le32.get_put le64.get_put byte1.get_put

lemma unat_u32_of_nat: "n < 2 ^ 32 \<Longrightarrow> unat (of_nat n :: u32) = n"
  by (simp add: unat_of_nat)

lemma unat_u32_less: "unat (w :: u32) < 2 ^ 32"
  using unsigned_less [of w] by simp

lemma unat_u64_of_nat: "n < 2 ^ 64 \<Longrightarrow> unat (of_nat n :: u64) = n"
  by (simp add: unat_of_nat)

section \<open>Decimal numbers\<close>

text \<open>
  \<^verbatim>\<open>format!("{:020}")\<close> and \<^verbatim>\<open>str::parse::<u64>\<close>: an optional \<open>+\<close> sign, at least
  one digit, and a value that fits the type (below \<open>bound\<close>).
\<close>

fun nat_to_dec :: "nat \<Rightarrow> string" where
  "nat_to_dec n =
     (if n < 10 then [char_of (48 + n)] else nat_to_dec (n div 10) @ [char_of (48 + n mod 10)])"

declare nat_to_dec.simps [simp del]

definition zero_pad :: "nat \<Rightarrow> string \<Rightarrow> string" where
  "zero_pad w s = replicate (w - length s) (CHR ''0'') @ s"

definition is_digit :: "char \<Rightarrow> bool" where
  "is_digit c \<longleftrightarrow> 48 \<le> (of_char c :: nat) \<and> (of_char c :: nat) \<le> 57"

definition dec_val :: "string \<Rightarrow> nat" where
  "dec_val ds = foldl (\<lambda>a c. a * 10 + (of_char c - 48)) 0 ds"

definition parse_dec :: "nat \<Rightarrow> string \<Rightarrow> nat option" where
  "parse_dec bound s =
     (let ds = (case s of [] \<Rightarrow> [] | c # t \<Rightarrow> if c = CHR ''+'' then t else s)
      in if ds = [] \<or> \<not> list_all is_digit ds then None
         else if dec_val ds < bound then Some (dec_val ds) else None)"

definition strip_suffix :: "string \<Rightarrow> string \<Rightarrow> string option" where
  "strip_suffix suf s =
     (if length suf \<le> length s \<and> drop (length s - length suf) s = suf
      then Some (take (length s - length suf) s) else None)"

lemma strip_suffix_append [simp]: "strip_suffix suf (s @ suf) = Some s"
  by (simp add: strip_suffix_def)

lemma of_char_digit: "d < 10 \<Longrightarrow> (of_char (char_of (48 + d :: nat)) :: nat) = 48 + d"
  by simp

lemma is_digit_char_of: "d < 10 \<Longrightarrow> is_digit (char_of (48 + d :: nat))"
  by (simp add: is_digit_def)

lemma nat_to_dec_digits: "list_all is_digit (nat_to_dec n)"
proof (induction n rule: nat_to_dec.induct)
  case (1 n)
  then show ?case
    by (subst nat_to_dec.simps) (auto simp: is_digit_char_of)
qed

lemma nat_to_dec_not_Nil: "nat_to_dec n \<noteq> []"
  by (subst nat_to_dec.simps) simp

lemma dec_val_snoc: "dec_val (ds @ [c]) = dec_val ds * 10 + (of_char c - 48)"
  by (simp add: dec_val_def)

lemma dec_val_nat_to_dec: "dec_val (nat_to_dec n) = n"
proof (induction n rule: nat_to_dec.induct)
  case (1 n)
  show ?case
  proof (cases "n < 10")
    case True
    then show ?thesis
      by (subst nat_to_dec.simps) (simp add: dec_val_def)
  next
    case False
    then show ?thesis
      using 1 by (subst nat_to_dec.simps) (simp add: dec_val_snoc)
  qed
qed

lemma dec_val_zero_pad: "dec_val (zero_pad w s) = dec_val s"
proof -
  have "foldl (\<lambda>a c. a * 10 + (of_char c - 48 :: nat)) 0 (replicate k (CHR ''0'')) = 0" for k
    by (induction k) auto
  then show ?thesis
    by (simp add: dec_val_def zero_pad_def)
qed

lemma plus_not_digit: "\<not> is_digit (CHR ''+'')"
  by (simp add: is_digit_def)

lemma parse_dec_digits:
  "list_all is_digit s \<Longrightarrow> s \<noteq> [] \<Longrightarrow> dec_val s < bound \<Longrightarrow> parse_dec bound s = Some (dec_val s)"
  using plus_not_digit by (cases s) (auto simp: parse_dec_def Let_def)

lemma zero_pad_digits: "list_all is_digit s \<Longrightarrow> list_all is_digit (zero_pad w s)"
  by (auto simp: zero_pad_def list_all_iff is_digit_def)

lemma zero_pad_not_Nil: "s \<noteq> [] \<Longrightarrow> zero_pad w s \<noteq> []"
  by (simp add: zero_pad_def)

lemma parse_dec_padded: "n < bound \<Longrightarrow> parse_dec bound (zero_pad w (nat_to_dec n)) = Some n"
  using parse_dec_digits [OF zero_pad_digits [OF nat_to_dec_digits, of w n], of bound]
  by (simp add: dec_val_zero_pad dec_val_nat_to_dec zero_pad_not_Nil nat_to_dec_not_Nil)

lemma zero_pad_inj:
  assumes "zero_pad w (nat_to_dec m) = zero_pad w (nat_to_dec n)"
  shows "m = n"
  using arg_cong [OF assms, of dec_val] by (simp add: dec_val_zero_pad dec_val_nat_to_dec)

section \<open>Binary search\<close>

text \<open>
  \<^verbatim>\<open>slice::binary_search_by_key\<close>, as the standard library runs it: the loop halves
  \<open>size\<close> and keeps in \<open>base\<close> the last probed position whose key is not above the target.
\<close>

datatype search_result = Found nat | Insert_at nat

function bsearch_loop :: "('a \<Rightarrow> 'k::linorder) \<Rightarrow> 'k \<Rightarrow> 'a list \<Rightarrow> nat \<Rightarrow> nat \<Rightarrow> nat" where
  "bsearch_loop key k xs base n =
     (if 1 < n
      then let half = n div 2; mid = base + half
           in bsearch_loop key k xs (if k < key (xs ! mid) then base else mid) (n - half)
      else base)"
  by pat_completeness auto
termination
  by (relation "measure (\<lambda>(key, k, xs, base, n). n)") auto

declare bsearch_loop.simps [simp del]

definition binary_search_by_key :: "('a \<Rightarrow> 'k::linorder) \<Rightarrow> 'k \<Rightarrow> 'a list \<Rightarrow> search_result" where
  "binary_search_by_key key k xs =
     (if xs = [] then Insert_at 0
      else let base = bsearch_loop key k xs 0 (length xs)
           in if key (xs ! base) = k then Found base
              else Insert_at (base + (if key (xs ! base) < k then 1 else 0)))"

definition bsearch_inv :: "('a \<Rightarrow> 'k::linorder) \<Rightarrow> 'k \<Rightarrow> 'a list \<Rightarrow> nat \<Rightarrow> nat \<Rightarrow> bool" where
  "bsearch_inv key k xs base n \<longleftrightarrow>
     1 \<le> n \<and> base + n \<le> length xs \<and> (base = 0 \<or> key (xs ! base) \<le> k) \<and>
     (\<forall>i. base + n \<le> i \<and> i < length xs \<longrightarrow> k < key (xs ! i))"

lemma bsearch_inv_step:
  assumes sorted: "sorted_wrt (\<lambda>x y. key x < key y) xs" and inv: "bsearch_inv key k xs base n"
    and more: "1 < n"
  shows "bsearch_inv key k xs (if k < key (xs ! (base + n div 2)) then base else base + n div 2) (n - n div 2)"
proof (cases "k < key (xs ! (base + n div 2))")
  case True
  have "k < key (xs ! i)" if "base + n div 2 \<le> i" "i < length xs" for i
    using sorted_wrt_nth_less [OF sorted, of "base + n div 2" i] True that
    by (cases "i = base + n div 2") auto
  then have "k < key (xs ! i)" if "base + (n - n div 2) \<le> i" "i < length xs" for i
    using that by (cases "base + n \<le> i") (use inv in \<open>auto simp: bsearch_inv_def\<close>)
  then show ?thesis
    using True inv more by (auto simp: bsearch_inv_def)
next
  case False
  then show ?thesis
    using inv more by (auto simp: bsearch_inv_def)
qed

lemma bsearch_loop_inv:
  assumes "sorted_wrt (\<lambda>x y. key x < key y) xs" and "bsearch_inv key k xs base n"
  shows "bsearch_inv key k xs (bsearch_loop key k xs base n) 1"
  using assms
proof (induction key k xs base n rule: bsearch_loop.induct)
  case (1 key k xs base n)
  show ?case
  proof (cases "1 < n")
    case True
    then show ?thesis
      using 1 bsearch_inv_step [OF 1(2,3) True] by (subst bsearch_loop.simps) (simp add: Let_def)
  next
    case False
    then have "n = 1"
      using 1(3) by (simp add: bsearch_inv_def)
    then show ?thesis
      using 1(3) by (subst bsearch_loop.simps) simp
  qed
qed

text \<open>
  What the callers rely on: over strictly increasing keys the search either finds the target or
  reports the number of keys below it.
\<close>

lemma binary_search_by_key_spec:
  assumes "sorted_wrt (\<lambda>x y. key x < key y) xs"
  shows "case binary_search_by_key key k xs of
           Found i \<Rightarrow> i < length xs \<and> key (xs ! i) = k
         | Insert_at j \<Rightarrow> j \<le> length xs \<and> (\<forall>i < j. key (xs ! i) < k) \<and> (\<forall>i. j \<le> i \<and> i < length xs \<longrightarrow> k < key (xs ! i))"
proof (cases "xs = []")
  case True
  then show ?thesis by (simp add: binary_search_by_key_def)
next
  case False
  let ?b = "bsearch_loop key k xs 0 (length xs)"
  from False have "bsearch_inv key k xs 0 (length xs)"
    by (cases xs) (auto simp: bsearch_inv_def)
  from bsearch_loop_inv [OF assms this] have b: "bsearch_inv key k xs ?b 1" .
  have below: "key (xs ! i) < key (xs ! ?b)" if "i < ?b" for i
    using sorted_wrt_nth_less [OF assms that] b by (simp add: bsearch_inv_def)
  have above: "k < key (xs ! i)" if "\<not> key (xs ! ?b) \<le> k" "i < length xs" for i
    using b that by (cases i) (auto simp: bsearch_inv_def)
  show ?thesis
    using False b below above
    by (auto simp: binary_search_by_key_def bsearch_inv_def Let_def less_Suc_eq
        dest: order_less_trans order_less_le_trans)
qed

lemma binary_search_by_key_bounds:
  assumes "sorted_wrt (\<lambda>x y. key x < key y) xs"
  shows "binary_search_by_key key k xs = Found i \<Longrightarrow> i < length xs \<and> key (xs ! i) = k"
    and "binary_search_by_key key k xs = Insert_at j \<Longrightarrow>
         j \<le> length xs \<and> (\<forall>i < j. key (xs ! i) < k) \<and> (\<forall>i. j \<le> i \<and> i < length xs \<longrightarrow> k < key (xs ! i))"
  using binary_search_by_key_spec [OF assms, of k] by auto

text \<open>On any list, sorted or not, the search stays inside it.\<close>

lemma bsearch_loop_bounds:
  "0 < n \<Longrightarrow> base \<le> bsearch_loop f k xs base n \<and> bsearch_loop f k xs base n < base + n"
proof (induction f k xs base n rule: bsearch_loop.induct)
  case (1 f k xs base n)
  show ?case
  proof (cases "1 < n")
    case True
    let ?b = "if k < f (xs ! (base + n div 2)) then base else base + n div 2"
    have "?b \<le> bsearch_loop f k xs ?b (n - n div 2) \<and> bsearch_loop f k xs ?b (n - n div 2) < ?b + (n - n div 2)"
      using "1.IH" [OF True refl refl] True by simp
    moreover have "base \<le> ?b" and "?b + (n - n div 2) \<le> base + n"
      by auto
    moreover have "bsearch_loop f k xs base n = bsearch_loop f k xs ?b (n - n div 2)"
      using True by (subst bsearch_loop.simps) (simp add: Let_def)
    ultimately show ?thesis
      by linarith
  next
    case False
    with 1 show ?thesis
      by (subst (1 2) bsearch_loop.simps) auto
  qed
qed

lemma binary_search_in_range:
  "binary_search_by_key f k xs = Found i \<Longrightarrow> i < length xs"
  "binary_search_by_key f k xs = Insert_at j \<Longrightarrow> j \<le> length xs"
  using bsearch_loop_bounds [of "length xs" 0 f k xs]
  by (auto simp: binary_search_by_key_def Let_def split: if_splits)

section \<open>Lists\<close>

lemma list_all2_snoc [simp]: "list_all2 P (xs @ [x]) (ys @ [y]) \<longleftrightarrow> list_all2 P xs ys \<and> P x y"
  by (cases "length xs = length ys") (auto simp: list_all2_append dest: list_all2_lengthD)

lemma set_map_filter: "set (List.map_filter f xs) = {y. \<exists>x \<in> set xs. f x = Some y}"
  by (force simp: List.map_filter_def)

lemma distinct_map_filterI:
  "distinct xs \<Longrightarrow> (\<And>x y z. x \<in> set xs \<Longrightarrow> y \<in> set xs \<Longrightarrow> f x = Some z \<Longrightarrow> f y = Some z \<Longrightarrow> x = y) \<Longrightarrow>
   distinct (List.map_filter f xs)"
  by (auto simp: List.map_filter_def distinct_map inj_on_def)

lemma upt_split_first: "0 < n \<Longrightarrow> [a ..< a + n] = a # [Suc a ..< Suc a + (n - 1)]"
  by (simp add: upt_conv_Cons)

end
