(* ===== verification/Kafko_Error.thy ===== *)
theory Kafko_Error
  imports Kafko_Prelude
begin

text \<open>
  The error type of \<^verbatim>\<open>src/crates/kafko/src/error.rs\<close>, and how every fallible operation of
  the development returns: \<open>Ok\<close> a value, \<open>Err\<close> an error the caller sees as
  \<^verbatim>\<open>Result::Err\<close>, or \<open>Panic\<close> where the source would unwind (\<^verbatim>\<open>expect\<close>, a
  slice index out of range, an explicit \<^verbatim>\<open>panic!\<close>). An operation on a state returns the
  state beside its result, since the source keeps what it wrote through \<^verbatim>\<open>&mut\<close> on the
  error paths too.
\<close>

section \<open>Errors\<close>

datatype compression = NoCompression | Lz4 | Zstd

datatype io_kind =
    NotFound | PermissionDenied | AlreadyExists | WouldBlock | InvalidInput | TimedOut
  | WriteZero | StorageFull | Interrupted | UnexpectedEof | Other

datatype io_error = IoError (io_error_kind: io_kind) (io_error_message: string)

text \<open>The text of \<^verbatim>\<open>std::io::Error::from(kind)\<close>.\<close>

fun io_kind_text :: "io_kind \<Rightarrow> string" where
  "io_kind_text NotFound = ''entity not found''"
| "io_kind_text PermissionDenied = ''permission denied''"
| "io_kind_text AlreadyExists = ''entity already exists''"
| "io_kind_text WouldBlock = ''operation would block''"
| "io_kind_text InvalidInput = ''invalid input parameter''"
| "io_kind_text TimedOut = ''timed out''"
| "io_kind_text WriteZero = ''write zero''"
| "io_kind_text StorageFull = ''no storage space''"
| "io_kind_text Interrupted = ''operation interrupted''"
| "io_kind_text UnexpectedEof = ''unexpected end of file''"
| "io_kind_text Other = ''other error''"

datatype kafko_error =
    Io io_error
  | Truncated nat
  | CrcMismatch u32 u32
  | InvalidLength u32
  | Closed
  | TopicAlreadyExists string
  | TopicNotFound string
  | TopicInUse string
  | UnknownCompression u8
  | DecompressionFailed
  | CompressionUnavailable compression
  | AlreadyOpen string
  | PartitionPanicked string
  | InvalidPartitionCount u32
  | InvalidGroupName string
  | InvalidTopicLayout string string

text \<open>
  \<^verbatim>\<open>impl Clone for KafkoError\<close>: the I/O arm builds a fresh \<^verbatim>\<open>io::Error\<close> from the kind and
  the display string, every other arm copies its fields.
\<close>

fun clone_error :: "kafko_error \<Rightarrow> kafko_error" where
  "clone_error (Io e) = Io (IoError (io_error_kind e) (io_error_message e))"
| "clone_error (Truncated needed) = Truncated needed"
| "clone_error (CrcMismatch expected actual) = CrcMismatch expected actual"
| "clone_error (InvalidLength n) = InvalidLength n"
| "clone_error Closed = Closed"
| "clone_error (TopicAlreadyExists s) = TopicAlreadyExists s"
| "clone_error (TopicNotFound s) = TopicNotFound s"
| "clone_error (TopicInUse s) = TopicInUse s"
| "clone_error (UnknownCompression b) = UnknownCompression b"
| "clone_error DecompressionFailed = DecompressionFailed"
| "clone_error (CompressionUnavailable c) = CompressionUnavailable c"
| "clone_error (AlreadyOpen path) = AlreadyOpen path"
| "clone_error (PartitionPanicked payload) = PartitionPanicked payload"
| "clone_error (InvalidPartitionCount n) = InvalidPartitionCount n"
| "clone_error (InvalidGroupName s) = InvalidGroupName s"
| "clone_error (InvalidTopicLayout topic detail) = InvalidTopicLayout topic detail"

lemma clone_error_id [simp]: "clone_error e = e"
  by (cases e) auto

section \<open>Results\<close>

datatype 'a res = Ok 'a | Err kafko_error | Panic string

text \<open>
  \<open>and_then\<close> is the \<open>?\<close> operator and the sequencing of statements in one: the
  continuation runs on \<open>Ok\<close>, and an error or a panic is passed on with the state as it is.
  \<open>in_state\<close> runs an operation on a component and puts the component back.
\<close>

definition and_then :: "'a res \<times> 's \<Rightarrow> ('a \<Rightarrow> 's \<Rightarrow> 'b res \<times> 's) \<Rightarrow> 'b res \<times> 's" where
  "and_then r k = (case r of (Ok a, s) \<Rightarrow> k a s | (Err e, s) \<Rightarrow> (Err e, s) | (Panic m, s) \<Rightarrow> (Panic m, s))"

definition in_state :: "('s \<Rightarrow> 't) \<Rightarrow> 'a res \<times> 's \<Rightarrow> 'a res \<times> 't" where
  "in_state f r = (fst r, f (snd r))"

primrec res_bind :: "'a res \<Rightarrow> ('a \<Rightarrow> 'b res) \<Rightarrow> 'b res" where
  "res_bind (Ok a) k = k a"
| "res_bind (Err e) k = Err e"
| "res_bind (Panic m) k = Panic m"

lemma and_then_simps [simp]:
  "and_then (Ok a, s) k = k a s"
  "and_then (Err e, s) k = (Err e, s)"
  "and_then (Panic m, s) k = (Panic m, s)"
  by (simp_all add: and_then_def)

lemma in_state_pair [simp]: "in_state f (r, s) = (r, f s)"
  by (simp add: in_state_def)

lemma and_then_eq_Ok:
  "and_then r k = (Ok b, t) \<longleftrightarrow> (\<exists>a s. r = (Ok a, s) \<and> k a s = (Ok b, t))"
  by (cases r; cases "fst r") auto

lemma in_state_eq_Ok: "in_state f r = (Ok a, t) \<longleftrightarrow> (\<exists>s. r = (Ok a, s) \<and> t = f s)"
  by (cases r) auto

lemma and_then_assoc:
  "and_then (and_then r k) l = and_then r (\<lambda>a s. and_then (k a s) l)"
  by (cases r; cases "fst r") auto

lemma and_then_cong [cong]: "r = r' \<Longrightarrow> and_then r k = and_then r' k"
  by simp

definition no_panic :: "'a res \<times> 's \<Rightarrow> bool" where
  "no_panic r \<longleftrightarrow> (\<forall>m. fst r \<noteq> Panic m)"

lemma no_panic_simps [simp]:
  "no_panic (Ok a, s)" "no_panic (Err e, s)" "\<not> no_panic (Panic m, s)"
  by (simp_all add: no_panic_def)

lemma no_panic_and_then:
  "no_panic r \<Longrightarrow> (\<And>a s. r = (Ok a, s) \<Longrightarrow> no_panic (k a s)) \<Longrightarrow> no_panic (and_then r k)"
  by (cases r; cases "fst r") auto

end
