(* ===== verification/Kafko_Os.thy ===== *)
theory Kafko_Os
  imports Kafko_Error
begin

text \<open>
  What the sources use of \<^verbatim>\<open>std::fs\<close> and \<^verbatim>\<open>tokio::fs\<close>: one directory of files, file
  handles with a kernel position, and system calls that may fail. Each system call takes the
  next outcome of the schedule \<open>os_faults\<close> (an empty schedule means every call succeeds); a
  failing write may have written some bytes first, as \<^verbatim>\<open>write_all\<close> may. A file has the
  content every reader sees (the page cache) and the content a power loss cannot take away
  (\<open>file_durable\<close>, what the last \<^verbatim>\<open>fsync\<close> covered). One \<^verbatim>\<open>read\<close> call transfers at
  most \<open>os_read_limit\<close> bytes, as the kernel bounds it.
\<close>

section \<open>Files, handles and the directory\<close>

record disk_file =
  file_content :: bytes
  file_durable :: bytes
  file_mtime :: int

datatype io_outcome = Succeed | Fail io_kind nat

record os =
  os_files :: "(string \<times> disk_file) list"
  os_faults :: "io_outcome list"
  os_clock :: int
  os_read_limit :: nat

record handle =
  h_name :: string
  h_pos :: nat

definition os_file :: "os \<Rightarrow> string \<Rightarrow> disk_file option" where
  "os_file os name = map_of (os_files os) name"

definition set_file :: "string \<Rightarrow> disk_file \<Rightarrow> os \<Rightarrow> os" where
  "set_file name f os = os\<lparr>os_files := AList.update name f (os_files os)\<rparr>"

definition del_file :: "string \<Rightarrow> os \<Rightarrow> os" where
  "del_file name os = os\<lparr>os_files := AList.delete name (os_files os)\<rparr>"

definition os_content :: "os \<Rightarrow> string \<Rightarrow> bytes option" where
  "os_content os name = map_option file_content (os_file os name)"

definition os_error :: "io_kind \<Rightarrow> kafko_error" where
  "os_error kind = Io (IoError kind ''os error'')"

section \<open>System calls\<close>

definition next_outcome :: "os \<Rightarrow> io_outcome \<times> os" where
  "next_outcome os =
     (case os_faults os of [] \<Rightarrow> (Succeed, os) | f # fs \<Rightarrow> (f, os\<lparr>os_faults := fs\<rparr>))"

definition syscall :: "os \<Rightarrow> (os \<Rightarrow> 'a res \<times> os) \<Rightarrow> 'a res \<times> os" where
  "syscall os k =
     (case next_outcome os of (Succeed, os') \<Rightarrow> k os' | (Fail kind n, os') \<Rightarrow> (Err (os_error kind), os'))"

definition create_dir_all :: "os \<Rightarrow> unit res \<times> os" where
  "create_dir_all os = syscall os (\<lambda>os. (Ok (), os))"

definition read_dir :: "os \<Rightarrow> string list res \<times> os" where
  "read_dir os = syscall os (\<lambda>os. (Ok (map fst (os_files os)), os))"

definition open_create_new :: "string \<Rightarrow> os \<Rightarrow> handle res \<times> os" where
  "open_create_new name os = syscall os (\<lambda>os.
     if os_file os name = None
     then (Ok \<lparr>h_name = name, h_pos = 0\<rparr>,
           set_file name \<lparr>file_content = [], file_durable = [], file_mtime = os_clock os\<rparr> os)
     else (Err (os_error AlreadyExists), os))"

definition open_existing :: "string \<Rightarrow> os \<Rightarrow> handle res \<times> os" where
  "open_existing name os = syscall os (\<lambda>os.
     if os_file os name = None then (Err (os_error NotFound), os)
     else (Ok \<lparr>h_name = name, h_pos = 0\<rparr>, os))"

definition with_file :: "string \<Rightarrow> (disk_file \<Rightarrow> 'a) \<Rightarrow> os \<Rightarrow> 'a res \<times> os" where
  "with_file name k os = syscall os (\<lambda>os.
     case os_file os name of None \<Rightarrow> (Err (os_error NotFound), os) | Some f \<Rightarrow> (Ok (k f), os))"

definition metadata_len :: "string \<Rightarrow> os \<Rightarrow> nat res \<times> os" where
  "metadata_len name os = with_file name (\<lambda>f. length (file_content f)) os"

definition metadata_modified :: "string \<Rightarrow> os \<Rightarrow> int res \<times> os" where
  "metadata_modified name os = with_file name file_mtime os"

definition fs_read :: "string \<Rightarrow> os \<Rightarrow> bytes res \<times> os" where
  "fs_read name os = with_file name file_content os"

definition remove_file :: "string \<Rightarrow> os \<Rightarrow> unit res \<times> os" where
  "remove_file name os = syscall os (\<lambda>os.
     if os_file os name = None then (Err (os_error NotFound), os) else (Ok (), del_file name os))"

text \<open>
  \<^verbatim>\<open>File::create\<close> truncates an existing file, which is not durable until it is synced, and
  \<^verbatim>\<open>rename\<close> replaces the target in one step.
\<close>

definition file_create :: "string \<Rightarrow> os \<Rightarrow> handle res \<times> os" where
  "file_create name os = syscall os (\<lambda>os.
     (Ok \<lparr>h_name = name, h_pos = 0\<rparr>,
      set_file name \<lparr>file_content = [],
        file_durable = (case os_file os name of None \<Rightarrow> [] | Some f \<Rightarrow> file_durable f),
        file_mtime = os_clock os\<rparr> os))"

definition file_rename :: "string \<Rightarrow> string \<Rightarrow> os \<Rightarrow> unit res \<times> os" where
  "file_rename old new os = syscall os (\<lambda>os.
     case os_file os old of
       None \<Rightarrow> (Err (os_error NotFound), os)
     | Some f \<Rightarrow> (Ok (), set_file new f (del_file old os)))"

section \<open>Operations on a handle\<close>

definition write_at :: "bytes \<Rightarrow> nat \<Rightarrow> bytes \<Rightarrow> bytes" where
  "write_at c pos bs = take pos (c @ replicate (pos - length c) 0) @ bs @ drop (pos + length bs) c"

definition store_bytes :: "string \<Rightarrow> nat \<Rightarrow> bytes \<Rightarrow> os \<Rightarrow> os" where
  "store_bytes name pos bs os =
     (case os_file os name of
        None \<Rightarrow> os
      | Some f \<Rightarrow>
          if bs = [] then os
          else set_file name (f\<lparr>file_content := write_at (file_content f) pos bs, file_mtime := os_clock os\<rparr>) os)"

definition file_seek :: "nat \<Rightarrow> handle \<times> os \<Rightarrow> unit res \<times> handle \<times> os" where
  "file_seek pos = (\<lambda>(h, os).
     case next_outcome os of
       (Succeed, os') \<Rightarrow> (Ok (), h\<lparr>h_pos := pos\<rparr>, os')
     | (Fail kind n, os') \<Rightarrow> (Err (os_error kind), h, os'))"

definition file_write_all :: "bytes \<Rightarrow> handle \<times> os \<Rightarrow> unit res \<times> handle \<times> os" where
  "file_write_all bs = (\<lambda>(h, os).
     if bs = [] then (Ok (), h, os)
     else case next_outcome os of
       (Succeed, os') \<Rightarrow>
         (Ok (), h\<lparr>h_pos := h_pos h + length bs\<rparr>, store_bytes (h_name h) (h_pos h) bs os')
     | (Fail kind n, os') \<Rightarrow>
         (Err (os_error kind), h\<lparr>h_pos := h_pos h + length (take n bs)\<rparr>,
          store_bytes (h_name h) (h_pos h) (take n bs) os'))"

text \<open>\<^verbatim>\<open>File::read\<close> of up to \<open>n\<close> bytes at the handle's position.\<close>

definition file_read :: "nat \<Rightarrow> handle \<times> os \<Rightarrow> bytes res \<times> handle \<times> os" where
  "file_read n = (\<lambda>(h, os).
     case next_outcome os of
       (Succeed, os') \<Rightarrow>
         (let c = (case os_content os' (h_name h) of None \<Rightarrow> [] | Some c \<Rightarrow> c);
              got = take (min n (os_read_limit os')) (drop (h_pos h) c)
          in (Ok got, h\<lparr>h_pos := h_pos h + length got\<rparr>, os'))
     | (Fail kind m, os') \<Rightarrow> (Err (os_error kind), h, os'))"

text \<open>A write through a handle opened in append mode goes to the end of the file.\<close>

definition file_append :: "string \<Rightarrow> bytes \<Rightarrow> os \<Rightarrow> unit res \<times> os" where
  "file_append name bs os =
     (let end_pos = (case os_content os name of None \<Rightarrow> 0 | Some c \<Rightarrow> length c)
      in if bs = [] then (Ok (), os)
         else case next_outcome os of
           (Succeed, os') \<Rightarrow> (Ok (), store_bytes name end_pos bs os')
         | (Fail kind n, os') \<Rightarrow> (Err (os_error kind), store_bytes name end_pos (take n bs) os'))"

definition file_set_len :: "string \<Rightarrow> nat \<Rightarrow> os \<Rightarrow> unit res \<times> os" where
  "file_set_len name n os = syscall os (\<lambda>os.
     case os_file os name of
       None \<Rightarrow> (Ok (), os)
     | Some f \<Rightarrow>
         (Ok (), set_file name
            (f\<lparr>file_content := take n (file_content f @ replicate (n - length (file_content f)) 0),
               file_mtime := os_clock os\<rparr>) os))"

definition file_sync_data :: "string \<Rightarrow> os \<Rightarrow> unit res \<times> os" where
  "file_sync_data name os = syscall os (\<lambda>os.
     case os_file os name of
       None \<Rightarrow> (Ok (), os)
     | Some f \<Rightarrow> (Ok (), set_file name (f\<lparr>file_durable := file_content f\<rparr>) os))"

section \<open>Power loss\<close>

text \<open>
  What a file may hold after a power loss: what was durable and some prefix of what had been
  written since, or what was durable and zeros where the size had reached the disk before the
  data. A file that was synced and not written since is unchanged. File names survive.
\<close>

definition survives :: "disk_file \<Rightarrow> bytes \<Rightarrow> bool" where
  "survives f c \<longleftrightarrow>
     (\<exists>k. length (file_durable f) \<le> k \<and> c = take k (file_content f)) \<or>
     (\<exists>z. z \<le> length (file_content f) - length (file_durable f) \<and> c = file_durable f @ replicate z 0)"

definition power_loss :: "os \<Rightarrow> os \<Rightarrow> bool" where
  "power_loss os os' \<longleftrightarrow>
     map fst (os_files os') = map fst (os_files os) \<and>
     (\<forall>name f. os_file os name = Some f \<longrightarrow>
        (\<exists>c m. survives f c \<and> os_file os' name = Some \<lparr>file_content = c, file_durable = c, file_mtime = m\<rparr>))"

section \<open>Laws\<close>

lemma os_file_set_file [simp]:
  "os_file (set_file name f os) m = (if m = name then Some f else os_file os m)"
  by (simp add: os_file_def set_file_def update_conv')

lemma os_file_del_file [simp]:
  "os_file (del_file name os) m = (if m = name then None else os_file os m)"
  by (simp add: os_file_def del_file_def delete_conv')

lemma os_content_set_file [simp]:
  "os_content (set_file name f os) m = (if m = name then Some (file_content f) else os_content os m)"
  by (simp add: os_content_def)

lemma os_content_del_file [simp]:
  "os_content (del_file name os) m = (if m = name then None else os_content os m)"
  by (simp add: os_content_def)

lemma os_frame [simp]:
  "os_faults (set_file name f os) = os_faults os"
  "os_clock (set_file name f os) = os_clock os"
  "os_read_limit (set_file name f os) = os_read_limit os"
  "os_faults (del_file name os) = os_faults os"
  "os_clock (del_file name os) = os_clock os"
  "os_read_limit (del_file name os) = os_read_limit os"
  by (simp_all add: set_file_def del_file_def)

lemma os_file_faults_update [simp]:
  "os_file (os\<lparr>os_faults := fs\<rparr>) = os_file os" "os_content (os\<lparr>os_faults := fs\<rparr>) = os_content os"
  by (simp_all add: os_file_def os_content_def fun_eq_iff)

lemma os_file_iff_dir: "os_file os name \<noteq> None \<longleftrightarrow> name \<in> set (map fst (os_files os))"
  by (force simp: os_file_def map_of_eq_None_iff)

lemma os_content_eq_None [simp]: "os_content os name = None \<longleftrightarrow> os_file os name = None"
  by (simp add: os_content_def)

lemma store_bytes_frame [simp]:
  "os_faults (store_bytes name pos bs os) = os_faults os"
  "os_clock (store_bytes name pos bs os) = os_clock os"
  "os_read_limit (store_bytes name pos bs os) = os_read_limit os"
  by (simp_all add: store_bytes_def split: option.splits)

lemma os_content_store_bytes:
  "os_content (store_bytes name pos bs os) m =
     (if m = name \<and> bs \<noteq> [] then map_option (\<lambda>c. write_at c pos bs) (os_content os name) else os_content os m)"
  by (auto simp: store_bytes_def os_content_def split: option.splits)

lemma write_at_end [simp]: "write_at c (length c) bs = c @ bs"
  by (simp add: write_at_def)

lemma next_outcome_no_faults [io_simps]: "os_faults os = [] \<Longrightarrow> next_outcome os = (Succeed, os)"
  by (simp add: next_outcome_def)

lemma syscall_no_faults [io_simps]: "os_faults os = [] \<Longrightarrow> syscall os k = k os"
  by (simp add: syscall_def io_simps)

lemma no_panic_syscall: "(\<And>os'. no_panic (k os')) \<Longrightarrow> no_panic (syscall os k)"
  by (auto simp: syscall_def split: prod.splits io_outcome.splits)

definition os_durable :: "os \<Rightarrow> string \<Rightarrow> bytes option" where
  "os_durable os name = map_option file_durable (os_file os name)"

text \<open>
  \<open>only_touches S os os'\<close>: between the two states nothing but the files named in \<open>S\<close> has
  changed, and no fault was reported.
\<close>

definition only_touches :: "string set \<Rightarrow> os \<Rightarrow> os \<Rightarrow> bool" where
  "only_touches S os os' \<longleftrightarrow>
     (\<forall>m. m \<notin> S \<longrightarrow> os_file os' m = os_file os m) \<and> os_faults os' = os_faults os \<and>
     os_clock os' = os_clock os \<and> os_read_limit os' = os_read_limit os"

definition os_wf :: "os \<Rightarrow> bool" where
  "os_wf os \<longleftrightarrow> distinct (map fst (os_files os))"

lemma only_touches_refl [simp]: "only_touches S os os"
  by (simp add: only_touches_def)

lemma only_touches_trans:
  "only_touches S os os' \<Longrightarrow> only_touches T os' os'' \<Longrightarrow> only_touches (S \<union> T) os os''"
  by (auto simp: only_touches_def)

lemma only_touches_mono: "only_touches S os os' \<Longrightarrow> S \<subseteq> T \<Longrightarrow> only_touches T os os'"
  by (auto simp: only_touches_def)

lemma only_touchesD:
  assumes "only_touches S os os'"
  shows "m \<notin> S \<Longrightarrow> os_file os' m = os_file os m"
    and "m \<notin> S \<Longrightarrow> os_content os' m = os_content os m"
    and "m \<notin> S \<Longrightarrow> os_durable os' m = os_durable os m"
    and "os_faults os' = os_faults os" and "os_clock os' = os_clock os" and "os_read_limit os' = os_read_limit os"
  using assms by (auto simp: only_touches_def os_content_def os_durable_def)

lemma only_touches_set_file [simp]: "only_touches {name} os (set_file name f os)"
  by (simp add: only_touches_def)

lemma only_touches_del_file [simp]: "only_touches {name} os (del_file name os)"
  by (simp add: only_touches_def)

lemma only_touches_store_bytes [simp]: "only_touches {name} os (store_bytes name pos bs os)"
  by (auto simp: only_touches_def store_bytes_def split: option.splits)

lemma os_wf_set_file [simp]: "os_wf os \<Longrightarrow> os_wf (set_file name f os)"
  by (simp add: os_wf_def set_file_def distinct_update)

lemma os_wf_del_file [simp]: "os_wf os \<Longrightarrow> os_wf (del_file name os)"
  by (simp add: os_wf_def del_file_def distinct_delete)

lemma os_wf_store_bytes [simp]: "os_wf os \<Longrightarrow> os_wf (store_bytes name pos bs os)"
  by (auto simp: store_bytes_def split: option.splits)

lemma os_durable_set_file [simp]:
  "os_durable (set_file name f os) m = (if m = name then Some (file_durable f) else os_durable os m)"
  by (simp add: os_durable_def)

lemma os_durable_del_file [simp]:
  "os_durable (del_file name os) m = (if m = name then None else os_durable os m)"
  by (simp add: os_durable_def)

lemma os_durable_store_bytes [simp]: "os_durable (store_bytes name pos bs os) m = os_durable os m"
  by (auto simp: store_bytes_def os_durable_def split: option.splits)

lemma os_file_store_bytes_None [simp]: "os_file (store_bytes name pos bs os) m = None \<longleftrightarrow> os_file os m = None"
  by (auto simp: store_bytes_def split: option.splits)

text \<open>The system calls on a directory without pending faults.\<close>

lemma open_create_new_ok [io_simps]:
  "os_faults os = [] \<Longrightarrow> os_file os name = None \<Longrightarrow>
   open_create_new name os =
     (Ok \<lparr>h_name = name, h_pos = 0\<rparr>,
      set_file name \<lparr>file_content = [], file_durable = [], file_mtime = os_clock os\<rparr> os)"
  by (simp add: open_create_new_def io_simps)

lemma open_existing_ok [io_simps]:
  "os_faults os = [] \<Longrightarrow> os_content os name = Some c \<Longrightarrow> open_existing name os = (Ok \<lparr>h_name = name, h_pos = 0\<rparr>, os)"
  by (auto simp: open_existing_def io_simps os_content_def)

lemma metadata_len_ok [io_simps]:
  "os_faults os = [] \<Longrightarrow> os_content os name = Some c \<Longrightarrow> metadata_len name os = (Ok (length c), os)"
  by (auto simp: metadata_len_def with_file_def io_simps os_content_def)

lemma fs_read_ok [io_simps]:
  "os_faults os = [] \<Longrightarrow> os_content os name = Some c \<Longrightarrow> fs_read name os = (Ok c, os)"
  by (auto simp: fs_read_def with_file_def io_simps os_content_def)

lemma file_sync_data_ok [io_simps]:
  "os_faults os = [] \<Longrightarrow> os_file os name = Some f \<Longrightarrow>
   file_sync_data name os = (Ok (), set_file name (f\<lparr>file_durable := file_content f\<rparr>) os)"
  by (simp add: file_sync_data_def io_simps)

lemma file_append_ok [io_simps]:
  "os_faults os = [] \<Longrightarrow> os_content os name = Some c \<Longrightarrow>
   file_append name bs os = (Ok (), store_bytes name (length c) bs os)"
  by (auto simp: file_append_def io_simps store_bytes_def Let_def split: option.splits)

text \<open>An empty directory on a machine whose reads are bounded as on Linux.\<close>

definition demo_os :: os where
  "demo_os = \<lparr>os_files = [], os_faults = [], os_clock = 1000, os_read_limit = 0x7FFFF000\<rparr>"

end
