(* ===== verification/Kafko_Segment.thy ===== *)
theory Kafko_Segment
  imports Kafko_Os
begin

text \<open>
  \<^verbatim>\<open>src/crates/kafko/src/segment.rs\<close>: one \<^verbatim>\<open>.log\<close> file with its append cursor. The
  segment caches the position it believes the kernel's handle to be at and seeks only when it
  wants another one; \<open>cursor\<close> is that cache and \<open>h_pos\<close> of the handle is the truth. Every
  operation takes and returns the segment and the directory.
\<close>

record segment =
  seg_base_offset :: nat
  seg_path :: string
  seg_file :: handle
  seg_size :: nat
  cursor :: "nat option"

definition FILENAME_DIGITS :: nat where
  "FILENAME_DIGITS = 20"

definition segment_path :: "nat \<Rightarrow> string" where
  "segment_path base_offset = zero_pad FILENAME_DIGITS (nat_to_dec base_offset) @ ''.log''"

section \<open>Operations\<close>

definition segment_create :: "nat \<Rightarrow> os \<Rightarrow> segment res \<times> os" where
  "segment_create base_offset os =
     (let path = segment_path base_offset in
      and_then (open_create_new path os) (\<lambda>file os.
        (Ok \<lparr>seg_base_offset = base_offset, seg_path = path, seg_file = file, seg_size = 0, cursor = Some 0\<rparr>, os)))"

definition segment_open :: "nat \<Rightarrow> os \<Rightarrow> segment res \<times> os" where
  "segment_open base_offset os =
     (let path = segment_path base_offset in
      and_then (metadata_len path os) (\<lambda>len os.
      and_then (open_existing path os) (\<lambda>file os.
        (Ok \<lparr>seg_base_offset = base_offset, seg_path = path, seg_file = file, seg_size = len, cursor = Some 0\<rparr>, os))))"

definition would_overflow :: "segment \<Rightarrow> nat \<Rightarrow> nat \<Rightarrow> bool" where
  "would_overflow seg additional threshold =
     (if seg_size seg = 0 then False else threshold < seg_size seg + additional)"

definition ensure_cursor :: "nat \<Rightarrow> segment \<times> os \<Rightarrow> unit res \<times> segment \<times> os" where
  "ensure_cursor pos = (\<lambda>(seg, os).
     if cursor seg \<noteq> Some pos
     then and_then (in_state (\<lambda>(h, os). (seg\<lparr>seg_file := h\<rparr>, os)) (file_seek pos (seg_file seg, os)))
            (\<lambda>_ (seg, os). (Ok (), seg\<lparr>cursor := Some pos\<rparr>, os))
     else (Ok (), seg, os))"

definition segment_append :: "bytes \<Rightarrow> segment \<times> os \<Rightarrow> nat res \<times> segment \<times> os" where
  "segment_append bs = (\<lambda>(seg, os).
     let file_pos = seg_size seg in
     and_then (ensure_cursor file_pos (seg, os)) (\<lambda>_ (seg, os).
     and_then (in_state (\<lambda>(h, os). (seg\<lparr>seg_file := h\<rparr>, os)) (file_write_all bs (seg_file seg, os)))
       (\<lambda>_ (seg, os).
         (Ok file_pos, seg\<lparr>cursor := Some (file_pos + length bs), seg_size := file_pos + length bs\<rparr>, os))))"

text \<open>
  \<^verbatim>\<open>read_at\<close> fills the caller's buffer of length \<open>n\<close> and returns how many bytes it read; the
  model returns the bytes read, so the caller's buffer is these bytes followed by what it held.
\<close>

definition segment_read_at :: "nat \<Rightarrow> nat \<Rightarrow> segment \<times> os \<Rightarrow> bytes res \<times> segment \<times> os" where
  "segment_read_at file_pos n = (\<lambda>(seg, os).
     and_then (ensure_cursor file_pos (seg, os)) (\<lambda>_ (seg, os).
     and_then (in_state (\<lambda>(h, os). (seg\<lparr>seg_file := h\<rparr>, os)) (file_read n (seg_file seg, os)))
       (\<lambda>got (seg, os). (Ok got, seg\<lparr>cursor := Some (file_pos + length got)\<rparr>, os))))"

definition segment_truncate :: "nat \<Rightarrow> segment \<times> os \<Rightarrow> unit res \<times> segment \<times> os" where
  "segment_truncate new_size = (\<lambda>(seg, os).
     and_then (in_state (\<lambda>os. (seg, os)) (file_set_len (h_name (seg_file seg)) new_size os)) (\<lambda>_ (seg, os).
     and_then (in_state (\<lambda>os. (seg, os)) (file_sync_data (h_name (seg_file seg)) os)) (\<lambda>_ (seg, os).
       (Ok (), seg\<lparr>seg_size := new_size, cursor := None\<rparr>, os))))"

definition segment_sync :: "segment \<times> os \<Rightarrow> unit res \<times> segment \<times> os" where
  "segment_sync = (\<lambda>(seg, os). in_state (\<lambda>os. (seg, os)) (file_sync_data (h_name (seg_file seg)) os))"

definition last_modified_ms :: "segment \<Rightarrow> os \<Rightarrow> int res \<times> os" where
  "last_modified_ms seg os =
     and_then (metadata_modified (seg_path seg) os) (\<lambda>modified os. (Ok (if modified < 0 then 0 else modified), os))"

section \<open>Invariant\<close>

text \<open>
  The cached cursor agrees with the kernel, the size with the file. This is what makes skipping
  the seek sound.
\<close>

definition cursor_ok :: "segment \<Rightarrow> bool" where
  "cursor_ok seg \<longleftrightarrow> (\<forall>p. cursor seg = Some p \<longrightarrow> h_pos (seg_file seg) = p)"

definition segment_ok :: "os \<Rightarrow> segment \<Rightarrow> bytes \<Rightarrow> bool" where
  "segment_ok os seg content \<longleftrightarrow>
     cursor_ok seg \<and> seg_path seg = segment_path (seg_base_offset seg) \<and> h_name (seg_file seg) = seg_path seg \<and>
     os_content os (seg_path seg) = Some content \<and> seg_size seg = length content"

lemma segment_path_inj [simp]: "segment_path a = segment_path b \<longleftrightarrow> a = b"
  by (auto simp: segment_path_def dest: zero_pad_inj)

lemma segment_path_parse: "n < 2 ^ 64 \<Longrightarrow>
  map_option (parse_dec (2 ^ 64)) (strip_suffix ''.log'' (segment_path n)) = Some (Some n)"
  unfolding segment_path_def by (simp add: parse_dec_padded del: power_numeral)

section \<open>Behaviour without faults\<close>

lemma ensure_cursor_ok [io_simps]:
  assumes "os_faults os = []" and "cursor_ok seg"
  shows "ensure_cursor pos (seg, os) =
           (Ok (), seg\<lparr>seg_file := (seg_file seg)\<lparr>h_pos := pos\<rparr>, cursor := Some pos\<rparr>, os)"
  using assms by (auto simp: ensure_cursor_def file_seek_def cursor_ok_def io_simps)

lemma segment_append_ok [io_simps]:
  assumes "os_faults os = []" and "segment_ok os seg c"
  shows "segment_append bs (seg, os) =
           (Ok (length c),
            seg\<lparr>seg_file := (seg_file seg)\<lparr>h_pos := length c + length bs\<rparr>,
                cursor := Some (length c + length bs), seg_size := length c + length bs\<rparr>,
            store_bytes (seg_path seg) (length c) bs os)"
  using assms
  by (auto simp: segment_append_def segment_ok_def file_write_all_def io_simps store_bytes_def Let_def
      split: option.splits)

lemma segment_ok_append:
  assumes "segment_ok os seg c"
  shows "segment_ok (store_bytes (seg_path seg) (length c) bs os)
           (seg\<lparr>seg_file := (seg_file seg)\<lparr>h_pos := length c + length bs\<rparr>,
                cursor := Some (length c + length bs), seg_size := length c + length bs\<rparr>) (c @ bs)"
  using assms by (auto simp: segment_ok_def cursor_ok_def os_content_store_bytes)

lemma segment_ok_frame:
  "segment_ok os seg c \<Longrightarrow> only_touches S os os' \<Longrightarrow> seg_path seg \<notin> S \<Longrightarrow> segment_ok os' seg c"
  by (auto simp: segment_ok_def dest: only_touchesD)

lemma segment_read_at_ok [io_simps]:
  assumes "os_faults os = []" and "segment_ok os seg c"
  shows "segment_read_at pos n (seg, os) =
           (let got = take (min n (os_read_limit os)) (drop pos c)
            in (Ok got, seg\<lparr>seg_file := (seg_file seg)\<lparr>h_pos := pos + length got\<rparr>,
                            cursor := Some (pos + length got)\<rparr>, os))"
  using assms by (auto simp: segment_read_at_def segment_ok_def file_read_def io_simps Let_def)

lemma segment_ok_seek:
  "segment_ok os seg c \<Longrightarrow> segment_ok os (seg\<lparr>seg_file := (seg_file seg)\<lparr>h_pos := p\<rparr>, cursor := Some p\<rparr>) c"
  by (auto simp: segment_ok_def cursor_ok_def)

lemma segment_create_ok [io_simps]:
  assumes "os_faults os = []" and "os_file os (segment_path base) = None"
  shows "segment_create base os =
           (Ok \<lparr>seg_base_offset = base, seg_path = segment_path base,
                seg_file = \<lparr>h_name = segment_path base, h_pos = 0\<rparr>, seg_size = 0, cursor = Some 0\<rparr>,
            set_file (segment_path base) \<lparr>file_content = [], file_durable = [], file_mtime = os_clock os\<rparr> os)"
  using assms by (simp add: segment_create_def io_simps Let_def)

lemma segment_open_ok [io_simps]:
  assumes "os_faults os = []" and "os_content os (segment_path base) = Some c"
  shows "segment_open base os =
           (Ok \<lparr>seg_base_offset = base, seg_path = segment_path base,
                seg_file = \<lparr>h_name = segment_path base, h_pos = 0\<rparr>, seg_size = length c, cursor = Some 0\<rparr>, os)"
  using assms by (simp add: segment_open_def io_simps Let_def)

lemma segment_ok_open:
  "os_content os (segment_path base) = Some c \<Longrightarrow>
   segment_ok os \<lparr>seg_base_offset = base, seg_path = segment_path base,
                  seg_file = \<lparr>h_name = segment_path base, h_pos = 0\<rparr>, seg_size = length c, cursor = Some 0\<rparr> c"
  by (simp add: segment_ok_def cursor_ok_def)

lemma segment_sync_ok:
  assumes "os_faults os = []" and "segment_ok os seg c"
  shows "\<exists>os'. segment_sync (seg, os) = (Ok (), seg, os') \<and> only_touches {seg_path seg} os os' \<and>
           segment_ok os' seg c \<and> os_durable os' (seg_path seg) = Some c \<and> (os_wf os \<longrightarrow> os_wf os')"
  using assms by (auto simp: segment_sync_def segment_ok_def os_content_def io_simps)

lemma segment_truncate_ok:
  assumes "os_faults os = []" and "segment_ok os seg c" and "n \<le> length c"
  shows "\<exists>seg' os'. segment_truncate n (seg, os) = (Ok (), seg', os') \<and> only_touches {seg_path seg} os os' \<and>
           segment_ok os' seg' (take n c) \<and> os_durable os' (seg_path seg) = Some (take n c) \<and>
           seg_path seg' = seg_path seg \<and> seg_base_offset seg' = seg_base_offset seg \<and> (os_wf os \<longrightarrow> os_wf os')"
  using assms
  by (auto simp: segment_truncate_def file_set_len_def segment_ok_def cursor_ok_def os_content_def io_simps
      only_touches_def)

section \<open>After a write that failed half way\<close>

text \<open>
  C38: a partial write puts the next one in the wrong place. If a write fails after \<open>n\<close> bytes, the
  cached cursor still says the end of the segment while the kernel's position has moved on; the
  next append does not seek, reports the position it meant to write at, and the bytes go \<open>n\<close> bytes
  behind it. The size the segment remembers is \<open>n\<close> short of the file's from then on.
\<close>

theorem partial_write_misplaces:
  assumes "segment_ok os seg c" and "cursor seg = Some (length c)" and "os_faults os = [Fail kind n]"
    and "0 < n" and "n < length bs1" and "bs2 \<noteq> []"
  shows "\<exists>seg1 os1 seg2 os2. segment_append bs1 (seg, os) = (Err (os_error kind), seg1, os1) \<and>
           segment_append bs2 (seg1, os1) = (Ok (length c), seg2, os2) \<and>
           os_content os2 (seg_path seg) = Some (c @ take n bs1 @ bs2) \<and> seg_size seg2 + n = length (c @ take n bs1 @ bs2)"
proof -
  let ?os = "os\<lparr>os_faults := []\<rparr>"
  define os1 where "os1 = store_bytes (seg_path seg) (length c) (take n bs1) ?os"
  define seg1 where "seg1 = seg\<lparr>seg_file := (seg_file seg)\<lparr>h_pos := length c + n\<rparr>\<rparr>"
  have s: "h_pos (seg_file seg) = length c" "h_name (seg_file seg) = seg_path seg" "seg_size seg = length c" "os_content os (seg_path seg) = Some c"
    using assms(1,2) by (auto simp: segment_ok_def cursor_ok_def)
  have c1: "os_content os1 (seg_path seg) = Some (c @ take n bs1)" "os_faults os1 = []"
    using s(4) assms(4,5) by (simp_all add: os1_def os_content_store_bytes)
  have "segment_append bs1 (seg, os) = (Err (os_error kind), seg1, os1)"
    using assms s by (auto simp: segment_append_def ensure_cursor_def file_write_all_def next_outcome_def Let_def os1_def seg1_def)
  moreover have "segment_append bs2 (seg1, os1) =
      (Ok (length c), seg1\<lparr>seg_file := (seg_file seg1)\<lparr>h_pos := length c + n + length bs2\<rparr>, cursor := Some (length c + length bs2), seg_size := length c + length bs2\<rparr>,
       store_bytes (seg_path seg) (length c + n) bs2 os1)"
    using assms(2,6) s c1(2) by (simp add: segment_append_def ensure_cursor_def file_write_all_def io_simps Let_def seg1_def)
  moreover have "os_content (store_bytes (seg_path seg) (length c + n) bs2 os1) (seg_path seg) = Some (c @ take n bs1 @ bs2)"
    using c1(1) assms(5,6) write_at_end [of "c @ take n bs1" bs2] by (simp add: os_content_store_bytes min_absorb2)
  ultimately show ?thesis
    using assms(5) by auto
qed

lemma partial_write_misplaces_witness:
  "\<exists>seg os seg1 os1 seg2 os2. segment_append [1, 2, 3] (seg, os) = (Err (os_error StorageFull), seg1, os1) \<and>
     segment_append [4, 5, 6] (seg1, os1) = (Ok 0, seg2, os2) \<and> os_content os2 (seg_path seg) = Some [1, 4, 5, 6]"
proof -
  define os where "os = demo_os\<lparr>os_files := [(segment_path 0, \<lparr>file_content = [], file_durable = [], file_mtime = 0\<rparr>)], os_faults := [Fail StorageFull 1]\<rparr>"
  define seg where "seg = \<lparr>seg_base_offset = 0, seg_path = segment_path 0, seg_file = \<lparr>h_name = segment_path 0, h_pos = 0\<rparr>, seg_size = 0, cursor = Some 0\<rparr>"
  have "segment_ok os seg []" "cursor seg = Some (length ([] :: bytes))" "os_faults os = [Fail StorageFull 1]"
    by (simp_all add: segment_ok_def cursor_ok_def os_content_def os_file_def seg_def os_def)
  from partial_write_misplaces [OF this, of "[1, 2, 3]" "[4, 5, 6]"]
  obtain seg1 os1 seg2 os2 where
    "segment_append [1, 2, 3] (seg, os) = (Err (os_error StorageFull), seg1, os1)"
    "segment_append [4, 5, 6] (seg1, os1) = (Ok 0, seg2, os2)" "os_content os2 (seg_path seg) = Some [1, 4, 5, 6]"
    by auto
  then show ?thesis
    by blast
qed

end
