(* ===== verification/Kafko_Index.thy ===== *)
theory Kafko_Index
  imports Kafko_Os
begin

text \<open>
  \<^verbatim>\<open>src/crates/kafko/src/sparse_index.rs\<close>: the sparse index of a segment, an in-memory list
  of entries that mirrors an append-only \<^verbatim>\<open>.index\<close> file.
\<close>

record index_entry =
  relative_offset :: u32
  file_position :: u32

record sparse_index =
  idx_base_offset :: nat
  idx_path :: string
  entries :: "index_entry list"
  bytes_since_last_entry :: nat
  interval :: nat

definition ENTRY_SIZE :: nat where
  "ENTRY_SIZE = 8"

definition INDEX_FILENAME_DIGITS :: nat where
  "INDEX_FILENAME_DIGITS = 20"

definition index_path :: "nat \<Rightarrow> string" where
  "index_path base_offset = zero_pad INDEX_FILENAME_DIGITS (nat_to_dec base_offset) @ ''.index''"

section \<open>Operations\<close>

definition index_create :: "nat \<Rightarrow> nat \<Rightarrow> os \<Rightarrow> sparse_index res \<times> os" where
  "index_create base_offset ival os =
     (let path = index_path base_offset in
      and_then (open_create_new path os) (\<lambda>_ os.
        (Ok \<lparr>idx_base_offset = base_offset, idx_path = path, entries = [],
             bytes_since_last_entry = 0, interval = ival\<rparr>, os)))"

text \<open>\<^verbatim>\<open>bytes.chunks_exact(ENTRY_SIZE)\<close>: whole entries only, a partial one at the end is dropped.\<close>

function parse_entries :: "bytes \<Rightarrow> index_entry list" where
  "parse_entries bs =
     (if length bs < ENTRY_SIZE then []
      else \<lparr>relative_offset = u32_from_be_bytes (take 4 bs),
            file_position = u32_from_be_bytes (take 4 (drop 4 bs))\<rparr> # parse_entries (drop ENTRY_SIZE bs))"
  by pat_completeness auto
termination
  by (relation "measure length") (auto simp: ENTRY_SIZE_def)

declare parse_entries.simps [simp del]

definition index_open :: "nat \<Rightarrow> nat \<Rightarrow> os \<Rightarrow> sparse_index res \<times> os" where
  "index_open base_offset ival os =
     (let path = index_path base_offset in
      and_then (fs_read path os) (\<lambda>bs os.
      and_then (open_existing path os) (\<lambda>_ os.
        (Ok \<lparr>idx_base_offset = base_offset, idx_path = path, entries = parse_entries bs,
             bytes_since_last_entry = 0, interval = ival\<rparr>, os))))"

definition entry_bytes :: "index_entry \<Rightarrow> bytes" where
  "entry_bytes e = u32_to_be_bytes (relative_offset e) @ u32_to_be_bytes (file_position e)"

definition write_entry :: "index_entry \<Rightarrow> sparse_index \<times> os \<Rightarrow> unit res \<times> sparse_index \<times> os" where
  "write_entry e = (\<lambda>(idx, os). in_state (\<lambda>os. (idx, os)) (file_append (idx_path idx) (entry_bytes e) os))"

text \<open>
  \<^verbatim>\<open>try_into::<u32>().expect(...)\<close>: the conversions panic when the value does not fit, and so
  does the subtraction when the offset lies before the base (with overflow checks on; callers
  never do that).
\<close>

definition track_append :: "nat \<Rightarrow> nat \<Rightarrow> nat \<Rightarrow> sparse_index \<times> os \<Rightarrow> unit res \<times> sparse_index \<times> os" where
  "track_append absolute_offset file_pos record_size = (\<lambda>(idx, os).
     and_then
       (if entries idx = [] \<or> interval idx \<le> bytes_since_last_entry idx
        then if absolute_offset < idx_base_offset idx
             then (Panic ''attempt to subtract with overflow'', idx, os)
             else if 2 ^ 32 \<le> absolute_offset - idx_base_offset idx
             then (Panic ''relative offset exceeds u32 (segment too large?)'', idx, os)
             else if 2 ^ 32 \<le> file_pos
             then (Panic ''file position exceeds u32 (segment too large?)'', idx, os)
             else let entry = \<lparr>relative_offset = of_nat (absolute_offset - idx_base_offset idx),
                               file_position = of_nat file_pos\<rparr>
                  in and_then (write_entry entry (idx, os)) (\<lambda>_ (idx, os).
                       (Ok (), idx\<lparr>entries := entries idx @ [entry], bytes_since_last_entry := 0\<rparr>, os))
        else (Ok (), idx, os))
       (\<lambda>_ (idx, os).
         (Ok (), idx\<lparr>bytes_since_last_entry := bytes_since_last_entry idx + record_size\<rparr>, os)))"

definition saturating_u32 :: "nat \<Rightarrow> u32" where
  "saturating_u32 n = (if n < 2 ^ 32 then of_nat n else 0xFFFFFFFF)"

definition lookup :: "sparse_index \<Rightarrow> nat \<Rightarrow> nat \<times> nat" where
  "lookup idx absolute_offset =
     (if absolute_offset < idx_base_offset idx then (0, idx_base_offset idx)
      else let rel = saturating_u32 (absolute_offset - idx_base_offset idx);
               found = (\<lambda>i. let e = entries idx ! i
                            in (unat (file_position e), idx_base_offset idx + unat (relative_offset e)))
           in case binary_search_by_key relative_offset rel (entries idx) of
                Found i \<Rightarrow> found i
              | Insert_at 0 \<Rightarrow> (0, idx_base_offset idx)
              | Insert_at (Suc i) \<Rightarrow> found i)"

definition index_sync :: "sparse_index \<times> os \<Rightarrow> unit res \<times> sparse_index \<times> os" where
  "index_sync = (\<lambda>(idx, os). in_state (\<lambda>os. (idx, os)) (file_sync_data (idx_path idx) os))"

definition index_len :: "sparse_index \<Rightarrow> nat" where
  "index_len idx = length (entries idx)"

section \<open>Entries on disk\<close>

lemma length_entry_bytes [simp]: "length (entry_bytes e) = ENTRY_SIZE"
  by (simp add: entry_bytes_def ENTRY_SIZE_def)

lemma entry_bytes_not_Nil [simp]: "entry_bytes e \<noteq> []"
  by (metis ENTRY_SIZE_def length_entry_bytes list.size(3) zero_neq_numeral)

lemma parse_entries_Cons: "parse_entries (entry_bytes e @ rest) = e # parse_entries rest"
proof -
  have "\<not> length (entry_bytes e @ rest) < ENTRY_SIZE" and "drop ENTRY_SIZE (entry_bytes e @ rest) = rest"
    by simp_all
  moreover have "take 4 (entry_bytes e @ rest) = u32_to_be_bytes (relative_offset e)"
    and "take 4 (drop 4 (entry_bytes e @ rest)) = u32_to_be_bytes (file_position e)"
    by (simp_all add: entry_bytes_def)
  ultimately show ?thesis
    by (subst parse_entries.simps) simp
qed

lemma parse_entries_concat:
  assumes "length torn < ENTRY_SIZE"
  shows "parse_entries (concat (map entry_bytes es) @ torn) = es"
proof (induction es)
  case Nil
  with assms show ?case by (simp add: parse_entries.simps)
next
  case (Cons e es)
  then show ?case by (simp add: parse_entries_Cons)
qed

lemma length_parse_entries: "length (parse_entries bs) = length bs div ENTRY_SIZE"
proof (induction bs rule: parse_entries.induct)
  case (1 bs)
  show ?case
  proof (cases "length bs < ENTRY_SIZE")
    case True
    then show ?thesis by (subst parse_entries.simps) simp
  next
    case False
    with 1 have "length (parse_entries bs) = Suc ((length bs - ENTRY_SIZE) div ENTRY_SIZE)"
      by (subst parse_entries.simps) simp
    also have "\<dots> = length bs div ENTRY_SIZE"
      using False by (simp add: ENTRY_SIZE_def le_div_geq)
    finally show ?thesis .
  qed
qed

lemma index_path_inj [simp]: "index_path a = index_path b \<longleftrightarrow> a = b"
  by (auto simp: index_path_def dest: zero_pad_inj)

section \<open>Invariant\<close>

text \<open>
  \<open>sizes\<close> are the lengths of the records the segment holds, in order. Every entry names a
  record of the segment and the file position where that record starts; the entries are strictly
  increasing, and the file holds exactly the entries in memory.
\<close>

definition entry_ok :: "nat list \<Rightarrow> index_entry \<Rightarrow> bool" where
  "entry_ok sizes e \<longleftrightarrow>
     unat (relative_offset e) < length sizes \<and>
     unat (file_position e) = sum_list (take (unat (relative_offset e)) sizes)"

definition index_ok :: "os \<Rightarrow> sparse_index \<Rightarrow> nat list \<Rightarrow> bool" where
  "index_ok os idx sizes \<longleftrightarrow>
     idx_path idx = index_path (idx_base_offset idx) \<and>
     os_content os (idx_path idx) = Some (concat (map entry_bytes (entries idx))) \<and>
     sorted_wrt (\<lambda>a b. relative_offset a < relative_offset b) (entries idx) \<and>
     list_all (entry_ok sizes) (entries idx)"

text \<open>
  The promise of the index to its reader: decoding forward from the returned position, counting
  from the returned offset, meets the requested record.
\<close>

definition lookup_sound :: "nat \<Rightarrow> nat list \<Rightarrow> nat \<Rightarrow> nat \<times> nat \<Rightarrow> bool" where
  "lookup_sound base sizes offset ps \<longleftrightarrow>
     (\<exists>i. i \<le> offset - base \<and> i \<le> length sizes \<and> ps = (sum_list (take i sizes), base + i))"

lemma saturating_u32_le: "unat (saturating_u32 n) \<le> n"
  by (auto simp: saturating_u32_def unat_u32_of_nat)

lemma lookup_before_base: "offset < idx_base_offset idx \<Longrightarrow> lookup idx offset = (0, idx_base_offset idx)"
  by (simp add: lookup_def)

lemma lookup_sound_zero: "lookup_sound base sizes offset (0, base)"
  by (auto simp: lookup_sound_def intro!: exI [of _ 0])

lemma lookup_sound_entry:
  assumes "list_all (entry_ok sizes) (entries idx)" and "i < length (entries idx)"
    and "unat (relative_offset (entries idx ! i)) \<le> offset - base"
  shows "lookup_sound base sizes offset
           (unat (file_position (entries idx ! i)), base + unat (relative_offset (entries idx ! i)))"
proof -
  have "entry_ok sizes (entries idx ! i)"
    using assms(1,2) by (simp add: list_all_length)
  with assms(3) show ?thesis
    by (auto simp: lookup_sound_def entry_ok_def intro!: exI [of _ "unat (relative_offset (entries idx ! i))"])
qed

lemma lookup_ok:
  assumes ok: "index_ok os idx sizes" and "idx_base_offset idx \<le> offset"
  shows "lookup_sound (idx_base_offset idx) sizes offset (lookup idx offset)"
proof -
  let ?rel = "saturating_u32 (offset - idx_base_offset idx)"
  have sorted: "sorted_wrt (\<lambda>a b. relative_offset a < relative_offset b) (entries idx)"
    and entries: "list_all (entry_ok sizes) (entries idx)"
    using ok by (auto simp: index_ok_def)
  have rel: "unat ?rel \<le> offset - idx_base_offset idx"
    by (rule saturating_u32_le)
  have le: "lookup_sound (idx_base_offset idx) sizes offset
       (unat (file_position (entries idx ! i)), idx_base_offset idx + unat (relative_offset (entries idx ! i)))"
    if "i < length (entries idx)" and "relative_offset (entries idx ! i) \<le> ?rel" for i
    using that rel by (intro lookup_sound_entry [OF entries]) (auto simp: word_le_nat_alt)
  show ?thesis
  proof (cases "binary_search_by_key relative_offset ?rel (entries idx)")
    case (Found i)
    with binary_search_by_key_bounds(1) [OF sorted Found] le [of i] assms(2) show ?thesis
      by (simp add: lookup_def Let_def)
  next
    case (Insert_at j)
    with binary_search_by_key_bounds(2) [OF sorted Insert_at] le assms(2) show ?thesis
      by (cases j) (auto simp: lookup_def Let_def lookup_sound_zero)
  qed
qed

section \<open>Behaviour without faults\<close>

lemma index_create_ok [io_simps]:
  assumes "os_faults os = []" and "os_file os (index_path base) = None"
  shows "index_create base ival os =
           (Ok \<lparr>idx_base_offset = base, idx_path = index_path base, entries = [],
                bytes_since_last_entry = 0, interval = ival\<rparr>,
            set_file (index_path base) \<lparr>file_content = [], file_durable = [], file_mtime = os_clock os\<rparr> os)"
  using assms by (simp add: index_create_def io_simps Let_def)

lemma index_open_ok [io_simps]:
  assumes "os_faults os = []" and "os_content os (index_path base) = Some (concat (map entry_bytes es))"
  shows "index_open base ival os =
           (Ok \<lparr>idx_base_offset = base, idx_path = index_path base, entries = es,
                bytes_since_last_entry = 0, interval = ival\<rparr>, os)"
  using assms parse_entries_concat [of "[]" es]
  by (simp add: index_open_def io_simps Let_def ENTRY_SIZE_def)

lemma index_ok_frame:
  "index_ok os idx sizes \<Longrightarrow> only_touches S os os' \<Longrightarrow> idx_path idx \<notin> S \<Longrightarrow> index_ok os' idx sizes"
  by (auto simp: index_ok_def dest: only_touchesD)

lemma entry_ok_append: "entry_ok sizes e \<Longrightarrow> entry_ok (sizes @ sizes') e"
  by (simp add: entry_ok_def)

lemma index_sync_ok:
  assumes "os_faults os = []" and "index_ok os idx sizes"
  shows "\<exists>os'. index_sync (idx, os) = (Ok (), idx, os') \<and> only_touches {idx_path idx} os os' \<and>
           index_ok os' idx sizes \<and> os_durable os' (idx_path idx) = os_content os' (idx_path idx) \<and>
           (os_wf os \<longrightarrow> os_wf os')"
  using assms by (auto simp: index_sync_def index_ok_def os_content_def io_simps)

text \<open>
  Recording the append of the next record of the segment keeps the index right. The
  preconditions are the ones the source's \<^verbatim>\<open>expect\<close>s state: the record's number in the segment
  and its file position fit 32 bits.
\<close>

lemma track_append_ok:
  assumes nf: "os_faults os = []" and ok: "index_ok os idx sizes"
    and off: "absolute_offset = idx_base_offset idx + length sizes"
    and pos: "file_pos = sum_list sizes" and small: "file_pos < 2 ^ 32" "length sizes < 2 ^ 32"
  shows "\<exists>idx' os'. track_append absolute_offset file_pos n (idx, os) = (Ok (), idx', os') \<and>
           only_touches {idx_path idx} os os' \<and> index_ok os' idx' (sizes @ [n]) \<and>
           idx_path idx' = idx_path idx \<and> idx_base_offset idx' = idx_base_offset idx \<and>
           interval idx' = interval idx \<and> (os_wf os \<longrightarrow> os_wf os') \<and> os_durable os' = os_durable os"
proof (cases "entries idx = [] \<or> interval idx \<le> bytes_since_last_entry idx")
  case True
  let ?e = "\<lparr>relative_offset = of_nat (length sizes), file_position = of_nat file_pos\<rparr>"
  have rel: "unat (of_nat (length sizes) :: u32) = length sizes" and fp: "unat (of_nat file_pos :: u32) = file_pos"
    using small by (simp_all add: unat_u32_of_nat)
  have less: "relative_offset e < of_nat (length sizes)" if "e \<in> set (entries idx)" for e
    using ok that rel by (auto simp: index_ok_def list_all_iff entry_ok_def word_less_nat_alt)
  have entry: "entry_ok (sizes @ [n]) ?e"
    using rel fp pos by (simp add: entry_ok_def)
  have content: "os_content os (idx_path idx) = Some (concat (map entry_bytes (entries idx)))"
    using ok by (auto simp: index_ok_def)
  with True content ok less entry show ?thesis
    using nf off small
    by (auto simp: track_append_def write_entry_def io_simps index_ok_def Let_def os_content_store_bytes
        sorted_wrt_append list_all_iff fun_eq_iff intro!: entry_ok_append)
next
  case False
  with ok off show ?thesis
    by (auto simp: track_append_def index_ok_def list_all_iff intro!: entry_ok_append)
qed

end
