(* ===== verification/Kafko_Compression.thy ===== *)
theory Kafko_Compression
  imports Kafko_Error
begin

text \<open>
  \<^verbatim>\<open>src/crates/kafko/src/compression.rs\<close>: the compression codecs a record value may be
  stored with, their wire flags, and the guards kafko puts around the codec libraries. The
  libraries themselves (\<^verbatim>\<open>lz4_flex\<close>, \<^verbatim>\<open>zstd\<close>, and \<^verbatim>\<open>crc32fast\<close> for the record
  checksum) are not part of the repository: they are the fields of \<open>deps\<close>, an argument of
  every definition that uses them, together with the Cargo features of the build.
\<close>

section \<open>The libraries a build links\<close>

text \<open>
  \<open>lz4_compress_into D raw capacity\<close> is the block \<^verbatim>\<open>compress_into_with_table\<close> writes into
  an output slice of \<open>capacity\<close> bytes, \<open>None\<close> if it reports an error; the zstd compressor
  likewise writes into a buffer of the given capacity. The decompressors return \<open>None\<close> where
  the library reports an error.
\<close>

record deps =
  crc32_hash :: "bytes \<Rightarrow> u32"
  feature_lz4 :: bool
  feature_zstd :: bool
  lz4_max_output_size :: "nat \<Rightarrow> nat"
  lz4_compress_into :: "bytes \<Rightarrow> nat \<Rightarrow> bytes option"
  lz4_decompress_size_prepended :: "bytes \<Rightarrow> bytes option"
  zstd_compress_bound :: "nat \<Rightarrow> nat"
  zstd_compress_to_buffer :: "bytes \<Rightarrow> nat \<Rightarrow> bytes option"
  zstd_bulk_decompress :: "bytes \<Rightarrow> nat \<Rightarrow> bytes option"

definition DECOMPRESS_MAX_SIZE :: nat where
  "DECOMPRESS_MAX_SIZE = 16 * 1024 * 1024"

section \<open>Flags\<close>

fun compression_flag :: "compression \<Rightarrow> u8" where
  "compression_flag NoCompression = 0"
| "compression_flag Lz4 = 1"
| "compression_flag Zstd = 2"

definition compression_from_flag :: "u8 \<Rightarrow> compression res" where
  "compression_from_flag flag =
     (if flag = 0 then Ok NoCompression
      else if flag = 1 then Ok Lz4
      else if flag = 2 then Ok Zstd
      else Err (UnknownCompression flag))"

fun is_available :: "deps \<Rightarrow> compression \<Rightarrow> bool" where
  "is_available D NoCompression = True"
| "is_available D Lz4 = feature_lz4 D"
| "is_available D Zstd = feature_zstd D"

section \<open>Compress and decompress\<close>

definition lz4_compress :: "deps \<Rightarrow> bytes \<Rightarrow> bytes \<Rightarrow> unit res \<times> bytes" where
  "lz4_compress D raw out =
     (if feature_lz4 D
      then case lz4_compress_into D raw (lz4_max_output_size D (length raw)) of
             None \<Rightarrow> (Panic ''lz4 compress_into_with_table should not fail'', out)
           | Some block \<Rightarrow> (Ok (), u32_to_le_bytes (of_nat (length raw)) @ block)
      else (Err (CompressionUnavailable Lz4), out))"

definition zstd_compress :: "deps \<Rightarrow> bytes \<Rightarrow> bytes \<Rightarrow> unit res \<times> bytes" where
  "zstd_compress D raw out =
     (if feature_zstd D
      then case zstd_compress_to_buffer D raw (zstd_compress_bound D (length raw)) of
             None \<Rightarrow> (Panic ''zstd compress should not fail'', out)
           | Some frame \<Rightarrow> (Ok (), frame)
      else (Err (CompressionUnavailable Zstd), out))"

definition lz4_decompress :: "deps \<Rightarrow> bytes \<Rightarrow> bytes res" where
  "lz4_decompress D compressed =
     (if feature_lz4 D
      then if length compressed < 4 then Err DecompressionFailed
           else if DECOMPRESS_MAX_SIZE < unat (u32_from_le_bytes (take 4 compressed))
           then Err DecompressionFailed
           else case lz4_decompress_size_prepended D compressed of
                  None \<Rightarrow> Err DecompressionFailed
                | Some raw \<Rightarrow> Ok raw
      else Err (CompressionUnavailable Lz4))"

definition zstd_decompress :: "deps \<Rightarrow> bytes \<Rightarrow> bytes res" where
  "zstd_decompress D compressed =
     (if feature_zstd D
      then case zstd_bulk_decompress D compressed DECOMPRESS_MAX_SIZE of
             None \<Rightarrow> Err DecompressionFailed
           | Some raw \<Rightarrow> Ok raw
      else Err (CompressionUnavailable Zstd))"

text \<open>\<open>out\<close> is the caller's reusable buffer; \<^verbatim>\<open>compress\<close> clears it before anything else.\<close>

fun compress :: "deps \<Rightarrow> compression \<Rightarrow> bytes \<Rightarrow> bytes \<Rightarrow> unit res \<times> bytes" where
  "compress D NoCompression raw out = (Ok (), raw)"
| "compress D Lz4 raw out = lz4_compress D raw []"
| "compress D Zstd raw out = zstd_compress D raw []"

fun decompress :: "deps \<Rightarrow> compression \<Rightarrow> bytes \<Rightarrow> bytes res" where
  "decompress D NoCompression compressed = Ok compressed"
| "decompress D Lz4 compressed = lz4_decompress D compressed"
| "decompress D Zstd compressed = zstd_decompress D compressed"

section \<open>What kafko relies on\<close>

text \<open>
  The documented behaviour of the codec libraries: with an output buffer of the size they
  themselves report as sufficient they do not fail, and decompressing what they compressed gives
  the input back, for inputs within the size limit the caller passes.
\<close>

definition codec_laws :: "deps \<Rightarrow> bool" where
  "codec_laws D \<longleftrightarrow>
     (\<forall>raw. lz4_compress_into D raw (lz4_max_output_size D (length raw)) \<noteq> None) \<and>
     (\<forall>raw cap block. lz4_compress_into D raw cap = Some block \<longrightarrow> length raw < 2 ^ 32 \<longrightarrow>
        lz4_decompress_size_prepended D (u32_to_le_bytes (of_nat (length raw)) @ block) = Some raw) \<and>
     (\<forall>raw. zstd_compress_to_buffer D raw (zstd_compress_bound D (length raw)) \<noteq> None) \<and>
     (\<forall>raw cap frame limit. zstd_compress_to_buffer D raw cap = Some frame \<longrightarrow> length raw \<le> limit \<longrightarrow>
        zstd_bulk_decompress D frame limit = Some raw)"

text \<open>
  The value lengths each codec takes: anything for the uncompressed form, and for the codecs at
  most the cap the decompression side enforces.
\<close>

fun value_fits :: "compression \<Rightarrow> bytes \<Rightarrow> bool" where
  "value_fits NoCompression value = True"
| "value_fits Lz4 value = (length value \<le> DECOMPRESS_MAX_SIZE)"
| "value_fits Zstd value = (length value \<le> DECOMPRESS_MAX_SIZE)"

lemma from_flag_flag [simp, wire_simps]: "compression_from_flag (compression_flag c) = Ok c"
  by (cases c) (simp_all add: compression_from_flag_def)

lemma from_flag_Ok_iff: "compression_from_flag b = Ok c \<longleftrightarrow> b = compression_flag c"
  by (cases c) (auto simp: compression_from_flag_def)

lemma from_flag_no_panic: "compression_from_flag b \<noteq> Panic m"
  by (simp add: compression_from_flag_def)

lemma lz4_prefix [simp]: "unat (u32_from_le_bytes (take 4 (u32_to_le_bytes w @ block))) = unat w"
  by (simp add: le32.take_put)

lemma decompress_no_panic: "decompress D c b \<noteq> Panic m"
  by (cases c) (auto simp: lz4_decompress_def zstd_decompress_def split: option.splits)

text \<open>The reusable buffer's old content never shows in the result, so one buffer serves all records.\<close>

lemma compress_ignores_buffer: "compress D c raw out = compress D c raw out'"
  by (cases c) simp_all

lemma compress_Ok_available: "compress D c raw out = (Ok (), z) \<Longrightarrow> is_available D c"
  by (cases c) (auto simp: lz4_compress_def zstd_compress_def split: if_splits)

lemma compress_unavailable:
  "\<not> is_available D c \<Longrightarrow> compress D c raw out = (Err (CompressionUnavailable c), [])"
  by (cases c) (simp_all add: lz4_compress_def zstd_compress_def)

lemma decompress_unavailable: "\<not> is_available D c \<Longrightarrow> decompress D c b = Err (CompressionUnavailable c)"
  by (cases c) (simp_all add: lz4_decompress_def zstd_decompress_def)

lemma compress_total:
  "codec_laws D \<Longrightarrow> is_available D c \<Longrightarrow> \<exists>z. compress D c raw out = (Ok (), z)"
  by (cases c) (auto simp: codec_laws_def lz4_compress_def zstd_compress_def split: option.splits)

lemma decompress_compress:
  assumes "codec_laws D" and "value_fits c raw" and "compress D c raw out = (Ok (), z)"
  shows "decompress D c z = Ok raw"
proof (cases c)
  case NoCompression
  with assms show ?thesis by simp
next
  case Lz4
  with assms(2) have small: "length raw \<le> DECOMPRESS_MAX_SIZE" by simp
  then have "unat (of_nat (length raw) :: u32) = length raw" and "length raw < 2 ^ 32"
    by (auto simp: DECOMPRESS_MAX_SIZE_def intro!: unat_u32_of_nat)
  with Lz4 assms small show ?thesis
    by (auto simp: codec_laws_def lz4_compress_def lz4_decompress_def le32.take_put
        split: option.splits if_splits)
next
  case Zstd
  with assms show ?thesis
    by (auto simp: codec_laws_def zstd_compress_def zstd_decompress_def split: option.splits if_splits)
qed

text \<open>
  The other side of the cap: an LZ4 value above 16 MiB is compressed without complaint and then
  refused by kafko's own decompression guard, whatever the library does.
\<close>

lemma lz4_oversize_rejected:
  assumes "compress D Lz4 raw out = (Ok (), z)"
    and "DECOMPRESS_MAX_SIZE < length raw" and "length raw < 2 ^ 32"
  shows "decompress D Lz4 z = Err DecompressionFailed"
proof -
  have "unat (of_nat (length raw) :: u32) = length raw"
    using assms(3) by (rule unat_u32_of_nat)
  with assms show ?thesis
    by (auto simp: lz4_compress_def lz4_decompress_def le32.take_put split: option.splits if_splits)
qed

section \<open>A concrete build\<close>

text \<open>
  A build to evaluate the definitions on: a byte-sum checksum and codecs that store their input.
  It satisfies the laws asked of the libraries.
\<close>

definition demo_deps :: deps where
  "demo_deps =
     \<lparr>crc32_hash = (\<lambda>bs. of_nat (sum_list (map unat bs))), feature_lz4 = True, feature_zstd = False,
      lz4_max_output_size = (\<lambda>n. n), lz4_compress_into = (\<lambda>raw cap. if length raw \<le> cap then Some raw else None),
      lz4_decompress_size_prepended = (\<lambda>bs. Some (drop 4 bs)),
      zstd_compress_bound = (\<lambda>n. n), zstd_compress_to_buffer = (\<lambda>raw cap. if length raw \<le> cap then Some raw else None),
      zstd_bulk_decompress = (\<lambda>bs limit. if length bs \<le> limit then Some bs else None)\<rparr>"

lemma demo_codec_laws: "codec_laws demo_deps"
  by (auto simp: codec_laws_def demo_deps_def split: if_splits)

end
