(* ===== verification/Kafko_Record.thy ===== *)
theory Kafko_Record
  imports Kafko_Compression
begin

text \<open>
  \<^verbatim>\<open>src/crates/kafko/src/record.rs\<close>: the record and its wire format, encoder and decoder.
  The decoder is written over the reader operations of the \<^verbatim>\<open>bytes\<close> buffer trait, which
  panic when the buffer is too short, so that its freedom from panics is a theorem.
\<close>

section \<open>Records\<close>

record kafko_record =
  timestamp_ms :: i64
  key :: "bytes option"
  val :: bytes

definition KEY_NULL_SENTINEL :: u32 where
  "KEY_NULL_SENTINEL = 0xFFFFFFFF"

definition MIN_TOTAL_LEN :: nat where
  "MIN_TOTAL_LEN = 4 + 1 + 8 + 4 + 4"

definition record_new :: "i64 \<Rightarrow> bytes option \<Rightarrow> bytes \<Rightarrow> kafko_record" where
  "record_new ts k v = \<lparr>timestamp_ms = ts, key = k, val = v\<rparr>"

definition key_part :: "bytes option \<Rightarrow> nat" where
  "key_part k = (case k of None \<Rightarrow> 4 | Some k \<Rightarrow> 4 + length k)"

definition wire_size :: "kafko_record \<Rightarrow> nat" where
  "wire_size r = 4 + 4 + 1 + 8 + key_part (key r) + 4 + length (val r)"

section \<open>Encoding\<close>

text \<open>
  \<^verbatim>\<open>encode_inner\<close> appends to \<open>out\<close>: the length, four zero bytes, the payload, and then
  overwrites the zero bytes with the checksum of the payload.
\<close>

definition encode_inner :: "deps \<Rightarrow> kafko_record \<Rightarrow> bytes \<Rightarrow> compression \<Rightarrow> bytes option \<Rightarrow> nat \<times> bytes" where
  "encode_inner D r out c val_bytes_override =
     (let start_len = length out;
          flag = compression_flag c;
          val_bytes = (case val_bytes_override of None \<Rightarrow> val r | Some b \<Rightarrow> b);
          val_part = 4 + length val_bytes;
          payload_len = 1 + 8 + key_part (key r) + val_part;
          total_len = 4 + payload_len;
          out = out @ u32_to_be_bytes (of_nat total_len);
          crc_pos = length out;
          out = out @ u32_to_be_bytes 0;
          payload_start = length out;
          out = out @ u8_to_byte flag;
          out = out @ u64_to_be_bytes (timestamp_ms r);
          out = (case key r of
                   None \<Rightarrow> out @ u32_to_be_bytes KEY_NULL_SENTINEL
                 | Some k \<Rightarrow> out @ u32_to_be_bytes (of_nat (length k)) @ k);
          out = out @ u32_to_be_bytes (of_nat (length val_bytes));
          out = out @ val_bytes;
          crc = crc32_hash D (drop payload_start out);
          out = take crc_pos out @ u32_to_be_bytes crc @ drop (crc_pos + 4) out
      in (length out - start_len, out))"

definition encode :: "deps \<Rightarrow> kafko_record \<Rightarrow> bytes \<Rightarrow> nat \<times> bytes" where
  "encode D r out = encode_inner D r out NoCompression None"

definition encode_with :: "deps \<Rightarrow> kafko_record \<Rightarrow> bytes \<Rightarrow> compression \<Rightarrow> nat res \<times> bytes" where
  "encode_with D r out c =
     (if c = NoCompression
      then (case encode_inner D r out c None of (n, out') \<Rightarrow> (Ok n, out'))
      else case compress D c (val r) [] of
             (Ok _, scratch) \<Rightarrow> (case encode_inner D r out c (Some scratch) of (n, out') \<Rightarrow> (Ok n, out'))
           | (Err e, scratch) \<Rightarrow> (Err e, out)
           | (Panic m, scratch) \<Rightarrow> (Panic m, out))"

section \<open>Decoding\<close>

text \<open>
  The reader operations of \<^verbatim>\<open>bytes::Buf\<close> for a slice, and slicing: each panics if the slice
  is too short.
\<close>

definition buf_get :: "nat \<Rightarrow> (bytes \<Rightarrow> 'a) \<Rightarrow> bytes \<Rightarrow> 'a res \<times> bytes" where
  "buf_get n from_bytes buf =
     (if length buf < n then (Panic ''buffer underflow'', buf) else (Ok (from_bytes (take n buf)), drop n buf))"

definition buf_slice_to :: "nat \<Rightarrow> bytes \<Rightarrow> bytes res \<times> bytes" where
  "buf_slice_to n buf =
     (if length buf < n then (Panic ''range end index out of range'', buf) else (Ok (take n buf), buf))"

definition buf_advance :: "nat \<Rightarrow> bytes \<Rightarrow> unit res \<times> bytes" where
  "buf_advance n buf =
     (if length buf < n then (Panic ''cannot advance past remaining'', buf) else (Ok (), drop n buf))"

definition lift_res :: "'a res \<Rightarrow> bytes \<Rightarrow> 'a res \<times> bytes" where
  "lift_res r buf = (r, buf)"

definition decode_key :: "nat \<Rightarrow> bytes \<Rightarrow> bytes option res \<times> bytes" where
  "decode_key total_len buf =
     and_then (buf_get 4 u32_from_be_bytes buf) (\<lambda>key_len_raw buf.
       if key_len_raw = KEY_NULL_SENTINEL then (Ok None, buf)
       else let key_len = unat key_len_raw in
         if length buf < key_len then (Err (InvalidLength (of_nat total_len)), buf)
         else and_then (buf_slice_to key_len buf) (\<lambda>k buf.
              and_then (buf_advance key_len buf) (\<lambda>_ buf. (Ok (Some k), buf))))"

definition decode_value :: "deps \<Rightarrow> compression \<Rightarrow> nat \<Rightarrow> bytes \<Rightarrow> bytes res \<times> bytes" where
  "decode_value D c total_len buf =
     (if length buf < 4 then (Err (InvalidLength (of_nat total_len)), buf)
      else and_then (buf_get 4 u32_from_be_bytes buf) (\<lambda>val_len_raw buf.
        let val_len = unat val_len_raw in
        if length buf < val_len then (Err (InvalidLength (of_nat total_len)), buf)
        else and_then (buf_slice_to val_len buf) (\<lambda>raw_val buf.
             and_then (if c = NoCompression then (Ok raw_val, buf) else lift_res (decompress D c raw_val) buf)
               (\<lambda>v buf. and_then (buf_advance val_len buf) (\<lambda>_ buf. (Ok v, buf))))))"

definition decode_payload :: "deps \<Rightarrow> nat \<Rightarrow> bytes \<Rightarrow> kafko_record res \<times> bytes" where
  "decode_payload D total_len buf =
     and_then (buf_get 1 u8_from_byte buf) (\<lambda>flag buf.
     and_then (lift_res (compression_from_flag flag) buf) (\<lambda>c buf.
     and_then (buf_get 8 u64_from_be_bytes buf) (\<lambda>ts buf.
     and_then (decode_key total_len buf) (\<lambda>k buf.
     and_then (decode_value D c total_len buf) (\<lambda>v buf.
       (Ok \<lparr>timestamp_ms = ts, key = k, val = v\<rparr>, buf))))))"

definition decode_checked :: "deps \<Rightarrow> nat \<Rightarrow> bytes \<Rightarrow> kafko_record res \<times> bytes" where
  "decode_checked D total_len buf =
     and_then (buf_get 4 u32_from_be_bytes buf) (\<lambda>expected_crc buf.
       let payload_len = total_len - 4 in
       and_then (buf_slice_to payload_len buf) (\<lambda>payload buf.
         let actual_crc = crc32_hash D payload in
         if actual_crc \<noteq> expected_crc then (Err (CrcMismatch expected_crc actual_crc), buf)
         else decode_payload D total_len buf))"

definition decode :: "deps \<Rightarrow> bytes \<Rightarrow> kafko_record res \<times> bytes" where
  "decode D buf =
     (if length buf < 4 then (Err (Truncated (4 - length buf)), buf)
      else and_then (buf_get 4 u32_from_be_bytes buf) (\<lambda>total_len_raw buf.
        let total_len = unat total_len_raw in
        if total_len < MIN_TOTAL_LEN then (Err (InvalidLength (of_nat total_len)), buf)
        else if length buf < total_len then (Err (Truncated (total_len - length buf)), buf)
        else decode_checked D total_len buf))"

section \<open>The frame a record occupies\<close>

context wire_field begin

lemma buf_get_put: "buf_get width get (put a @ rest) = (Ok a, rest)"
  by (simp add: buf_get_def put_width get_put)

end

lemmas buf_get_field [simp, wire_simps] =
  be32.buf_get_put be64.buf_get_put byte1.buf_get_put byte1.buf_get_put [unfolded One_nat_def]

lemma buf_take_prefix [simp, wire_simps]:
  "n = length a \<Longrightarrow> buf_slice_to n (a @ rest) = (Ok a, a @ rest)"
  "n = length a \<Longrightarrow> buf_advance n (a @ rest) = (Ok (), rest)"
  by (simp_all add: buf_slice_to_def buf_advance_def)

fun key_field :: "bytes option \<Rightarrow> bytes" where
  "key_field None = u32_to_be_bytes KEY_NULL_SENTINEL"
| "key_field (Some k) = u32_to_be_bytes (of_nat (length k)) @ k"

definition payload_of :: "compression \<Rightarrow> i64 \<Rightarrow> bytes option \<Rightarrow> bytes \<Rightarrow> bytes" where
  "payload_of c ts k vb =
     u8_to_byte (compression_flag c) @ u64_to_be_bytes ts @ key_field k @ u32_to_be_bytes (of_nat (length vb)) @ vb"

definition frame_of :: "deps \<Rightarrow> compression \<Rightarrow> i64 \<Rightarrow> bytes option \<Rightarrow> bytes \<Rightarrow> bytes" where
  "frame_of D c ts k vb =
     (let p = payload_of c ts k vb
      in u32_to_be_bytes (of_nat (4 + length p)) @ u32_to_be_bytes (crc32_hash D p) @ p)"

lemma length_key_field [simp]: "length (key_field k) = key_part k"
  by (cases k) (simp_all add: key_part_def)

lemma length_payload_of: "length (payload_of c ts k vb) = 1 + 8 + key_part k + (4 + length vb)"
  by (simp add: payload_of_def)

lemma length_frame_of: "length (frame_of D c ts k vb) = 4 + 4 + 1 + 8 + key_part k + 4 + length vb"
  by (simp add: frame_of_def Let_def length_payload_of)

lemma frame_of_not_Nil [simp]: "frame_of D c ts k vb \<noteq> []"
  using length_frame_of [of D c ts k vb] by auto

lemma key_field_case:
  "(case k of None \<Rightarrow> out @ u32_to_be_bytes KEY_NULL_SENTINEL
    | Some b \<Rightarrow> out @ u32_to_be_bytes (of_nat (length b)) @ b) = out @ key_field k"
  by (cases k) simp_all

lemma encode_inner_eq:
  "encode_inner D r out c ov =
     (let f = frame_of D c (timestamp_ms r) (key r) (case ov of None \<Rightarrow> val r | Some b \<Rightarrow> b)
      in (length f, out @ f))"
  by (simp add: encode_inner_def Let_def key_field_case frame_of_def payload_of_def add.assoc add.commute add.left_commute)

lemma encode_with_Ok:
  assumes "compress D c (val r) [] = (Ok (), z)"
  shows "encode_with D r out c =
           (Ok (length (frame_of D c (timestamp_ms r) (key r) z)), out @ frame_of D c (timestamp_ms r) (key r) z)"
  using assms by (cases c) (auto simp: encode_with_def encode_inner_eq Let_def)

lemma encode_with_unavailable:
  "\<not> is_available D c \<Longrightarrow> encode_with D r out c = (Err (CompressionUnavailable c), out)"
  using compress_unavailable [of D c "val r" "[]"] by (cases c) (auto simp: encode_with_def)

section \<open>Decoding a frame\<close>

definition lengths_fit :: "bytes option \<Rightarrow> bytes \<Rightarrow> bool" where
  "lengths_fit k vb \<longleftrightarrow> 4 + 1 + 8 + key_part k + 4 + length vb < 2 ^ 32"

lemma decode_key_field:
  assumes "lengths_fit k vb"
  shows "decode_key total_len (key_field k @ rest) = (Ok k, rest)"
proof (cases k)
  case None
  then show ?thesis by (simp add: decode_key_def)
next
  case (Some b)
  with assms have small: "length b < 2 ^ 32 - 1"
    by (simp add: lengths_fit_def key_part_def)
  then have len: "unat (of_nat (length b) :: u32) = length b"
    by (intro unat_u32_of_nat) simp
  moreover have "(of_nat (length b) :: u32) \<noteq> KEY_NULL_SENTINEL"
  proof
    assume "(of_nat (length b) :: u32) = KEY_NULL_SENTINEL"
    then have "unat (of_nat (length b) :: u32) = unat KEY_NULL_SENTINEL"
      by simp
    with len small show False
      by (simp add: KEY_NULL_SENTINEL_def)
  qed
  ultimately show ?thesis
    using Some by (simp add: decode_key_def)
qed

lemma decode_value_field:
  assumes "lengths_fit k vb" and "decompress D c vb = Ok v"
  shows "decode_value D c total_len (u32_to_be_bytes (of_nat (length vb)) @ vb @ rest) = (Ok v, rest)"
proof -
  have "unat (of_nat (length vb) :: u32) = length vb"
    using assms(1) by (intro unat_u32_of_nat) (simp add: lengths_fit_def)
  with assms(2) show ?thesis
    by (cases c) (simp_all add: decode_value_def Let_def lift_res_def)
qed

lemma decode_payload_field:
  assumes "lengths_fit k vb" and "decompress D c vb = Ok v"
  shows "decode_payload D total_len (payload_of c ts k vb @ rest) =
           (Ok \<lparr>timestamp_ms = ts, key = k, val = v\<rparr>, rest)"
  using decode_key_field [OF assms(1)] decode_value_field [OF assms]
  by (simp add: decode_payload_def payload_of_def lift_res_def)

lemma decode_frame:
  assumes "lengths_fit k vb"
  shows "decode D (frame_of D c ts k vb @ rest) = decode_payload D (4 + length (payload_of c ts k vb)) (payload_of c ts k vb @ rest)"
proof -
  let ?p = "payload_of c ts k vb"
  have total: "unat (of_nat (4 + length ?p) :: u32) = 4 + length ?p"
    using assms by (intro unat_u32_of_nat) (simp add: lengths_fit_def length_payload_of)
  have "MIN_TOTAL_LEN \<le> 4 + length ?p"
    by (simp add: MIN_TOTAL_LEN_def length_payload_of key_part_def split: option.split)
  with total show ?thesis
    by (simp add: decode_def decode_checked_def frame_of_def Let_def)
qed

lemma payload_length_fits:
  assumes "lengths_fit k vb"
  shows "MIN_TOTAL_LEN \<le> 4 + length (payload_of c ts k vb) \<and> 4 + length (payload_of c ts k vb) < 2 ^ 32"
  using assms by (auto simp: MIN_TOTAL_LEN_def lengths_fit_def length_payload_of key_part_def split: option.split)

lemma decode_bad_checksum:
  assumes "MIN_TOTAL_LEN \<le> 4 + length p \<and> 4 + length p < 2 ^ 32" and "length p' = length p" and "crc32_hash D p' \<noteq> w"
  shows "decode D (u32_to_be_bytes (of_nat (4 + length p')) @ u32_to_be_bytes w @ p' @ rest) =
           (Err (CrcMismatch w (crc32_hash D p')), p' @ rest)"
proof -
  have "unat (of_nat (4 + length p') :: u32) = 4 + length p'"
    using assms(1,2) by (intro unat_u32_of_nat) simp
  with assms show ?thesis
    by (simp add: decode_def decode_checked_def Let_def)
qed

lemma decode_frame_Err:
  assumes "lengths_fit k vb" and "decompress D c vb = Err e"
  shows "fst (decode D (frame_of D c ts k vb @ rest)) = Err e"
proof -
  have "unat (of_nat (length vb) :: u32) = length vb"
    using assms(1) by (intro unat_u32_of_nat) (simp add: lengths_fit_def)
  with assms(2) have "\<exists>b. decode_value D c n (u32_to_be_bytes (of_nat (length vb)) @ vb @ rest) = (Err e, b)" for n
    by (cases c) (simp_all add: decode_value_def Let_def lift_res_def)
  then obtain b where "decode_value D c (4 + length (payload_of c ts k vb)) (u32_to_be_bytes (of_nat (length vb)) @ vb @ rest) = (Err e, b)"
    by blast
  then have "fst (decode_payload D (4 + length (payload_of c ts k vb)) (payload_of c ts k vb @ rest)) = Err e"
    using decode_key_field [OF assms(1)] by (simp add: decode_payload_def payload_of_def lift_res_def)
  with decode_frame [OF assms(1)] show ?thesis by simp
qed

text \<open>
  \<open>wire_frame D f r\<close>: the bytes \<open>f\<close> are a frame that some codec of this build turns back
  into the record \<open>r\<close>. This is what segments consist of, whatever codecs the topic was
  configured with over time.
\<close>

definition wire_frame :: "deps \<Rightarrow> bytes \<Rightarrow> kafko_record \<Rightarrow> bool" where
  "wire_frame D f r \<longleftrightarrow>
     (\<exists>c vb. lengths_fit (key r) vb \<and> decompress D c vb = Ok (val r) \<and>
             f = frame_of D c (timestamp_ms r) (key r) vb)"

lemma wire_frame_decode: "wire_frame D f r \<Longrightarrow> decode D (f @ rest) = (Ok r, rest)"
  by (auto simp: wire_frame_def decode_frame decode_payload_field)

lemma wire_frame_not_Nil: "wire_frame D f r \<Longrightarrow> f \<noteq> []"
  by (auto simp: wire_frame_def)

lemma wire_frame_cut:
  assumes "wire_frame D f r" and "k < length f"
  shows "\<exists>n b. decode D (take k f) = (Err (Truncated n), b)"
proof (cases "k < 4")
  case True
  with assms(2) show ?thesis by (simp add: decode_def)
next
  case False
  from assms(1) obtain c vb where fits: "lengths_fit (key r) vb"
    and f: "f = frame_of D c (timestamp_ms r) (key r) vb"
    by (auto simp: wire_frame_def)
  let ?p = "payload_of c (timestamp_ms r) (key r) vb"
  have total: "unat (of_nat (4 + length ?p) :: u32) = 4 + length ?p"
    using fits by (intro unat_u32_of_nat) (simp add: lengths_fit_def length_payload_of)
  define tail where "tail = take (k - 4) (u32_to_be_bytes (crc32_hash D ?p) @ ?p)"
  have "take k f = u32_to_be_bytes (of_nat (4 + length ?p)) @ tail"
    using False f by (simp add: frame_of_def Let_def tail_def)
  moreover have "MIN_TOTAL_LEN \<le> 4 + length ?p"
    by (simp add: MIN_TOTAL_LEN_def length_payload_of key_part_def split: option.split)
  moreover have "length tail < 4 + length ?p"
    using assms(2) f False by (auto simp: tail_def length_frame_of length_payload_of)
  ultimately show ?thesis
    using total by (simp add: decode_def Let_def)
qed

section \<open>The decoder on arbitrary input\<close>

text \<open>\<open>reads r buf\<close>: the reader \<open>r\<close> has advanced within \<open>buf\<close>, never past its end.\<close>

definition reads :: "'a res \<times> bytes \<Rightarrow> bytes \<Rightarrow> bool" where
  "reads r buf \<longleftrightarrow> (\<exists>n \<le> length buf. snd r = drop n buf)"

lemma reads_stay [simp, intro]: "reads (r, buf) buf"
  by (auto simp: reads_def intro: exI [of _ 0])

lemma reads_and_then:
  assumes "reads r buf" and "\<And>a s. r = (Ok a, s) \<Longrightarrow> reads (k a s) s"
  shows "reads (and_then r k) buf"
proof (cases r)
  case (Pair x s)
  show ?thesis
  proof (cases x)
    case (Ok a)
    from assms(1) Pair obtain n where n: "n \<le> length buf" "s = drop n buf"
      by (auto simp: reads_def)
    from assms(2) Pair Ok obtain m where "m \<le> length s" "snd (k a s) = drop m s"
      by (auto simp: reads_def)
    with n Pair Ok show ?thesis
      by (auto simp: reads_def intro!: exI [of _ "m + n"])
  qed (use assms(1) Pair in \<open>auto simp: reads_def\<close>)
qed

lemma reads_primitives [intro]:
  "reads (buf_get n g buf) buf" "reads (buf_slice_to n buf) buf" "reads (buf_advance n buf) buf"
  "reads (lift_res x buf) buf"
  by (auto simp: reads_def buf_get_def buf_slice_to_def buf_advance_def lift_res_def
      intro: exI [of _ 0] exI [of _ n])

lemma reads_if: "(P \<Longrightarrow> reads a buf) \<Longrightarrow> (\<not> P \<Longrightarrow> reads b buf) \<Longrightarrow> reads (if P then a else b) buf"
  by simp

lemmas reads_intros = reads_and_then reads_if reads_primitives reads_stay

lemma reads_decode_payload: "reads (decode_payload D n buf) buf"
  unfolding decode_payload_def decode_key_def decode_value_def Let_def by (intro reads_intros)

lemma reads_decode_checked: "reads (decode_checked D n buf) buf"
  unfolding decode_checked_def Let_def by (intro reads_intros reads_decode_payload)

lemma decode_consumes:
  assumes "decode D buf = (Ok r, rest)"
  shows "\<exists>n. 4 \<le> n \<and> n \<le> length buf \<and> rest = drop n buf"
proof -
  from assms obtain t where four: "4 \<le> length buf" and "decode_checked D t (drop 4 buf) = (Ok r, rest)"
    by (auto simp: decode_def buf_get_def Let_def split: if_splits)
  with reads_decode_checked [of D t "drop 4 buf"] obtain n where "n \<le> length buf - 4" "rest = drop n (drop 4 buf)"
    by (auto simp: reads_def)
  with four show ?thesis
    by (intro exI [of _ "n + 4"]) auto
qed

lemma decode_shrinks: "decode D buf = (Ok r, rest) \<Longrightarrow> length rest < length buf"
  using decode_consumes by fastforce

lemma no_panic_primitives:
  "n \<le> length buf \<Longrightarrow> no_panic (buf_get n g buf)"
  "n \<le> length buf \<Longrightarrow> no_panic (buf_slice_to n buf)"
  "n \<le> length buf \<Longrightarrow> no_panic (buf_advance n buf)"
  by (simp_all add: buf_get_def buf_slice_to_def buf_advance_def)

lemma buf_get_OkD: "buf_get n g buf = (Ok a, s) \<Longrightarrow> s = drop n buf \<and> n \<le> length buf"
  by (auto simp: buf_get_def split: if_splits)

lemma buf_slice_to_OkD: "buf_slice_to n buf = (Ok a, s) \<Longrightarrow> s = buf"
  by (auto simp: buf_slice_to_def split: if_splits)

lemma no_panic_decode_key: "4 \<le> length buf \<Longrightarrow> no_panic (decode_key n buf)"
  unfolding decode_key_def Let_def
  by (auto intro!: no_panic_and_then no_panic_primitives dest!: buf_get_OkD buf_slice_to_OkD)

lemma no_panic_lift: "(\<And>m. x \<noteq> Panic m) \<Longrightarrow> no_panic (lift_res x buf)"
  by (simp add: lift_res_def no_panic_def)

lemma lift_res_OkD: "lift_res x buf = (Ok a, s) \<Longrightarrow> s = buf"
  by (simp add: lift_res_def)

lemma no_panic_decode_value: "no_panic (decode_value D c n buf)"
  unfolding decode_value_def Let_def
  by (auto intro!: no_panic_and_then no_panic_primitives no_panic_lift
      dest!: buf_get_OkD buf_slice_to_OkD lift_res_OkD simp: decompress_no_panic split: if_splits)

lemma no_panic_decode_payload: "13 \<le> length buf \<Longrightarrow> no_panic (decode_payload D n buf)"
  unfolding decode_payload_def
  by (auto intro!: no_panic_and_then no_panic_primitives no_panic_decode_key no_panic_decode_value no_panic_lift
      dest!: buf_get_OkD lift_res_OkD simp: from_flag_no_panic)

lemma no_panic_decode_checked: "21 \<le> n \<Longrightarrow> n \<le> length buf \<Longrightarrow> no_panic (decode_checked D n buf)"
  unfolding decode_checked_def Let_def
  by (auto intro!: no_panic_and_then no_panic_primitives no_panic_decode_payload
      dest!: buf_get_OkD buf_slice_to_OkD)

lemma no_panic_decode: "no_panic (decode D buf)"
  unfolding decode_def Let_def
  by (auto intro!: no_panic_and_then no_panic_primitives no_panic_decode_checked
      dest!: buf_get_OkD simp: MIN_TOTAL_LEN_def)

section \<open>Framing\<close>

text \<open>
  What the scanning loops of the log rely on: a decoder that reads back frames wherever they
  stand at the front of the buffer, reports a frame cut short as truncated, and never stands
  still on success.
\<close>

locale framing =
  fixes dec :: "bytes \<Rightarrow> 'r res \<times> bytes"
    and frame :: "bytes \<Rightarrow> 'r \<Rightarrow> bool"
  assumes frame_dec: "frame f r \<Longrightarrow> dec (f @ rest) = (Ok r, rest)"
    and frame_not_Nil: "frame f r \<Longrightarrow> f \<noteq> []"
    and frame_cut: "frame f r \<Longrightarrow> k < length f \<Longrightarrow> \<exists>n b. dec (take k f) = (Err (Truncated n), b)"
    and dec_shrinks: "dec buf = (Ok r, rest) \<Longrightarrow> length rest < length buf"
begin

lemma frame_dec_alone: "frame f r \<Longrightarrow> dec f = (Ok r, [])"
  using frame_dec [of f r "[]"] by simp

lemma frame_unique: "frame f r \<Longrightarrow> frame f r' \<Longrightarrow> r = r'"
  using frame_dec_alone [of f r] frame_dec_alone [of f r'] by simp

lemma frame_prefix_free:
  assumes "frame f r" and "frame g q" and "f @ xs = g @ ys"
  shows "f = g \<and> r = q \<and> xs = ys"
  using frame_dec [OF assms(1), of xs] frame_dec [OF assms(2), of ys] assms(3) by auto

lemma frames_length: "\<forall>(f, r) \<in> set fs. frame f r \<Longrightarrow> length fs \<le> length (concat (map fst fs))"
proof (induction fs)
  case (Cons p fs)
  obtain f r where p: "p = (f, r)" by (cases p)
  with Cons.prems have "f \<noteq> []"
    using frame_not_Nil by auto
  with p Cons show ?case
    by (cases f) auto
qed simp

text \<open>Cutting a sequence of frames at any byte leaves whole frames and at most one frame cut short.\<close>

lemma frames_cut:
  assumes "\<forall>(f, r) \<in> set fs. frame f r"
  shows "\<exists>m torn. m \<le> length fs \<and> take k (concat (map fst fs)) = concat (map fst (take m fs)) @ torn \<and>
           (torn = [] \<or> (\<exists>n b. dec torn = (Err (Truncated n), b)))"
  using assms
proof (induction fs arbitrary: k)
  case Nil
  then show ?case by simp
next
  case (Cons p fs)
  obtain f r where p: "p = (f, r)" by (cases p)
  with Cons.prems have f: "frame f r" by simp
  show ?case
  proof (cases "k < length f")
    case True
    with frame_cut [OF f] p show ?thesis
      by (intro exI [of _ 0] exI [of _ "take k f"]) auto
  next
    case False
    from Cons.IH [of "k - length f"] Cons.prems obtain m torn where
      "m \<le> length fs" "take (k - length f) (concat (map fst fs)) = concat (map fst (take m fs)) @ torn"
      "torn = [] \<or> (\<exists>n b. dec torn = (Err (Truncated n), b))"
      by auto
    with False p show ?thesis
      by (intro exI [of _ "Suc m"] exI [of _ torn]) auto
  qed
qed

end

interpretation rec: framing "decode D" "wire_frame D" for D
  by unfold_locales
    (use wire_frame_decode wire_frame_not_Nil wire_frame_cut decode_shrinks in blast)+

section \<open>Encoding a record\<close>

text \<open>
  \<open>encodable\<close> are the limits of the format: the codec is part of the build, the value is within
  what its decompression side accepts, and the lengths fit their 32-bit fields.
\<close>

definition encodable :: "deps \<Rightarrow> compression \<Rightarrow> kafko_record \<Rightarrow> bool" where
  "encodable D c r \<longleftrightarrow>
     is_available D c \<and> value_fits c (val r) \<and> lengths_fit (key r) (snd (compress D c (val r) []))"

definition encoded :: "deps \<Rightarrow> compression \<Rightarrow> kafko_record \<Rightarrow> bytes" where
  "encoded D c r = snd (encode_with D r [] c)"

lemma encode_with_encoded:
  assumes "codec_laws D" and "encodable D c r"
  shows "encode_with D r out c = (Ok (length (encoded D c r)), out @ encoded D c r)"
    and "wire_frame D (encoded D c r) r"
proof -
  from assms obtain z where z: "compress D c (val r) [] = (Ok (), z)"
    using compress_total [of D c "val r" "[]"] by (auto simp: encodable_def)
  then have e: "encoded D c r = frame_of D c (timestamp_ms r) (key r) z"
    by (simp add: encoded_def encode_with_Ok)
  with z show "encode_with D r out c = (Ok (length (encoded D c r)), out @ encoded D c r)"
    by (simp add: encode_with_Ok)
  show "wire_frame D (encoded D c r) r"
    using assms z e decompress_compress [OF assms(1) _ z] by (auto simp: wire_frame_def encodable_def)
qed

lemma length_encoded_uncompressed: "length (encoded D NoCompression r) = wire_size r"
  by (simp add: encoded_def encode_with_Ok length_frame_of wire_size_def)

text \<open>A record takes the same room at whatever time it is sent.\<close>

lemma length_encoded_timestamp:
  assumes "codec_laws D" and "is_available D c"
  shows "length (encoded D c (record_new ts k v)) = length (encoded D c (record_new 0 k v))"
proof -
  obtain z where "compress D c v [] = (Ok (), z)"
    using compress_total [OF assms] by blast
  then have "length (encoded D c (record_new ts k v)) = 4 + 4 + 1 + 8 + key_part k + 4 + length z" for ts
    using encode_with_Ok [of D c "record_new ts k v" z] by (simp add: encoded_def length_frame_of record_new_def)
  then show ?thesis
    by simp
qed

lemma encodable_timestamp: "encodable D c (record_new ts k v) = encodable D c (record_new 0 k v)"
  by (simp add: encodable_def record_new_def)

definition demo_record :: kafko_record where
  "demo_record = record_new 1 (Some [7]) [1, 2, 3]"

lemma demo_encodable: "encodable demo_deps NoCompression demo_record" "encodable demo_deps Lz4 demo_record"
  by (simp_all add: encodable_def demo_deps_def demo_record_def record_new_def lz4_compress_def lengths_fit_def key_part_def
      DECOMPRESS_MAX_SIZE_def)

section \<open>Properties\<close>

text \<open>
  C16: the wire format. What \<^verbatim>\<open>encode_with\<close> appends to the buffer, with any codec, is as many
  bytes as it says, leaves the buffer's old content alone, and \<^verbatim>\<open>decode\<close> reads back the
  same record, timestamp, null or present key and value, leaving exactly the bytes after it.
\<close>

theorem record_roundtrip:
  assumes "codec_laws D" and "encodable D c r"
  shows "\<exists>f. encode_with D r out c = (Ok (length f), out @ f) \<and> decode D (f @ rest) = (Ok r, rest)"
  using encode_with_encoded [OF assms] wire_frame_decode by blast

lemma record_roundtrip_witness:
  "\<exists>f. encode_with demo_deps demo_record [9] Lz4 = (Ok (length f), [9] @ f) \<and> decode demo_deps (f @ [5]) = (Ok demo_record, [5])"
  using record_roundtrip [OF demo_codec_laws demo_encodable(2), of "[9]" "[5]"] .

text \<open>
  The decoder is total. On any input \<^verbatim>\<open>decode\<close> returns a record or an error and never
  panics on a short buffer or an oversized length field, and when it succeeds it has consumed at
  least the length field and nothing past the end.
\<close>

lemma decode_total:
  "no_panic (decode D buf) \<and>
   (case decode D buf of (Ok r, rest) \<Rightarrow> \<exists>n. 4 \<le> n \<and> n \<le> length buf \<and> rest = drop n buf | _ \<Rightarrow> True)"
  using no_panic_decode [of D buf] decode_consumes [of D buf]
  by (cases "decode D buf"; cases "fst (decode D buf)") auto

text \<open>
  Torn records. Every proper prefix of an encoded record, however short, is reported as
  truncated; this is how a torn write is told from corruption.
\<close>

lemma decode_torn:
  assumes "codec_laws D" and "encodable D c r" and "k < length (encoded D c r)"
  shows "\<exists>n. fst (decode D (take k (encoded D c r))) = Err (Truncated n)"
  using wire_frame_cut [OF encode_with_encoded(2) [OF assms(1,2)] assms(3)] by (metis fst_conv)

lemma decode_torn_witness: "\<exists>n. fst (decode demo_deps (take 28 (encoded demo_deps NoCompression demo_record))) = Err (Truncated n)"
  by (rule decode_torn [OF demo_codec_laws demo_encodable(1)])
    (simp add: length_encoded_uncompressed wire_size_def demo_record_def record_new_def key_part_def)

text \<open>
  Corruption. If the payload bytes of a stored record are replaced by others with another
  checksum, \<^verbatim>\<open>decode\<close> reports the mismatch with both checksums and looks no further.
\<close>

lemma decode_detects_corruption:
  assumes "lengths_fit k vb" and "length p' = length (payload_of c ts k vb)"
    and "crc32_hash D p' \<noteq> crc32_hash D (payload_of c ts k vb)"
  shows "fst (decode D (take 8 (frame_of D c ts k vb) @ p' @ rest)) =
           Err (CrcMismatch (crc32_hash D (payload_of c ts k vb)) (crc32_hash D p'))"
proof -
  let ?p = "payload_of c ts k vb"
  have "take 8 (frame_of D c ts k vb) = u32_to_be_bytes (of_nat (4 + length p')) @ u32_to_be_bytes (crc32_hash D ?p)"
    by (simp add: frame_of_def Let_def assms(2))
  with decode_bad_checksum [OF payload_length_fits [OF assms(1), of c ts] assms(2,3)] show ?thesis
    by simp
qed

lemma decode_detects_corruption_witness:
  "fst (decode demo_deps (take 8 (frame_of demo_deps NoCompression 0 (Some [7]) [4]) @ replicate 19 1)) =
     Err (CrcMismatch (crc32_hash demo_deps (payload_of NoCompression 0 (Some [7]) [4])) (crc32_hash demo_deps (replicate 19 1)))"
proof -
  have "crc32_hash demo_deps (payload_of NoCompression 0 (Some [7]) [4]) \<noteq> crc32_hash demo_deps (replicate 19 1)"
    by code_simp
  then show ?thesis
    using decode_detects_corruption [of "Some [7]" "[4]" "replicate 19 1" NoCompression 0 demo_deps "[]"]
    by (simp add: lengths_fit_def length_payload_of key_part_def)
qed

text \<open>
  A build without the codec. Encoding with a codec the build lacks returns
  \<^verbatim>\<open>CompressionUnavailable\<close> and leaves the output buffer as it was; a stored record that uses
  it is refused with the same error.
\<close>

lemma codec_unavailable:
  assumes "\<not> is_available D c" and "lengths_fit k vb"
  shows "encode_with D r out c = (Err (CompressionUnavailable c), out) \<and>
         fst (decode D (frame_of D c ts k vb @ rest)) = Err (CompressionUnavailable c)"
  using encode_with_unavailable [OF assms(1)] decode_frame_Err [OF assms(2) decompress_unavailable [OF assms(1)]]
  by blast

lemma codec_unavailable_witness:
  "encode_with demo_deps demo_record [] Zstd = (Err (CompressionUnavailable Zstd), []) \<and>
   fst (decode demo_deps (frame_of demo_deps Zstd 0 None [4] @ [])) = Err (CompressionUnavailable Zstd)"
  by (rule codec_unavailable) (simp_all add: demo_deps_def lengths_fit_def key_part_def)

text \<open>
  C40: the decompression cap. An LZ4 value above 16 MiB is encoded without an error, and the record
  can never be decoded again: the encoder does not enforce the cap the decoder has.
\<close>

theorem oversize_value_unreadable:
  assumes "codec_laws D" and "feature_lz4 D" and "DECOMPRESS_MAX_SIZE < length (val r)"
    and "lengths_fit (key r) (snd (compress D Lz4 (val r) []))" and "length (val r) < 2 ^ 32"
  shows "\<exists>f. encode_with D r out Lz4 = (Ok (length f), out @ f) \<and> fst (decode D (f @ rest)) = Err DecompressionFailed"
proof -
  obtain z where z: "compress D Lz4 (val r) [] = (Ok (), z)"
    using compress_total [OF assms(1), of Lz4] assms(2) by auto
  have "lengths_fit (key r) z"
    using assms(4) z by simp
  from decode_frame_Err [OF this lz4_oversize_rejected [OF z assms(3,5)]] encode_with_Ok [OF z] show ?thesis
    by auto
qed

lemma oversize_value_unreadable_witness:
  "\<exists>f. encode_with demo_deps (record_new 0 None (replicate (DECOMPRESS_MAX_SIZE + 1) 0)) [] Lz4 = (Ok (length f), [] @ f) \<and>
       fst (decode demo_deps (f @ [])) = Err DecompressionFailed"
  by (rule oversize_value_unreadable [OF demo_codec_laws])
    (simp_all add: demo_deps_def record_new_def DECOMPRESS_MAX_SIZE_def lz4_compress_def lengths_fit_def key_part_def)

end
