(* ===== verification/Kafko_Log.thy ===== *)
theory Kafko_Log
  imports Kafko_Segment Kafko_Index Kafko_Record
begin

text \<open>
  \<^verbatim>\<open>src/crates/kafko/src/log.rs\<close>: the segmented log of one partition. This theory holds the
  definitions: configuration, state, every operation of \<^verbatim>\<open>impl Log\<close>, and the recovery
  functions. The state of an operation is the \<open>log\<close> value together with the directory
  \<open>os\<close> its files live in.
\<close>

section \<open>Configuration and state\<close>

text \<open>Durations are whole milliseconds, as \<^verbatim>\<open>Duration::as_millis\<close> reads them.\<close>

record log_config =
  segment_size_threshold :: nat
  index_interval :: nat
  max_segment_age :: "nat option"
  max_partition_bytes :: "nat option"
  retention_check_interval :: nat
  batch_max_records :: nat
  batch_max_bytes :: nat
  cfg_compression :: compression

definition default_log_config :: log_config where
  "default_log_config =
     \<lparr>segment_size_threshold = 2 ^ 30, index_interval = 4 * 1024, max_segment_age = None,
      max_partition_bytes = None, retention_check_interval = 60 * 1000, batch_max_records = 1024,
      batch_max_bytes = 64 * 1024, cfg_compression = NoCompression\<rparr>"

record indexed_segment =
  the_segment :: segment
  the_index :: sparse_index

record log =
  log_cfg :: log_config
  segments :: "indexed_segment list"
  next_offset :: nat
  encode_buf :: bytes
  actual_sizes :: "nat list"

abbreviation base_of :: "indexed_segment \<Rightarrow> nat" where
  "base_of s \<equiv> seg_base_offset (the_segment s)"

definition segment_count :: "log \<Rightarrow> nat" where
  "segment_count l = length (segments l)"

definition total_size :: "log \<Rightarrow> nat" where
  "total_size l = sum_list (map (\<lambda>s. seg_size (the_segment s)) (segments l))"

text \<open>
  Operations on the active (last) segment and its index; the accesses of the source panic if
  there is no segment.
\<close>

definition with_active_segment ::
  "(segment \<times> os \<Rightarrow> 'a res \<times> segment \<times> os) \<Rightarrow> log \<times> os \<Rightarrow> 'a res \<times> log \<times> os" where
  "with_active_segment f = (\<lambda>(l, os).
     if segments l = [] then (Panic ''segments invariant: never empty after create'', l, os)
     else let s = last (segments l)
          in in_state (\<lambda>(seg, os). (l\<lparr>segments := butlast (segments l) @ [s\<lparr>the_segment := seg\<rparr>]\<rparr>, os))
               (f (the_segment s, os)))"

definition with_active_index ::
  "(sparse_index \<times> os \<Rightarrow> 'a res \<times> sparse_index \<times> os) \<Rightarrow> log \<times> os \<Rightarrow> 'a res \<times> log \<times> os" where
  "with_active_index f = (\<lambda>(l, os).
     if segments l = [] then (Panic ''segments invariant: never empty after create'', l, os)
     else let s = last (segments l)
          in in_state (\<lambda>(idx, os). (l\<lparr>segments := butlast (segments l) @ [s\<lparr>the_index := idx\<rparr>]\<rparr>, os))
               (f (the_index s, os)))"

section \<open>Creating a log\<close>

definition log_create :: "log_config \<Rightarrow> os \<Rightarrow> log res \<times> os" where
  "log_create cfg os =
     and_then (create_dir_all os) (\<lambda>_ os.
     and_then (segment_create 0 os) (\<lambda>seg os.
     and_then (index_create 0 (index_interval cfg) os) (\<lambda>idx os.
       (Ok \<lparr>log_cfg = cfg, segments = [\<lparr>the_segment = seg, the_index = idx\<rparr>], next_offset = 0,
            encode_buf = [], actual_sizes = []\<rparr>, os))))"

section \<open>Appending\<close>

definition log_sync :: "log \<times> os \<Rightarrow> unit res \<times> log \<times> os" where
  "log_sync s =
     and_then (with_active_segment segment_sync s) (\<lambda>_ s. with_active_index index_sync s)"

definition rotate_active_segment :: "log \<times> os \<Rightarrow> unit res \<times> log \<times> os" where
  "rotate_active_segment s =
     and_then (with_active_segment segment_sync s) (\<lambda>_ s.
     and_then (with_active_index index_sync s) (\<lambda>_ (l, os).
     and_then (in_state (\<lambda>os. (l, os)) (segment_create (next_offset l) os)) (\<lambda>new_segment (l, os).
     and_then (in_state (\<lambda>os. (l, os)) (index_create (next_offset l) (index_interval (log_cfg l)) os))
       (\<lambda>new_index (l, os).
         (Ok (), l\<lparr>segments := segments l @ [\<lparr>the_segment = new_segment, the_index = new_index\<rparr>]\<rparr>, os)))))"

definition rotate_if_needed :: "nat \<Rightarrow> log \<times> os \<Rightarrow> unit res \<times> log \<times> os" where
  "rotate_if_needed additional = (\<lambda>(l, os).
     if segments l = [] then (Panic ''segments invariant: never empty after create'', l, os)
     else if would_overflow (the_segment (last (segments l))) additional (segment_size_threshold (log_cfg l))
     then rotate_active_segment (l, os)
     else (Ok (), l, os))"

definition log_append :: "deps \<Rightarrow> kafko_record \<Rightarrow> log \<times> os \<Rightarrow> nat res \<times> log \<times> os" where
  "log_append D r s =
     and_then (rotate_if_needed (wire_size r) s) (\<lambda>_ (l, os).
       case encode_with D r [] (cfg_compression (log_cfg l)) of
         (Err e, buf) \<Rightarrow> (Err e, l, os)
       | (Panic m, buf) \<Rightarrow> (Panic m, l, os)
       | (Ok actual_size, buf) \<Rightarrow>
           and_then (with_active_segment (segment_append buf) (l, os)) (\<lambda>file_pos (l, os).
             let offset = next_offset l in
             and_then (with_active_index (track_append offset file_pos actual_size) (l, os)) (\<lambda>_ (l, os).
               (Ok offset, l\<lparr>next_offset := next_offset l + 1\<rparr>, os))))"

fun encode_loop :: "deps \<Rightarrow> compression \<Rightarrow> kafko_record list \<Rightarrow> log \<times> os \<Rightarrow> unit res \<times> log \<times> os" where
  "encode_loop D c [] s = (Ok (), s)"
| "encode_loop D c (r # rs) (l, os) =
     and_then (in_state (\<lambda>buf. (l\<lparr>encode_buf := buf\<rparr>, os)) (encode_with D r (encode_buf l) c))
       (\<lambda>actual (l, os). encode_loop D c rs (l\<lparr>actual_sizes := actual_sizes l @ [actual]\<rparr>, os))"

fun track_loop :: "nat list \<Rightarrow> nat list \<Rightarrow> nat \<Rightarrow> sparse_index \<times> os \<Rightarrow> unit res \<times> sparse_index \<times> os" where
  "track_loop offsets [] file_pos s = (Ok (), s)"
| "track_loop [] (sz # sizes) file_pos s = (Panic ''index out of bounds'', s)"
| "track_loop (offset # offsets) (sz # sizes) file_pos s =
     and_then (track_append offset file_pos sz s) (\<lambda>_ s. track_loop offsets sizes (file_pos + sz) s)"

definition log_append_batch :: "deps \<Rightarrow> kafko_record list \<Rightarrow> log \<times> os \<Rightarrow> nat list res \<times> log \<times> os" where
  "log_append_batch D records s =
     (if records = [] then (Ok [], s)
      else let total_wire_size = sum_list (map wire_size records) in
        and_then (rotate_if_needed total_wire_size s) (\<lambda>_ (l, os).
          let offsets = [next_offset l ..< next_offset l + length records];
              current_offset = next_offset l + length records in
          and_then (encode_loop D (cfg_compression (log_cfg l)) records (l\<lparr>encode_buf := [], actual_sizes := []\<rparr>, os))
            (\<lambda>_ (l, os).
            and_then (with_active_segment (segment_append (encode_buf l)) (l, os)) (\<lambda>file_pos (l, os).
            and_then (with_active_index (track_loop offsets (actual_sizes l) file_pos) (l, os)) (\<lambda>_ (l, os).
              (Ok offsets, l\<lparr>next_offset := current_offset\<rparr>, os))))))"

section \<open>Reading\<close>

definition find_segment_index :: "log \<Rightarrow> nat \<Rightarrow> nat" where
  "find_segment_index l offset =
     (case binary_search_by_key base_of offset (segments l) of
        Found i \<Rightarrow> i
      | Insert_at 0 \<Rightarrow> 0
      | Insert_at (Suc i) \<Rightarrow> i)"

function read_loop :: "deps \<Rightarrow> nat \<Rightarrow> nat \<Rightarrow> bytes \<Rightarrow> kafko_record option res" where
  "read_loop D offset current_offset slc =
     (if slc = [] then Ok None
      else case decode D slc of
        (Ok r, rest) \<Rightarrow>
          if current_offset = offset then Ok (Some r) else read_loop D offset (current_offset + 1) rest
      | (Err (Truncated n), rest) \<Rightarrow> Ok None
      | (Err e, rest) \<Rightarrow> Err e
      | (Panic m, rest) \<Rightarrow> Panic m)"
  by pat_completeness auto
termination
  by (relation "measure (\<lambda>(D, offset, current_offset, slc). length slc)") (auto dest: decode_shrinks [OF sym])

declare read_loop.simps [simp del]

definition read_record_at :: "deps \<Rightarrow> nat \<Rightarrow> log \<times> os \<Rightarrow> kafko_record option res \<times> log \<times> os" where
  "read_record_at D offset = (\<lambda>(l, os).
     if next_offset l \<le> offset then (Ok None, l, os)
     else let seg_idx = find_segment_index l offset in
       if length (segments l) \<le> seg_idx then (Panic ''index out of bounds'', l, os)
       else let pair = segments l ! seg_idx;
                (file_pos, starting_offset) = lookup (the_index pair) offset;
                remaining = seg_size (the_segment pair) - file_pos in
         if remaining = 0 then (Ok None, l, os)
         else and_then
           (in_state (\<lambda>(seg, os). (l\<lparr>segments := (segments l)[seg_idx := pair\<lparr>the_segment := seg\<rparr>]\<rparr>, os))
             (segment_read_at file_pos remaining (the_segment pair, os)))
           (\<lambda>slc (l, os). (read_loop D offset starting_offset slc, l, os)))"

section \<open>Retention\<close>

text \<open>
  \<^verbatim>\<open>as i64\<close> keeps the low 64 bits and reads them as two's complement; \<^verbatim>\<open>saturating_sub\<close>
  stays within the type.
\<close>

definition as_i64 :: "nat \<Rightarrow> int" where
  "as_i64 n = sint (of_nat n :: 64 word)"

definition i64_saturating_sub :: "int \<Rightarrow> int \<Rightarrow> int" where
  "i64_saturating_sub a b = max (- (2 ^ 63)) (min (2 ^ 63 - 1) (a - b))"

definition current_timestamp_ms :: "os \<Rightarrow> int" where
  "current_timestamp_ms os = (if os_clock os < 0 then 0 else os_clock os)"

definition with_index_extension :: "string \<Rightarrow> string" where
  "with_index_extension path =
     (case strip_suffix ''.log'' path of None \<Rightarrow> path @ ''.index'' | Some stem \<Rightarrow> stem @ ''.index'')"

definition remove_file_if_present :: "string \<Rightarrow> os \<Rightarrow> unit res \<times> os" where
  "remove_file_if_present name os =
     (case remove_file name os of
        (Err (Io e), os') \<Rightarrow> if io_error_kind e = NotFound then (Ok (), os') else (Err (Io e), os')
      | r \<Rightarrow> r)"

definition delete_oldest_segment :: "log \<times> os \<Rightarrow> unit res \<times> log \<times> os" where
  "delete_oldest_segment = (\<lambda>(l, os).
     case segments l of
       [] \<Rightarrow> (Panic ''removal index (is 0) should be < len (is 0)'', l, os)
     | oldest # rest \<Rightarrow>
         let l = l\<lparr>segments := rest\<rparr>; log_path = seg_path (the_segment oldest) in
         and_then (in_state (\<lambda>os. (l, os)) (remove_file log_path os)) (\<lambda>_ (l, os).
           in_state (\<lambda>os. (l, os)) (remove_file_if_present (with_index_extension log_path) os)))"

lemma and_then_fundef_cong [fundef_cong]:
  "r = r' \<Longrightarrow> (\<And>a s. r' = (Ok a, s) \<Longrightarrow> k a s = k' a s) \<Longrightarrow> and_then r k = and_then r' k'"
  by (cases r'; cases "fst r'") auto

lemma in_state_OkD: "in_state f r = (Ok a, t) \<Longrightarrow> \<exists>s. r = (Ok a, s) \<and> t = f s"
  by (cases r) auto

lemma delete_oldest_shrinks:
  "delete_oldest_segment (l, os) = (x, l', os') \<Longrightarrow> segments l \<noteq> [] \<Longrightarrow> segments l' = tl (segments l)"
  by (cases "segments l"; cases "remove_file (seg_path (the_segment (hd (segments l)))) os")
    (auto simp: delete_oldest_segment_def Let_def and_then_def in_state_def split: res.splits)

function age_retention :: "int \<Rightarrow> nat \<Rightarrow> log \<times> os \<Rightarrow> nat res \<times> log \<times> os" where
  "age_retention cutoff deleted (l, os) =
     (if 1 < length (segments l)
      then and_then (in_state (\<lambda>os. (l, os)) (last_modified_ms (the_segment (segments l ! 0)) os))
        (\<lambda>mtime (l, os).
          if mtime < cutoff
          then and_then (delete_oldest_segment (l, os)) (\<lambda>_ (l, os). age_retention cutoff (deleted + 1) (l, os))
          else (Ok deleted, l, os))
      else (Ok deleted, l, os))"
  by pat_completeness auto
termination
  by (relation "measure (\<lambda>(cutoff, deleted, l, os). length (segments l))")
    (auto dest!: delete_oldest_shrinks in_state_OkD)

function bytes_retention :: "nat \<Rightarrow> nat \<Rightarrow> log \<times> os \<Rightarrow> nat res \<times> log \<times> os" where
  "bytes_retention max_bytes deleted (l, os) =
     (if 1 < length (segments l) \<and> max_bytes < total_size l
      then and_then (delete_oldest_segment (l, os)) (\<lambda>_ (l, os). bytes_retention max_bytes (deleted + 1) (l, os))
      else (Ok deleted, l, os))"
  by pat_completeness auto
termination
  by (relation "measure (\<lambda>(max_bytes, deleted, l, os). length (segments l))")
    (auto dest!: delete_oldest_shrinks)

declare age_retention.simps [simp del] bytes_retention.simps [simp del]

definition apply_retention :: "log \<times> os \<Rightarrow> nat res \<times> log \<times> os" where
  "apply_retention = (\<lambda>(l, os).
     let now_ms = current_timestamp_ms os in
     and_then
       (case max_segment_age (log_cfg l) of
          None \<Rightarrow> (Ok 0, l, os)
        | Some max_age \<Rightarrow> age_retention (i64_saturating_sub now_ms (as_i64 max_age)) 0 (l, os))
       (\<lambda>deleted (l, os).
         case max_partition_bytes (log_cfg l) of
           None \<Rightarrow> (Ok deleted, l, os)
         | Some max_bytes \<Rightarrow> bytes_retention max_bytes deleted (l, os)))"

section \<open>Opening and recovering\<close>

definition segment_offset_of_name :: "string \<Rightarrow> nat option" where
  "segment_offset_of_name name =
     (case strip_suffix ''.log'' name of None \<Rightarrow> None | Some prefix \<Rightarrow> parse_dec (2 ^ 64) prefix)"

definition discover_segment_offsets :: "os \<Rightarrow> nat list res \<times> os" where
  "discover_segment_offsets os =
     and_then (read_dir os) (\<lambda>names os. (Ok (sort (List.map_filter segment_offset_of_name names)), os))"

text \<open>
  A recovery scan stops at the first record that does not decode; an error that is not one of
  the three the scan expects of a torn tail is passed on.
\<close>

function scan_loop :: "deps \<Rightarrow> bytes \<Rightarrow> nat \<Rightarrow> nat res" where
  "scan_loop D slc last_valid_pos =
     (if slc = [] then Ok last_valid_pos
      else case decode D slc of
        (Ok r, rest) \<Rightarrow> scan_loop D rest (last_valid_pos + (length slc - length rest))
      | (Err (Truncated n), rest) \<Rightarrow> Ok last_valid_pos
      | (Err (CrcMismatch x a), rest) \<Rightarrow> Ok last_valid_pos
      | (Err (InvalidLength n), rest) \<Rightarrow> Ok last_valid_pos
      | (Err e, rest) \<Rightarrow> Err e
      | (Panic m, rest) \<Rightarrow> Panic m)"
  by pat_completeness auto
termination
  by (relation "measure (\<lambda>(D, slc, pos). length slc)") (auto dest: decode_shrinks [OF sym])

declare scan_loop.simps [simp del]

text \<open>
  Both passes allocate a zeroed buffer of the segment's size and read into it once; a short read
  leaves zeros behind.
\<close>

definition read_whole :: "nat \<Rightarrow> segment \<times> os \<Rightarrow> bytes res \<times> segment \<times> os" where
  "read_whole n s =
     and_then (segment_read_at 0 n s) (\<lambda>got s. (Ok (got @ replicate (n - length got) 0), s))"

definition scan_for_last_valid_position :: "deps \<Rightarrow> segment \<times> os \<Rightarrow> nat res \<times> segment \<times> os" where
  "scan_for_last_valid_position D = (\<lambda>(seg, os).
     let n = seg_size seg in
     if n = 0 then (Ok 0, seg, os)
     else and_then (read_whole n (seg, os)) (\<lambda>buf s. (scan_loop D buf 0, s)))"

function replay_loop ::
  "deps \<Rightarrow> nat \<Rightarrow> bytes \<Rightarrow> nat \<Rightarrow> nat \<Rightarrow> sparse_index \<times> os \<Rightarrow> nat res \<times> sparse_index \<times> os" where
  "replay_loop D base_offset slc file_pos count s =
     (if slc = [] then (Ok count, s)
      else case decode D slc of
        (Ok r, rest) \<Rightarrow>
          (let consumed = length slc - length rest in
           and_then (track_append (base_offset + count) file_pos consumed s)
             (\<lambda>_ s. replay_loop D base_offset rest (file_pos + consumed) (count + 1) s))
      | (Err e, rest) \<Rightarrow> (Err e, s)
      | (Panic m, rest) \<Rightarrow> (Panic m, s))"
  by pat_completeness auto
termination
  by (relation "measure (\<lambda>(D, base_offset, slc, file_pos, count, s). length slc)") (auto dest: decode_shrinks [OF sym])

declare replay_loop.simps [simp del]

definition replay_records_to_index ::
  "deps \<Rightarrow> nat \<Rightarrow> sparse_index \<Rightarrow> segment \<times> os \<Rightarrow> (sparse_index \<times> nat) res \<times> segment \<times> os" where
  "replay_records_to_index D base_offset idx = (\<lambda>(seg, os).
     let n = seg_size seg in
     if n = 0 then (Ok (idx, 0), seg, os)
     else and_then (read_whole n (seg, os)) (\<lambda>buf (seg, os).
       case replay_loop D base_offset buf 0 0 (idx, os) of
         (Ok count, idx, os) \<Rightarrow> (Ok (idx, count), seg, os)
       | (Err e, idx, os) \<Rightarrow> (Err e, seg, os)
       | (Panic m, idx, os) \<Rightarrow> (Panic m, seg, os)))"

definition recover_active_segment :: "deps \<Rightarrow> nat \<Rightarrow> nat \<Rightarrow> os \<Rightarrow> (segment \<times> sparse_index \<times> nat) res \<times> os" where
  "recover_active_segment D base_offset ival os =
     and_then (segment_open base_offset os) (\<lambda>seg os.
     case scan_for_last_valid_position D (seg, os) of
       (Err e, seg, os) \<Rightarrow> (Err e, os)
     | (Panic m, seg, os) \<Rightarrow> (Panic m, os)
     | (Ok last_valid_pos, seg, os) \<Rightarrow>
         (case (if last_valid_pos < seg_size seg then segment_truncate last_valid_pos (seg, os) else (Ok (), seg, os)) of
            (Err e, seg, os) \<Rightarrow> (Err e, os)
          | (Panic m, seg, os) \<Rightarrow> (Panic m, os)
          | (Ok _, seg, os) \<Rightarrow>
              and_then (remove_file_if_present (index_path base_offset) os) (\<lambda>_ os.
              and_then (index_create base_offset ival os) (\<lambda>idx os.
              case replay_records_to_index D base_offset idx (seg, os) of
                (Err e, seg, os) \<Rightarrow> (Err e, os)
              | (Panic m, seg, os) \<Rightarrow> (Panic m, os)
              | (Ok (idx, record_count), seg, os) \<Rightarrow> (Ok (seg, idx, record_count), os)))))"

fun open_sealed :: "nat \<Rightarrow> nat list \<Rightarrow> os \<Rightarrow> indexed_segment list res \<times> os" where
  "open_sealed ival [] os = (Ok [], os)"
| "open_sealed ival (base # bases) os =
     and_then (segment_open base os) (\<lambda>seg os.
     and_then (index_open base ival os) (\<lambda>idx os.
     and_then (open_sealed ival bases os) (\<lambda>rest os.
       (Ok (\<lparr>the_segment = seg, the_index = idx\<rparr> # rest), os))))"

definition log_open :: "deps \<Rightarrow> log_config \<Rightarrow> os \<Rightarrow> log res \<times> os" where
  "log_open D cfg os =
     and_then (create_dir_all os) (\<lambda>_ os.
     and_then (discover_segment_offsets os) (\<lambda>base_offsets os.
       if base_offsets = [] then log_create cfg os
       else
         and_then (open_sealed (index_interval cfg) (butlast base_offsets) os) (\<lambda>sealed os.
         let active_base = last base_offsets in
         and_then (recover_active_segment D active_base (index_interval cfg) os) (\<lambda>(seg, idx, count) os.
           (Ok \<lparr>log_cfg = cfg, segments = sealed @ [\<lparr>the_segment = seg, the_index = idx\<rparr>],
                next_offset = active_base + count, encode_buf = [], actual_sizes = []\<rparr>, os)))))"

end
