(* ===== verification/Kafko_Alloc.thy ===== *)
theory Kafko_Alloc
  imports Kafko_Log
begin

text \<open>
  How the log assigns offsets, whatever the file system does: an append that succeeds takes the
  next offsets, an operation that fails takes none. This is the interface the partition's writer
  task relies on to publish its high-water mark.
\<close>

section \<open>Operations that take no offset\<close>

definition keeps_next :: "'a res \<times> log \<times> os \<Rightarrow> log \<Rightarrow> bool" where
  "keeps_next r l \<longleftrightarrow> next_offset (fst (snd r)) = next_offset l \<and> log_cfg (fst (snd r)) = log_cfg l"

lemma keeps_next_refl [simp, intro]: "keeps_next (x, l, os) l"
  by (simp add: keeps_next_def)

lemma keeps_next_cong: "keeps_next (x, l', os) l \<longleftrightarrow> next_offset l' = next_offset l \<and> log_cfg l' = log_cfg l"
  by (simp add: keeps_next_def)

lemma keeps_next_and_then:
  assumes "keeps_next r l" and "\<And>a l' os'. r = (Ok a, l', os') \<Longrightarrow> keeps_next (k a (l', os')) l'"
  shows "keeps_next (and_then r k) l"
proof -
  obtain x l' os' where r: "r = (x, l', os')" by (cases r)
  with assms show ?thesis
    by (cases x) (auto simp: keeps_next_def)
qed

lemma keeps_next_in_state: "(\<And>s. next_offset (fst (f s)) = next_offset l \<and> log_cfg (fst (f s)) = log_cfg l) \<Longrightarrow> keeps_next (in_state f r) l"
  by (simp add: keeps_next_def in_state_def)

lemma keeps_next_active [intro]:
  "keeps_next (with_active_segment f (l, os)) l" "keeps_next (with_active_index g (l, os)) l"
  by (auto simp: with_active_segment_def with_active_index_def Let_def intro!: keeps_next_in_state)

lemma keeps_next_sync: "keeps_next (log_sync (l, os)) l"
  unfolding log_sync_def by (intro keeps_next_and_then keeps_next_active)

lemma keeps_next_rotate_active: "keeps_next (rotate_active_segment (l, os)) l"
  unfolding rotate_active_segment_def
  by (intro keeps_next_and_then keeps_next_active) (auto intro!: keeps_next_and_then keeps_next_in_state simp: keeps_next_cong)

lemma keeps_next_rotate: "keeps_next (rotate_if_needed n (l, os)) l"
  by (simp add: rotate_if_needed_def keeps_next_rotate_active)

lemma keeps_next_encode_loop: "keeps_next (encode_loop D c rs (l, os)) l"
proof (induction rs arbitrary: l)
  case (Cons r rs)
  show ?case
  proof (cases "encode_with D r (encode_buf l) c")
    case (Pair y b)
    with Cons [of "l\<lparr>encode_buf := b, actual_sizes := actual_sizes l @ [_]\<rparr>"] show ?thesis
      by (cases y) (auto simp: keeps_next_def)
  qed
qed simp

lemma keeps_next_delete_oldest: "keeps_next (delete_oldest_segment (l, os)) l"
proof (cases "segments l")
  case (Cons s ss)
  then show ?thesis
    by (auto simp: delete_oldest_segment_def Let_def keeps_next_cong intro!: keeps_next_and_then keeps_next_in_state)
qed (simp add: delete_oldest_segment_def)

lemma keeps_next_trans: "keeps_next r l' \<Longrightarrow> next_offset l' = next_offset l \<Longrightarrow> log_cfg l' = log_cfg l \<Longrightarrow> keeps_next r l"
  by (simp add: keeps_next_def)

lemma delete_oldest_length: "delete_oldest_segment (l, os) = (x, l', os') \<Longrightarrow> segments l \<noteq> [] \<Longrightarrow> length (segments l') < length (segments l)"
  using delete_oldest_shrinks [of l os x l' os'] by simp

lemma keeps_next_age: "keeps_next (age_retention cutoff deleted (l, os)) l"
proof (induction "length (segments l)" arbitrary: l os deleted rule: less_induct)
  case less
  show ?case
  proof (cases "1 < length (segments l)")
    case True
    obtain x os1 where lm: "last_modified_ms (the_segment (segments l ! 0)) os = (x, os1)"
      by (cases "last_modified_ms (the_segment (segments l ! 0)) os")
    have "keeps_next (and_then (delete_oldest_segment (l, os1)) (\<lambda>_ (l, os). age_retention cutoff (deleted + 1) (l, os))) l"
      using True by (intro keeps_next_and_then keeps_next_delete_oldest) (auto intro!: less delete_oldest_length)
    with True lm show ?thesis
      by (cases x) (auto simp: age_retention.simps [of cutoff deleted])
  qed (simp add: age_retention.simps)
qed

lemma keeps_next_bytes: "keeps_next (bytes_retention max_bytes deleted (l, os)) l"
proof (induction "length (segments l)" arbitrary: l os deleted rule: less_induct)
  case less
  show ?case
  proof (cases "1 < length (segments l) \<and> max_bytes < total_size l")
    case True
    have "keeps_next (and_then (delete_oldest_segment (l, os)) (\<lambda>_ (l, os). bytes_retention max_bytes (deleted + 1) (l, os))) l"
      using True by (intro keeps_next_and_then keeps_next_delete_oldest) (auto intro!: less delete_oldest_length)
    with True show ?thesis
      by (subst bytes_retention.simps) simp
  qed (subst bytes_retention.simps, auto)
qed

lemma keeps_next_retention: "keeps_next (apply_retention (l, os)) l"
  unfolding apply_retention_def Let_def
  by (auto intro!: keeps_next_and_then keeps_next_age keeps_next_bytes split: option.splits)

lemma keeps_next_read: "keeps_next (read_record_at D offset (l, os)) l"
  unfolding read_record_at_def Let_def
  by (auto intro!: keeps_next_and_then keeps_next_in_state split: prod.splits)

section \<open>Allocation of offsets\<close>

text \<open>\<open>allocs c n b r\<close>: the result \<open>r\<close> of an operation on a log whose next offset is \<open>b\<close>.\<close>

definition allocs :: "log_config \<Rightarrow> nat \<Rightarrow> nat \<Rightarrow> nat list res \<times> log \<times> os \<Rightarrow> bool" where
  "allocs c n b r \<longleftrightarrow> log_cfg (fst (snd r)) = c \<and>
     (case fst r of
        Ok offsets \<Rightarrow> offsets = [b ..< b + n] \<and> next_offset (fst (snd r)) = b + n
      | _ \<Rightarrow> next_offset (fst (snd r)) = b)"

lemma allocs_and_then:
  assumes "keeps_next r l" and "next_offset l = b" and "log_cfg l = c"
    and "\<And>a l' os'. next_offset l' = b \<Longrightarrow> log_cfg l' = c \<Longrightarrow> allocs c n b (k a (l', os'))"
  shows "allocs c n b (and_then r k)"
proof -
  obtain x l' os' where r: "r = (x, l', os')" by (cases r)
  with assms show ?thesis
    by (cases x) (auto simp: keeps_next_def allocs_def)
qed

lemma log_append_batch_allocs: "allocs (log_cfg l) (length rs) (next_offset l) (log_append_batch D rs (l, os))"
proof (cases "rs = []")
  case True
  then show ?thesis
    by (simp add: log_append_batch_def allocs_def)
next
  case False
  have "allocs (log_cfg l) (length rs) (next_offset l)
      (and_then (rotate_if_needed (sum_list (map wire_size rs)) (l, os)) (\<lambda>_ (l, os).
          let offsets = [next_offset l ..< next_offset l + length rs]; current_offset = next_offset l + length rs in
          and_then (encode_loop D (cfg_compression (log_cfg l)) rs (l\<lparr>encode_buf := [], actual_sizes := []\<rparr>, os))
            (\<lambda>_ (l, os).
            and_then (with_active_segment (segment_append (encode_buf l)) (l, os)) (\<lambda>file_pos (l, os).
            and_then (with_active_index (track_loop offsets (actual_sizes l) file_pos) (l, os)) (\<lambda>_ (l, os).
              (Ok offsets, l\<lparr>next_offset := current_offset\<rparr>, os))))))"
    unfolding Let_def
  proof (intro allocs_and_then [OF keeps_next_rotate refl refl], unfold prod.case)
    fix l1 :: log and os1
    assume l1: "next_offset l1 = next_offset l" "log_cfg l1 = log_cfg l"
    show "allocs (log_cfg l) (length rs) (next_offset l)
        (and_then (encode_loop D (cfg_compression (log_cfg l1)) rs (l1\<lparr>encode_buf := [], actual_sizes := []\<rparr>, os1))
          (\<lambda>_ (l, os).
            and_then (with_active_segment (segment_append (encode_buf l)) (l, os)) (\<lambda>file_pos (l, os).
            and_then (with_active_index (track_loop [next_offset l1 ..< next_offset l1 + length rs] (actual_sizes l) file_pos) (l, os)) (\<lambda>_ (l, os).
              (Ok [next_offset l1 ..< next_offset l1 + length rs], l\<lparr>next_offset := next_offset l1 + length rs\<rparr>, os)))))"
      by (rule allocs_and_then [OF keeps_next_encode_loop]) (simp_all add: l1 del: upt_Suc, rule allocs_and_then [OF keeps_next_active(1)], simp_all add: l1 del: upt_Suc,
          rule allocs_and_then [OF keeps_next_active(2)], simp_all add: l1 allocs_def del: upt_Suc)
  qed
  with False show ?thesis
    by (simp add: log_append_batch_def Let_def)
qed

lemma log_append_alloc:
  "case log_append D r (l, os) of
     (Ok offset, l', os') \<Rightarrow> offset = next_offset l \<and> next_offset l' = next_offset l + 1 \<and> log_cfg l' = log_cfg l
   | (_, l', os') \<Rightarrow> next_offset l' = next_offset l \<and> log_cfg l' = log_cfg l"
proof -
  obtain x1 l1 os1 where r1: "rotate_if_needed (wire_size r) (l, os) = (x1, l1, os1)"
    by (cases "rotate_if_needed (wire_size r) (l, os)")
  obtain y buf where r2: "encode_with D r [] (cfg_compression (log_cfg l1)) = (y, buf)"
    by (cases "encode_with D r [] (cfg_compression (log_cfg l1))")
  obtain x3 l3 os3 where r3: "with_active_segment (segment_append buf) (l1, os1) = (x3, l3, os3)"
    by (cases "with_active_segment (segment_append buf) (l1, os1)")
  obtain x4 l4 os4 where r4: "with_active_index (track_append (next_offset l3) (case x3 of Ok p \<Rightarrow> p | _ \<Rightarrow> 0) (case y of Ok n \<Rightarrow> n | _ \<Rightarrow> 0)) (l3, os3) = (x4, l4, os4)"
    by (cases "with_active_index (track_append (next_offset l3) (case x3 of Ok p \<Rightarrow> p | _ \<Rightarrow> 0) (case y of Ok n \<Rightarrow> n | _ \<Rightarrow> 0)) (l3, os3)")
  have "next_offset l1 = next_offset l" "log_cfg l1 = log_cfg l"
    using keeps_next_rotate [of "wire_size r" l os] unfolding r1 keeps_next_cong by simp_all
  moreover have "next_offset l3 = next_offset l1" "log_cfg l3 = log_cfg l1"
    using keeps_next_active(1) [of "segment_append buf" l1 os1] unfolding r3 keeps_next_cong by simp_all
  moreover have "next_offset l4 = next_offset l3" "log_cfg l4 = log_cfg l3"
    using keeps_next_active(2) [where l = l3 and os = os3 and g = "track_append (next_offset l3) (case x3 of Ok p \<Rightarrow> p | _ \<Rightarrow> 0) (case y of Ok n \<Rightarrow> n | _ \<Rightarrow> 0)"]
    unfolding r4 keeps_next_cong by simp_all
  ultimately show ?thesis
    using r1 r2 r3 r4 by (cases x1; cases y; cases x3; cases x4) (simp_all add: log_append_def Let_def)
qed

section \<open>The allocator interface\<close>

text \<open>\<open>runs alloc bs s\<close> performs the batches in order and collects the results.\<close>

primrec runs :: "('r list \<Rightarrow> 's \<Rightarrow> nat list res \<times> 's) \<Rightarrow> 'r list list \<Rightarrow> 's \<Rightarrow> nat list res list \<times> 's" where
  "runs alloc [] s = ([], s)"
| "runs alloc (b # bs) s = (case alloc b s of (x, s1) \<Rightarrow> (case runs alloc bs s1 of (xs, s2) \<Rightarrow> (x # xs, s2)))"

definition acked :: "nat list res list \<Rightarrow> nat list" where
  "acked xs = concat (map (\<lambda>x. case x of Ok offsets \<Rightarrow> offsets | _ \<Rightarrow> []) xs)"

locale offset_allocator =
  fixes alloc :: "'r list \<Rightarrow> 's \<Rightarrow> nat list res \<times> 's"
    and nxt :: "'s \<Rightarrow> nat"
  assumes alloc_ok: "alloc rs s = (Ok offsets, s') \<Longrightarrow> offsets = [nxt s ..< nxt s + length rs] \<and> nxt s' = nxt s + length rs"
    and alloc_failed: "alloc rs s = (x, s') \<Longrightarrow> (\<forall>offsets. x \<noteq> Ok offsets) \<Longrightarrow> nxt s' = nxt s"
begin

lemma nxt_mono: "alloc rs s = (x, s') \<Longrightarrow> nxt s \<le> nxt s'"
  using alloc_ok [of rs s _ s'] alloc_failed [of rs s x s'] by (cases x) auto

lemma acked_gapless: "runs alloc bs s = (xs, s') \<Longrightarrow> acked xs = [nxt s ..< nxt s'] \<and> nxt s \<le> nxt s'"
proof (induction bs arbitrary: s xs)
  case Nil
  then show ?case by (auto simp: acked_def)
next
  case (Cons b bs)
  obtain x s1 where x: "alloc b s = (x, s1)" by (cases "alloc b s")
  obtain ys where ys: "runs alloc bs s1 = (ys, s')" "xs = x # ys"
    using Cons.prems x by (cases "runs alloc bs s1") auto
  with Cons.IH have "acked ys = [nxt s1 ..< nxt s']" "nxt s1 \<le> nxt s'"
    by auto
  moreover have "(case x of Ok offsets \<Rightarrow> offsets | _ \<Rightarrow> []) = [nxt s ..< nxt s1]"
    using alloc_ok [of b s _ s1] alloc_failed [of b s x s1] x by (cases x) auto
  ultimately show ?case
    using ys(2) nxt_mono [OF x] upt_add_eq_append [of "nxt s" "nxt s1" "nxt s' - nxt s1"] by (simp add: acked_def)
qed

lemma acked_distinct: "runs alloc bs s = (xs, s') \<Longrightarrow> distinct (acked xs)"
  using acked_gapless by fastforce

end

interpretation log_alloc: offset_allocator "log_append_batch D" "\<lambda>s. next_offset (fst s)" for D
proof
  fix rs and s s' :: "log \<times> os" and offsets x
  obtain l os where s: "s = (l, os)" by (cases s)
  note a = log_append_batch_allocs [of l rs D os]
  show "offsets = [next_offset (fst s) ..< next_offset (fst s) + length rs] \<and> next_offset (fst s') = next_offset (fst s) + length rs"
    if "log_append_batch D rs s = (Ok offsets, s')"
    using a that by (simp add: s allocs_def)
  show "next_offset (fst s') = next_offset (fst s)" if "log_append_batch D rs s = (x, s')" "\<forall>offsets. x \<noteq> Ok offsets"
    using a that by (cases x) (auto simp: s allocs_def)
qed

text \<open>
  Offsets under failures. Whatever system calls fail during a sequence of batch appends, the
  offsets acknowledged, read in order, are exactly the offsets between the log's next offset
  before and after: none is given twice, none is skipped, none is taken by a failed batch.
\<close>

lemma acked_offsets_gapless:
  "case runs (log_append_batch D) batches (l, os) of (xs, l', os') \<Rightarrow> acked xs = [next_offset l ..< next_offset l']"
  using log_alloc.acked_gapless [of D batches "(l, os)"] by (auto split: prod.splits)

end
