(* ===== verification/Kafko_Partition.thy ===== *)
theory Kafko_Partition
  imports Kafko_Alloc
begin

text \<open>
  \<^verbatim>\<open>src/crates/kafko/src/partition.rs\<close>: one log and the writer task that owns it. Clients
  put commands in a bounded inbox; the task takes them in order, coalescing waiting appends into
  one batch, answers each over its own reply channel, and publishes the high-water mark. The task
  and its clients are the steps of a state machine; a reply channel is a number, and a reply sent
  is an entry of \<open>w_replies\<close>.
\<close>

section \<open>Commands and replies\<close>

datatype partition_command =
    Append kafko_record nat
  | AppendBatch "kafko_record list" nat
  | ReadAt nat nat
  | Sync nat
  | Poison
  | FailNextAppend io_kind

datatype reply =
    AppendReply "nat res"
  | BatchReply "nat list res"
  | ReadReply "kafko_record option res"
  | SyncReply "unit res"

fun reply_to :: "partition_command \<Rightarrow> nat list" where
  "reply_to (Append r i) = [i]"
| "reply_to (AppendBatch rs i) = [i]"
| "reply_to (ReadAt offset i) = [i]"
| "reply_to (Sync i) = [i]"
| "reply_to Poison = []"
| "reply_to (FailNextAppend kind) = []"

definition INBOX_CAPACITY :: nat where
  "INBOX_CAPACITY = 1024"

text \<open>The state of the writer task: its log and directory, and what it shares with clients.\<close>

record writer =
  w_log :: log
  w_os :: os
  w_hwm :: nat
  w_inbox :: "partition_command list"
  w_fail_next :: "io_kind option"
  w_replies :: "(nat \<times> reply) list"

definition injected_error :: "io_kind \<Rightarrow> kafko_error" where
  "injected_error kind = Io (IoError kind (io_kind_text kind))"

definition send_reply :: "nat \<Rightarrow> reply \<Rightarrow> writer \<Rightarrow> writer" where
  "send_reply i r w = w\<lparr>w_replies := w_replies w @ [(i, r)]\<rparr>"

definition publish :: "nat list \<Rightarrow> writer \<Rightarrow> writer" where
  "publish offsets w = (if offsets = [] then w else w\<lparr>w_hwm := last offsets + 1\<rparr>)"

section \<open>The writer task\<close>

definition flush_append_batch :: "deps \<Rightarrow> kafko_record list \<Rightarrow> nat list \<Rightarrow> writer \<Rightarrow> unit res \<times> writer" where
  "flush_append_batch D records replies w =
     (if records = [] then (Ok (), w)
      else case w_fail_next w of
        Some kind \<Rightarrow>
          (let synth = injected_error kind in
           (Ok (), w\<lparr>w_fail_next := None,
                     w_replies := w_replies w @ map (\<lambda>i. (i, AppendReply (Err (clone_error synth)))) replies\<rparr>))
      | None \<Rightarrow>
          (case log_append_batch D records (w_log w, w_os w) of
             (Ok offsets, l, os) \<Rightarrow>
               (let w = publish offsets (w\<lparr>w_log := l, w_os := os\<rparr>) in
                (Ok (), w\<lparr>w_replies := w_replies w @ map2 (\<lambda>offset i. (i, AppendReply (Ok offset))) offsets replies\<rparr>))
           | (Err e, l, os) \<Rightarrow>
               (Ok (), w\<lparr>w_log := l, w_os := os,
                         w_replies := w_replies w @ map (\<lambda>i. (i, AppendReply (Err (clone_error e)))) replies\<rparr>)
           | (Panic m, l, os) \<Rightarrow> (Panic m, w\<lparr>w_log := l, w_os := os\<rparr>)))"

definition flush_explicit_batch :: "deps \<Rightarrow> kafko_record list \<Rightarrow> nat \<Rightarrow> writer \<Rightarrow> unit res \<times> writer" where
  "flush_explicit_batch D records i w =
     (case w_fail_next w of
        Some kind \<Rightarrow> (Ok (), send_reply i (BatchReply (Err (injected_error kind))) (w\<lparr>w_fail_next := None\<rparr>))
      | None \<Rightarrow>
          (case log_append_batch D records (w_log w, w_os w) of
             (Ok offsets, l, os) \<Rightarrow>
               (Ok (), send_reply i (BatchReply (Ok offsets)) (publish offsets (w\<lparr>w_log := l, w_os := os\<rparr>)))
           | (Err e, l, os) \<Rightarrow> (Ok (), send_reply i (BatchReply (Err e)) (w\<lparr>w_log := l, w_os := os\<rparr>))
           | (Panic m, l, os) \<Rightarrow> (Panic m, w\<lparr>w_log := l, w_os := os\<rparr>)))"

text \<open>Running an operation of the log inside the task; a panic of the operation is a panic of the task.\<close>

definition on_log :: "('a res \<times> log \<times> os) \<Rightarrow> ('a res \<Rightarrow> writer \<Rightarrow> writer) \<Rightarrow> writer \<Rightarrow> unit res \<times> writer" where
  "on_log r k w =
     (case r of
        (Panic m, l, os) \<Rightarrow> (Panic m, w\<lparr>w_log := l, w_os := os\<rparr>)
      | (x, l, os) \<Rightarrow> (Ok (), k x (w\<lparr>w_log := l, w_os := os\<rparr>)))"

fun handle_single_command :: "deps \<Rightarrow> partition_command \<Rightarrow> writer \<Rightarrow> unit res \<times> writer" where
  "handle_single_command D (Append r i) w =
     (case w_fail_next w of
        Some kind \<Rightarrow> (Ok (), send_reply i (AppendReply (Err (injected_error kind))) (w\<lparr>w_fail_next := None\<rparr>))
      | None \<Rightarrow>
          on_log (log_append D r (w_log w, w_os w))
            (\<lambda>x w. send_reply i (AppendReply x) (case x of Ok offset \<Rightarrow> w\<lparr>w_hwm := offset + 1\<rparr> | _ \<Rightarrow> w)) w)"
| "handle_single_command D (AppendBatch records i) w = flush_explicit_batch D records i w"
| "handle_single_command D (ReadAt offset i) w =
     on_log (read_record_at D offset (w_log w, w_os w)) (\<lambda>x. send_reply i (ReadReply x)) w"
| "handle_single_command D (Sync i) w =
     on_log (log_sync (w_log w, w_os w)) (\<lambda>x. send_reply i (SyncReply x)) w"
| "handle_single_command D Poison w = (Panic ''intentional panic from poison command (test-only)'', w)"
| "handle_single_command D (FailNextAppend kind) w = (Ok (), w\<lparr>w_fail_next := Some kind\<rparr>)"

text \<open>
  The loop of \<^verbatim>\<open>process_with_batching\<close>: take waiting appends off the inbox until the batch is
  full, the inbox is empty, or another command turns up, which is taken too.
\<close>

function drain ::
  "nat \<Rightarrow> nat \<Rightarrow> kafko_record list \<Rightarrow> nat list \<Rightarrow> nat \<Rightarrow> partition_command list \<Rightarrow>
   kafko_record list \<times> nat list \<times> partition_command option \<times> partition_command list" where
  "drain max_records max_bytes records replies batch_bytes inbox =
     (if length records < max_records \<and> batch_bytes < max_bytes
      then case inbox of
             [] \<Rightarrow> (records, replies, None, [])
           | Append r i # rest \<Rightarrow>
               drain max_records max_bytes (records @ [r]) (replies @ [i]) (batch_bytes + wire_size r) rest
           | other # rest \<Rightarrow> (records, replies, Some other, rest)
      else (records, replies, None, inbox))"
  by pat_completeness auto
termination
  by (relation "measure (\<lambda>(mr, mb, rs, is, b, inbox). length inbox)") auto

declare drain.simps [simp del]

definition process_with_batching :: "deps \<Rightarrow> partition_command \<Rightarrow> writer \<Rightarrow> unit res \<times> writer" where
  "process_with_batching D first w =
     (case first of
        Append r i \<Rightarrow>
          (case drain (batch_max_records (log_cfg (w_log w))) (batch_max_bytes (log_cfg (w_log w))) [r] [i] (wire_size r) (w_inbox w) of
             (records, replies, other, inbox) \<Rightarrow>
               and_then (flush_append_batch D records replies (w\<lparr>w_inbox := inbox\<rparr>)) (\<lambda>_ w.
                 case other of None \<Rightarrow> (Ok (), w) | Some cmd \<Rightarrow> handle_single_command D cmd w))
      | cmd \<Rightarrow> handle_single_command D cmd w)"

section \<open>The partition\<close>

datatype status = Running | Finished | Panicked string

text \<open>
  \<open>p_sent\<close> records the reply channels of all commands ever accepted into the inbox, in order; the
  program does not keep it.
\<close>

record kpartition =
  p_writer :: writer
  p_status :: status
  p_closed :: bool
  p_sent :: "nat list"

definition partition_open :: "deps \<Rightarrow> log_config \<Rightarrow> os \<Rightarrow> kpartition res \<times> os" where
  "partition_open D cfg os =
     and_then (log_open D cfg os) (\<lambda>l os.
       (Ok \<lparr>p_writer = \<lparr>w_log = l, w_os = os, w_hwm = next_offset l, w_inbox = [], w_fail_next = None, w_replies = []\<rparr>,
            p_status = Running, p_closed = False, p_sent = []\<rparr>, os))"

definition high_water_mark :: "kpartition \<Rightarrow> nat" where
  "high_water_mark p = w_hwm (p_writer p)"

fun writer_death_error :: "status \<Rightarrow> kafko_error" where
  "writer_death_error (Panicked payload) = PartitionPanicked payload"
| "writer_death_error Finished = Closed"
| "writer_death_error Running = Closed"

text \<open>
  What a client call that waits on reply channel \<open>i\<close> returns: the reply if it was sent, the
  post-mortem error once the task is gone, nothing while it runs.
\<close>

definition await_reply :: "kpartition \<Rightarrow> nat \<Rightarrow> (reply + kafko_error) option" where
  "await_reply p i =
     (case map_of (w_replies (p_writer p)) i of
        Some r \<Rightarrow> Some (Inl r)
      | None \<Rightarrow> if p_status p = Running then None else Some (Inr (writer_death_error (p_status p))))"

definition set_writer :: "unit res \<times> writer \<Rightarrow> kpartition \<Rightarrow> kpartition" where
  "set_writer r p =
     (case r of
        (Panic m, w) \<Rightarrow> p\<lparr>p_writer := w, p_status := Panicked m\<rparr>
      | (_, w) \<Rightarrow> p\<lparr>p_writer := w\<rparr>)"

text \<open>One wake-up of the writer task on the command at the head of the inbox.\<close>

definition writer_wakeup :: "deps \<Rightarrow> kpartition \<Rightarrow> kpartition" where
  "writer_wakeup D p =
     (case w_inbox (p_writer p) of
        [] \<Rightarrow> p
      | cmd # rest \<Rightarrow> set_writer (process_with_batching D cmd ((p_writer p)\<lparr>w_inbox := rest\<rparr>)) p)"

definition retention_tick :: "kpartition \<Rightarrow> kpartition" where
  "retention_tick p =
     set_writer (on_log (apply_retention (w_log (p_writer p), w_os (p_writer p))) (\<lambda>_ w. w) (p_writer p)) p"

definition writer_exit :: "kpartition \<Rightarrow> kpartition" where
  "writer_exit p =
     (let p' = set_writer (on_log (log_sync (w_log (p_writer p), w_os (p_writer p))) (\<lambda>_ w. w) (p_writer p)) p
      in if p_status p' = Running then p'\<lparr>p_status := Finished\<rparr> else p')"

inductive partition_step :: "deps \<Rightarrow> kpartition \<Rightarrow> kpartition \<Rightarrow> bool" for D where
  client_send:
    "p_status p = Running \<Longrightarrow> \<not> p_closed p \<Longrightarrow> length (w_inbox (p_writer p)) < INBOX_CAPACITY \<Longrightarrow>
     set (reply_to cmd) \<inter> set (p_sent p) = {} \<Longrightarrow>
     partition_step D p (p\<lparr>p_writer := (p_writer p)\<lparr>w_inbox := w_inbox (p_writer p) @ [cmd]\<rparr>,
                           p_sent := p_sent p @ reply_to cmd\<rparr>)"
| receive: "p_status p = Running \<Longrightarrow> w_inbox (p_writer p) \<noteq> [] \<Longrightarrow> partition_step D p (writer_wakeup D p)"
| tick: "p_status p = Running \<Longrightarrow> partition_step D p (retention_tick p)"
| close_inbox: "partition_step D p (p\<lparr>p_closed := True\<rparr>)"
| finish: "p_status p = Running \<Longrightarrow> p_closed p \<Longrightarrow> w_inbox (p_writer p) = [] \<Longrightarrow> partition_step D p (writer_exit p)"
| environment: "partition_step D p (p\<lparr>p_writer := (p_writer p)\<lparr>w_os := (w_os (p_writer p))\<lparr>os_faults := fs, os_clock := t\<rparr>\<rparr>\<rparr>)"

section \<open>What one wake-up does\<close>

text \<open>The offsets acknowledged to clients, in the order the replies were sent.\<close>

fun reply_acks :: "reply \<Rightarrow> nat list" where
  "reply_acks (AppendReply (Ok offset)) = [offset]"
| "reply_acks (BatchReply (Ok offsets)) = offsets"
| "reply_acks _ = []"

definition acks :: "(nat \<times> reply) list \<Rightarrow> nat list" where
  "acks rs = concat (map (\<lambda>(i, r). reply_acks r) rs)"

text \<open>
  \<open>advances w is (x, w')\<close>: between \<open>w\<close> and \<open>w'\<close> the task has answered the channels
  \<open>is\<close> in order, all of them unless it panicked; the high-water mark follows the log and every
  offset it has passed was acknowledged, exactly once and in order.
\<close>

definition advances :: "writer \<Rightarrow> nat list \<Rightarrow> unit res \<times> writer \<Rightarrow> bool" where
  "advances w is = (\<lambda>(x, w').
     (w_hwm w = next_offset (w_log w) \<longrightarrow>
        w_hwm w' = next_offset (w_log w') \<and> w_hwm w \<le> w_hwm w' \<and>
        acks (w_replies w') = acks (w_replies w) @ [w_hwm w ..< w_hwm w']) \<and>
     log_cfg (w_log w') = log_cfg (w_log w) \<and>
     (\<exists>answered. w_replies w' = w_replies w @ answered \<and> (x = Ok () \<longrightarrow> map fst answered = is) \<and>
        (\<exists>rest. map fst answered @ rest = is)) \<and>
     (\<forall>e. x \<noteq> Err e))"

lemma acks_append [simp]: "acks (xs @ ys) = acks xs @ acks ys"
  by (simp add: acks_def)

lemma acks_simps [simp]: "acks [] = []" "acks ((i, r) # rs) = reply_acks r @ acks rs"
  by (simp_all add: acks_def)

lemma acks_errors [simp]: "acks (map (\<lambda>i. (i, AppendReply (Err e))) is) = []"
  by (induction "is") auto

lemma acks_zip: "length offsets = length is \<Longrightarrow> acks (map2 (\<lambda>offset i. (i, AppendReply (Ok offset))) offsets is) = offsets"
  by (induction offsets "is" rule: list_induct2) auto

lemma map_fst_zip_replies: "length offsets = length is \<Longrightarrow> map fst (map2 (\<lambda>offset i. (i, AppendReply (Ok offset))) offsets is) = is"
  by (induction offsets "is" rule: list_induct2) auto

lemma advances_inbox: "advances (w\<lparr>w_inbox := inbox\<rparr>) is r \<longleftrightarrow> advances w is r"
  by (simp add: advances_def)

lemma advances_refl: "advances w [] (Ok (), w)"
  by (simp add: advances_def)

lemma advances_and_then:
  assumes "advances w is r" and "\<And>w1. r = (Ok (), w1) \<Longrightarrow> advances w1 js (k () w1)"
  shows "advances w (is @ js) (and_then r k)"
proof -
  obtain x w1 where r: "r = (x, w1)" by (cases r)
  show ?thesis
  proof (cases x)
    case (Ok u)
    obtain y w2 where k: "k () w1 = (y, w2)" by (cases "k () w1")
    from assms r Ok k have 1: "advances w is (Ok (), w1)" and 2: "advances w1 js (y, w2)"
      by auto
    from 1 2 have "w_hwm w = next_offset (w_log w) \<longrightarrow> acks (w_replies w2) = acks (w_replies w) @ [w_hwm w ..< w_hwm w2]"
      using upt_add_eq_append [of "w_hwm w" "w_hwm w1" "w_hwm w2 - w_hwm w1"] by (auto simp: advances_def)
    with 1 2 r Ok k show ?thesis
      by (fastforce simp: advances_def)
  qed (use assms(1) r in \<open>auto simp: advances_def\<close>)
qed

lemma advances_on_log:
  assumes "keeps_next r (w_log w)"
    and "\<And>x w1. w_hwm (k x w1) = w_hwm w1 \<and> w_log (k x w1) = w_log w1 \<and> (\<exists>answered. w_replies (k x w1) = w_replies w1 @ answered \<and> map fst answered = is \<and> acks answered = [])"
  shows "advances w is (on_log r k w)"
proof -
  obtain x l os where r: "r = (x, l, os)" by (cases r)
  have nxt: "next_offset l = next_offset (w_log w)" "log_cfg l = log_cfg (w_log w)"
    using assms(1) by (simp_all add: r keeps_next_cong)
  show ?thesis
    using assms(2) [of x "w\<lparr>w_log := l, w_os := os\<rparr>"] nxt by (cases x) (auto simp: r on_log_def advances_def)
qed

lemma flush_append_batch_advances:
  assumes "length records = length is"
  shows "advances w is (flush_append_batch D records is w)"
proof (cases "records = [] \<or> w_fail_next w \<noteq> None")
  case True
  with assms show ?thesis
    by (auto simp: flush_append_batch_def advances_refl advances_def comp_def Let_def)
next
  case False
  obtain x l os where r: "log_append_batch D records (w_log w, w_os w) = (x, l, os)"
    by (cases "log_append_batch D records (w_log w, w_os w)")
  have a: "allocs (log_cfg (w_log w)) (length records) (next_offset (w_log w)) (x, l, os)"
    using log_append_batch_allocs [of "w_log w" records D "w_os w"] r by simp
  show ?thesis
  proof (cases x)
    case (Ok offsets)
    with a have offs: "offsets = [next_offset (w_log w) ..< next_offset (w_log w) + length records]" "next_offset l = next_offset (w_log w) + length records"
      "log_cfg l = log_cfg (w_log w)"
      by (auto simp: allocs_def)
    moreover have "0 < length records"
      using False by simp
    ultimately have "length offsets = length is" "offsets \<noteq> []" "last offsets + 1 = next_offset l"
      using assms by (simp_all del: upt_Suc)
    with False r Ok offs acks_zip [of offsets "is"] map_fst_zip_replies [of offsets "is"] show ?thesis
      by (auto simp: flush_append_batch_def advances_def publish_def Let_def simp del: upt_Suc)
  qed (use False r a in \<open>auto simp: flush_append_batch_def advances_def allocs_def comp_def\<close>)
qed

lemma flush_explicit_batch_advances: "advances w [i] (flush_explicit_batch D records i w)"
proof (cases "w_fail_next w")
  case (Some kind)
  then show ?thesis
    by (simp add: flush_explicit_batch_def advances_def send_reply_def)
next
  case None
  obtain x l os where r: "log_append_batch D records (w_log w, w_os w) = (x, l, os)"
    by (cases "log_append_batch D records (w_log w, w_os w)")
  have a: "allocs (log_cfg (w_log w)) (length records) (next_offset (w_log w)) (x, l, os)"
    using log_append_batch_allocs [of "w_log w" records D "w_os w"] r by simp
  show ?thesis
  proof (cases x)
    case (Ok offsets)
    with a have "offsets = [next_offset (w_log w) ..< next_offset (w_log w) + length records]" "next_offset l = next_offset (w_log w) + length records"
      "log_cfg l = log_cfg (w_log w)"
      by (auto simp: allocs_def)
    with None r Ok show ?thesis
      by (cases "records = []") (auto simp: flush_explicit_batch_def advances_def send_reply_def publish_def simp del: upt_Suc)
  qed (use None r a in \<open>auto simp: flush_explicit_batch_def advances_def send_reply_def allocs_def\<close>)
qed

lemma handle_single_command_advances: "advances w (reply_to cmd) (handle_single_command D cmd w)"
proof (cases cmd)
  case (Append r i)
  show ?thesis
  proof (cases "w_fail_next w")
    case None
    with Append log_append_alloc [where D = D and r = r and l = "w_log w" and os = "w_os w"] show ?thesis
      by (cases "log_append D r (w_log w, w_os w)"; cases "fst (log_append D r (w_log w, w_os w))")
        (auto simp: on_log_def advances_def send_reply_def)
  qed (use Append in \<open>simp add: advances_def send_reply_def\<close>)
next
  case (AppendBatch rs i)
  then show ?thesis by (simp add: flush_explicit_batch_advances)
next
  case (ReadAt offset i)
  then show ?thesis
    by (auto intro!: advances_on_log keeps_next_read simp: send_reply_def)
next
  case (Sync i)
  then show ?thesis
    by (auto intro!: advances_on_log keeps_next_sync simp: send_reply_def)
qed (auto simp: advances_def)

abbreviation inbox_replies :: "partition_command list \<Rightarrow> nat list" where
  "inbox_replies inbox \<equiv> concat (map reply_to inbox)"

lemma drain_spec:
  assumes "drain mr mb records replies b inbox = (rs, is, other, inbox')" and "length records = length replies"
  shows "length rs = length is \<and> length inbox' \<le> length inbox \<and>
         replies @ inbox_replies inbox = is @ (case other of None \<Rightarrow> [] | Some cmd \<Rightarrow> reply_to cmd) @ inbox_replies inbox'"
  using assms
proof (induction mr mb records replies b inbox rule: drain.induct)
  case (1 mr mb records replies b inbox)
  show ?case
  proof (cases "length records < mr \<and> b < mb")
    case True
    show ?thesis
    proof (cases inbox)
      case (Cons cmd rest)
      with 1 True show ?thesis
        by (cases cmd) (auto simp: drain.simps [of mr mb records])
    qed (use 1 True in \<open>auto simp: drain.simps [of mr mb records]\<close>)
  qed (use 1 in \<open>auto simp: drain.simps [of mr mb records]\<close>)
qed

lemma handle_single_command_inbox: "w_inbox (snd (handle_single_command D cmd w)) = w_inbox w"
  by (cases cmd)
    (auto simp: on_log_def flush_explicit_batch_def send_reply_def publish_def split: option.splits res.splits prod.splits)

lemma flush_append_batch_inbox: "w_inbox (snd (flush_append_batch D records is w)) = w_inbox w"
  by (auto simp: flush_append_batch_def publish_def Let_def split: option.splits res.splits prod.splits)

lemma process_with_batching_advances:
  assumes "process_with_batching D cmd w = (x, w')"
  shows "\<exists>is. advances w is (x, w') \<and> length (w_inbox w') \<le> length (w_inbox w) \<and>
           reply_to cmd @ inbox_replies (w_inbox w) = is @ inbox_replies (w_inbox w')"
proof (cases "\<exists>r i. cmd = Append r i")
  case True
  then obtain r i where cmd: "cmd = Append r i" by blast
  obtain rs "is" other inbox where d: "drain (batch_max_records (log_cfg (w_log w))) (batch_max_bytes (log_cfg (w_log w))) [r] [i] (wire_size r) (w_inbox w)
      = (rs, is, other, inbox)"
    by (metis prod_cases4)
  from drain_spec [OF d] have spec: "length rs = length is" "length inbox \<le> length (w_inbox w)"
    "[i] @ inbox_replies (w_inbox w) = is @ (case other of None \<Rightarrow> [] | Some cmd \<Rightarrow> reply_to cmd) @ inbox_replies inbox"
    by auto
  let ?k = "\<lambda>_ w. case other of None \<Rightarrow> (Ok (), w) | Some cmd \<Rightarrow> handle_single_command D cmd w"
  have p: "and_then (flush_append_batch D rs is (w\<lparr>w_inbox := inbox\<rparr>)) ?k = (x, w')"
    using assms cmd d by (simp add: process_with_batching_def)
  have "advances (w\<lparr>w_inbox := inbox\<rparr>) (is @ (case other of None \<Rightarrow> [] | Some cmd \<Rightarrow> reply_to cmd))
      (and_then (flush_append_batch D rs is (w\<lparr>w_inbox := inbox\<rparr>)) ?k)"
    by (rule advances_and_then [OF flush_append_batch_advances [OF spec(1)]])
      (auto split: option.splits intro: handle_single_command_advances advances_refl)
  then have "advances w (is @ (case other of None \<Rightarrow> [] | Some cmd \<Rightarrow> reply_to cmd)) (x, w')"
    unfolding p advances_inbox .
  moreover have "w_inbox w' = inbox"
  proof -
    obtain y w1 where f: "flush_append_batch D rs is (w\<lparr>w_inbox := inbox\<rparr>) = (y, w1)"
      by (cases "flush_append_batch D rs is (w\<lparr>w_inbox := inbox\<rparr>)")
    then have "w_inbox w1 = inbox"
      using flush_append_batch_inbox [of D rs "is" "w\<lparr>w_inbox := inbox\<rparr>"] by simp
    moreover have "w_inbox (snd (?k () w1)) = w_inbox w1"
      by (simp add: handle_single_command_inbox split: option.split)
    ultimately show ?thesis
      using p f by (cases y) auto
  qed
  ultimately show ?thesis
    using spec cmd by auto
next
  case False
  then have h: "process_with_batching D cmd w = handle_single_command D cmd w"
    by (cases cmd) (auto simp: process_with_batching_def)
  with assms handle_single_command_advances [of w cmd D] handle_single_command_inbox [of D cmd w] show ?thesis
    by (intro exI [of _ "reply_to cmd"]) auto
qed

lemma wakeup_shrinks:
  assumes "w_inbox (p_writer p) \<noteq> []"
  shows "length (w_inbox (p_writer (writer_wakeup D p))) < length (w_inbox (p_writer p))"
proof -
  obtain cmd rest where c: "w_inbox (p_writer p) = cmd # rest"
    using assms by (cases "w_inbox (p_writer p)") auto
  obtain x w' where r: "process_with_batching D cmd ((p_writer p)\<lparr>w_inbox := rest\<rparr>) = (x, w')"
    by (cases "process_with_batching D cmd ((p_writer p)\<lparr>w_inbox := rest\<rparr>)")
  from process_with_batching_advances [OF r] have "length (w_inbox w') \<le> length rest"
    by auto
  with c r show ?thesis
    by (cases x) (auto simp: writer_wakeup_def set_writer_def)
qed

section \<open>Client calls\<close>

text \<open>
  \<open>run_inbox\<close> gives the writer task turns until its inbox is empty or it is gone. A client call
  puts its command at the end of the inbox, under a channel of its own, and returns when the
  writer has answered; what the inbox held before is what other clients had sent.
\<close>

function run_inbox :: "deps \<Rightarrow> kpartition \<Rightarrow> kpartition" where
  "run_inbox D p =
     (if p_status p = Running \<and> w_inbox (p_writer p) \<noteq> [] then run_inbox D (writer_wakeup D p) else p)"
  by pat_completeness auto
termination
  by (relation "measure (\<lambda>(D, p). length (w_inbox (p_writer p)))") (auto intro: wakeup_shrinks)

declare run_inbox.simps [simp del]

definition enqueue :: "partition_command \<Rightarrow> kpartition \<Rightarrow> kpartition" where
  "enqueue cmd p = p\<lparr>p_writer := (p_writer p)\<lparr>w_inbox := w_inbox (p_writer p) @ [cmd]\<rparr>, p_sent := p_sent p @ reply_to cmd\<rparr>"

definition fresh_channel :: "kpartition \<Rightarrow> nat" where
  "fresh_channel p = Suc (foldl max 0 (p_sent p))"

definition partition_call :: "deps \<Rightarrow> (nat \<Rightarrow> partition_command) \<Rightarrow> kpartition \<Rightarrow> (reply + kafko_error) option \<times> kpartition" where
  "partition_call D cmd p =
     (if p_status p \<noteq> Running \<or> p_closed p then (Some (Inr (writer_death_error (p_status p))), p)
      else let i = fresh_channel p; p' = run_inbox D (enqueue (cmd i) p) in (await_reply p' i, p'))"

definition reply_error :: "(reply + kafko_error) option \<Rightarrow> 'a res" where
  "reply_error r = (case r of Some (Inr e) \<Rightarrow> Err e | _ \<Rightarrow> Panic ''no reply'')"

definition partition_append :: "deps \<Rightarrow> kafko_record \<Rightarrow> kpartition \<Rightarrow> nat res \<times> kpartition" where
  "partition_append D r p =
     (case partition_call D (Append r) p of
        (Some (Inl (AppendReply x)), p') \<Rightarrow> (x, p')
      | (x, p') \<Rightarrow> (reply_error x, p'))"

definition partition_append_batch :: "deps \<Rightarrow> kafko_record list \<Rightarrow> kpartition \<Rightarrow> nat list res \<times> kpartition" where
  "partition_append_batch D records p =
     (if records = [] then (Ok [], p)
      else case partition_call D (AppendBatch records) p of
        (Some (Inl (BatchReply x)), p') \<Rightarrow> (x, p')
      | (x, p') \<Rightarrow> (reply_error x, p'))"

definition partition_read :: "deps \<Rightarrow> nat \<Rightarrow> kpartition \<Rightarrow> kafko_record option res \<times> kpartition" where
  "partition_read D offset p =
     (case partition_call D (ReadAt offset) p of
        (Some (Inl (ReadReply x)), p') \<Rightarrow> (x, p')
      | (x, p') \<Rightarrow> (reply_error x, p'))"

definition partition_sync :: "deps \<Rightarrow> kpartition \<Rightarrow> unit res \<times> kpartition" where
  "partition_sync D p =
     (case partition_call D Sync p of
        (Some (Inl (SyncReply x)), p') \<Rightarrow> (x, p')
      | (x, p') \<Rightarrow> (reply_error x, p'))"

text \<open>The two test seams only put a command in the inbox; nobody answers it.\<close>

definition inbox_send :: "deps \<Rightarrow> partition_command \<Rightarrow> kpartition \<Rightarrow> unit res \<times> kpartition" where
  "inbox_send D cmd p =
     (if p_status p \<noteq> Running \<or> p_closed p then (Err Closed, p) else (Ok (), run_inbox D (enqueue cmd p)))"

definition poison_for_test :: "deps \<Rightarrow> kpartition \<Rightarrow> unit res \<times> kpartition" where
  "poison_for_test D p = inbox_send D Poison p"

definition fail_next_append_for_test :: "deps \<Rightarrow> io_kind \<Rightarrow> kpartition \<Rightarrow> unit res \<times> kpartition" where
  "fail_next_append_for_test D kind p = inbox_send D (FailNextAppend kind) p"

definition partition_shutdown :: "deps \<Rightarrow> kpartition \<Rightarrow> kpartition" where
  "partition_shutdown D p =
     (let p' = run_inbox D (p\<lparr>p_closed := True\<rparr>) in if p_status p' = Running then writer_exit p' else p')"

section \<open>The invariant of a partition\<close>

text \<open>
  \<open>partition_inv h p\<close>: the high-water mark is the log's next offset; the offsets acknowledged
  since the partition was opened at \<open>h\<close> are exactly those between \<open>h\<close> and the high-water mark;
  replies were sent in the order the commands were accepted, and while the task runs the commands
  not yet answered are those still in the inbox.
\<close>

definition partition_inv :: "nat \<Rightarrow> kpartition \<Rightarrow> bool" where
  "partition_inv h p \<longleftrightarrow>
     w_hwm (p_writer p) = next_offset (w_log (p_writer p)) \<and> h \<le> w_hwm (p_writer p) \<and>
     acks (w_replies (p_writer p)) = [h ..< w_hwm (p_writer p)] \<and>
     (\<exists>rest. map fst (w_replies (p_writer p)) @ rest = p_sent p \<and>
        (p_status p = Running \<longrightarrow> rest = inbox_replies (w_inbox (p_writer p)))) \<and>
     distinct (p_sent p)"

lemma partition_inv_set_writer:
  assumes inv: "partition_inv h p" and run: "p_status p = Running"
    and adv: "advances (p_writer p) is (x, w')"
    and inbox: "inbox_replies (w_inbox (p_writer p)) = is @ inbox_replies (w_inbox w')"
  shows "partition_inv h (set_writer (x, w') p)"
proof -
  let ?w = "p_writer p"
  from inv have hwm: "w_hwm ?w = next_offset (w_log ?w)" "h \<le> w_hwm ?w" "acks (w_replies ?w) = [h ..< w_hwm ?w]"
    and sent: "map fst (w_replies ?w) @ inbox_replies (w_inbox ?w) = p_sent p" "distinct (p_sent p)"
    using run by (auto simp: partition_inv_def)
  from adv hwm(1) have w': "w_hwm w' = next_offset (w_log w')" "w_hwm ?w \<le> w_hwm w'"
    "acks (w_replies w') = acks (w_replies ?w) @ [w_hwm ?w ..< w_hwm w']"
    by (auto simp: advances_def)
  from adv obtain answered rest where a: "w_replies w' = w_replies ?w @ answered" "x = Ok () \<longrightarrow> map fst answered = is"
    "map fst answered @ rest = is" "\<forall>e. x \<noteq> Err e"
    by (auto simp: advances_def)
  have acked: "acks (w_replies w') = [h ..< w_hwm w']"
    using w'(2,3) hwm(2,3) upt_add_eq_append [of h "w_hwm ?w" "w_hwm w' - w_hwm ?w"] by simp
  have "map fst (w_replies w') @ rest @ inbox_replies (w_inbox w') = p_sent p"
    using a(1) sent(1) inbox unfolding a(3) [symmetric] by simp
  moreover have "x = Ok () \<longrightarrow> rest = []"
    using a(2,3) by auto
  ultimately show ?thesis
    using w' acked hwm(2) sent(2) run a(4) by (cases x) (auto simp: partition_inv_def set_writer_def)
qed

lemma advances_os: "advances (w\<lparr>w_os := os\<rparr>) is r \<longleftrightarrow> advances w is r"
  by (simp add: advances_def)

lemma partition_inv_step: "partition_step D p p' \<Longrightarrow> partition_inv h p \<Longrightarrow> partition_inv h p'"
proof (induction rule: partition_step.induct)
  case (client_send p cmd)
  then show ?case
    by (cases cmd) (auto simp: partition_inv_def)
next
  case (receive p)
  obtain cmd rest where c: "w_inbox (p_writer p) = cmd # rest"
    using receive(2) by (cases "w_inbox (p_writer p)") auto
  obtain x w' where r: "process_with_batching D cmd ((p_writer p)\<lparr>w_inbox := rest\<rparr>) = (x, w')"
    by (cases "process_with_batching D cmd ((p_writer p)\<lparr>w_inbox := rest\<rparr>)")
  from process_with_batching_advances [OF r] obtain "is" where
    "advances (p_writer p) is (x, w')" "reply_to cmd @ inbox_replies rest = is @ inbox_replies (w_inbox w')"
    by (auto simp: advances_inbox)
  with partition_inv_set_writer [OF receive(3,1)] c r show ?case
    by (simp add: writer_wakeup_def)
next
  case (tick p)
  have "advances (p_writer p) [] (on_log (apply_retention (w_log (p_writer p), w_os (p_writer p))) (\<lambda>_ w. w) (p_writer p))"
    by (rule advances_on_log [OF keeps_next_retention]) auto
  then show ?case
    using partition_inv_set_writer [OF tick(2,1)]
    by (cases "on_log (apply_retention (w_log (p_writer p), w_os (p_writer p))) (\<lambda>_ w. w) (p_writer p)")
      (auto simp: retention_tick_def on_log_def split: res.splits prod.splits)
next
  case (close_inbox p)
  then show ?case by (simp add: partition_inv_def)
next
  case (finish p)
  let ?r = "on_log (log_sync (w_log (p_writer p), w_os (p_writer p))) (\<lambda>_ w. w) (p_writer p)"
  have "advances (p_writer p) [] ?r"
    by (rule advances_on_log [OF keeps_next_sync]) auto
  then have "partition_inv h (set_writer ?r p)"
    using partition_inv_set_writer [OF finish(4,1)]
    by (cases ?r) (auto simp: on_log_def split: res.splits prod.splits)
  then show ?case
    by (auto simp: writer_exit_def Let_def partition_inv_def)
next
  case (environment p fs t)
  then show ?case by (simp add: partition_inv_def)
qed

lemma partition_inv_reachable: "(partition_step D)\<^sup>*\<^sup>* p p' \<Longrightarrow> partition_inv h p \<Longrightarrow> partition_inv h p'"
  by (induction rule: rtranclp_induct) (auto intro: partition_inv_step)

lemma partition_open_inv: "partition_open D cfg os = (Ok p, os') \<Longrightarrow> partition_inv (high_water_mark p) p"
  by (auto simp: partition_open_def and_then_eq_Ok partition_inv_def high_water_mark_def)

section \<open>Properties\<close>

text \<open>
  C6: the high-water mark. In every state a partition can reach, whatever clients send, however
  wake-ups, retention ticks and shutdown interleave and whatever system calls fail, the published
  high-water mark is the next offset of the log, and the offsets acknowledged so far, read in the
  order of the replies, are exactly those from the opening high-water mark up to it.
\<close>

theorem hwm_acks:
  assumes "partition_open D cfg os = (Ok p, os')" and "(partition_step D)\<^sup>*\<^sup>* p p'"
  shows "high_water_mark p' = next_offset (w_log (p_writer p')) \<and>
         acks (w_replies (p_writer p')) = [high_water_mark p ..< high_water_mark p']"
  using partition_inv_reachable [OF assms(2) partition_open_inv [OF assms(1)]]
  by (simp add: partition_inv_def high_water_mark_def)

text \<open>
  C19: every command is answered once, in order. The reply channels used so far are a prefix of
  those of the accepted commands, in the order they were accepted and without repetition; while
  the writer task runs, the commands without a reply are exactly those still in the inbox.
\<close>

theorem replies_in_order:
  assumes "partition_open D cfg os = (Ok p, os')" and "(partition_step D)\<^sup>*\<^sup>* p p'"
  shows "distinct (map fst (w_replies (p_writer p'))) \<and>
         (\<exists>rest. map fst (w_replies (p_writer p')) @ rest = p_sent p' \<and>
            (p_status p' = Running \<longrightarrow> rest = inbox_replies (w_inbox (p_writer p'))))"
proof -
  have inv: "partition_inv (high_water_mark p) p'"
    by (rule partition_inv_reachable [OF assms(2) partition_open_inv [OF assms(1)]])
  then obtain rest where rest: "map fst (w_replies (p_writer p')) @ rest = p_sent p'"
    "p_status p' = Running \<longrightarrow> rest = inbox_replies (w_inbox (p_writer p'))" and dist: "distinct (p_sent p')"
    by (auto simp: partition_inv_def)
  from dist have "distinct (map fst (w_replies (p_writer p')))"
    unfolding rest(1) [symmetric] by simp
  with rest show ?thesis by blast
qed

text \<open>Giving the task turns until its inbox is empty is a run of the state machine.\<close>

lemma run_inbox_run:
  "(partition_step D)\<^sup>*\<^sup>* p (run_inbox D p) \<and> p_sent (run_inbox D p) = p_sent p \<and>
   (p_status (run_inbox D p) = Running \<longrightarrow> w_inbox (p_writer (run_inbox D p)) = [])"
proof (induction D p rule: run_inbox.induct)
  case (1 D p)
  show ?case
  proof (cases "p_status p = Running \<and> w_inbox (p_writer p) \<noteq> []")
    case True
    have "p_sent (writer_wakeup D p) = p_sent p"
      by (simp add: writer_wakeup_def set_writer_def split: list.split prod.split res.split)
    with 1 [OF True] True converse_rtranclp_into_rtranclp [of "partition_step D" p "writer_wakeup D p"] show ?thesis
      by (simp add: run_inbox.simps [of D p] partition_step.receive)
  qed (auto simp: run_inbox.simps [of D p])
qed

text \<open>
  C29: every call returns. In every state a partition can reach, with whatever is in the inbox:
  give the writer task turns, and after finitely many of them every client call that was ever
  accepted has an outcome, a reply, or the error that says how the task ended.
\<close>

theorem every_call_returns:
  assumes "partition_open D cfg os = (Ok p, os')" and "(partition_step D)\<^sup>*\<^sup>* p p'" and "i \<in> set (p_sent p')"
  shows "(partition_step D)\<^sup>*\<^sup>* p' (run_inbox D p') \<and> (\<exists>outcome. await_reply (run_inbox D p') i = Some outcome)"
proof -
  let ?q = "run_inbox D p'"
  have run: "(partition_step D)\<^sup>*\<^sup>* p' ?q" "p_sent ?q = p_sent p'" "p_status ?q = Running \<longrightarrow> w_inbox (p_writer ?q) = []"
    using run_inbox_run [of D p'] by blast+
  have "partition_inv (high_water_mark p) ?q"
    by (rule partition_inv_reachable [OF rtranclp_trans [OF assms(2) run(1)] partition_open_inv [OF assms(1)]])
  then have "p_status ?q = Running \<longrightarrow> map fst (w_replies (p_writer ?q)) = p_sent p'"
    using run(2,3) by (auto simp: partition_inv_def)
  then have "p_status ?q = Running \<longrightarrow> i \<in> set (map fst (w_replies (p_writer ?q)))"
    using assms(3) by (simp del: set_map)
  then have "map_of (w_replies (p_writer ?q)) i \<noteq> None" if "p_status ?q = Running"
    using that by (simp add: map_of_eq_None_iff)
  with run(1) show ?thesis
    by (auto simp: await_reply_def split: option.split)
qed

text \<open>Replies are only ever added, and nothing happens to a task that is gone.\<close>

lemma replies_grow:
  "partition_step D p p' \<Longrightarrow>
   \<exists>extra. w_replies (p_writer p') = w_replies (p_writer p) @ extra \<and>
     (p_status p \<noteq> Running \<longrightarrow> extra = [] \<and> p_status p' = p_status p)"
proof (induction rule: partition_step.induct)
  case (receive p)
  obtain cmd rest where c: "w_inbox (p_writer p) = cmd # rest"
    using receive(2) by (cases "w_inbox (p_writer p)") auto
  obtain x w' where r: "process_with_batching D cmd ((p_writer p)\<lparr>w_inbox := rest\<rparr>) = (x, w')"
    by (cases "process_with_batching D cmd ((p_writer p)\<lparr>w_inbox := rest\<rparr>)")
  from process_with_batching_advances [OF r] obtain extra where "w_replies w' = w_replies (p_writer p) @ extra"
    by (auto simp: advances_def)
  with receive c r show ?case
    by (cases x) (auto simp: writer_wakeup_def set_writer_def)
qed (auto simp: retention_tick_def writer_exit_def set_writer_def on_log_def Let_def split: res.splits prod.splits)

text \<open>
  Outcomes are final. Once the outcome of a client's call is settled, by a reply or by the
  death of the writer task, with \<^verbatim>\<open>PartitionPanicked\<close> and the panic's payload or
  \<^verbatim>\<open>Closed\<close>, nothing that happens later changes it.
\<close>

lemma await_stable:
  assumes "(partition_step D)\<^sup>*\<^sup>* p p'" and "await_reply p i = Some outcome"
  shows "await_reply p' i = Some outcome"
  using assms
proof (induction rule: rtranclp_induct)
  case (step q q')
  with replies_grow [OF step.hyps(2)] show ?case
    by (cases "map_of (w_replies (p_writer q)) i"; cases "p_status q") (auto simp: await_reply_def map_add_def split: option.splits)
qed

end
