(* ===== verification/Kafko_LogInv.thy ===== *)
theory Kafko_LogInv
  imports Kafko_Log
begin

text \<open>
  The representation invariant of the log, and what appending and rotating do to it. A log is
  described by the offset \<open>start\<close> of its first record and the list \<open>fss\<close> of its segments'
  contents, each a list of (frame, record) pairs: the segment's file is the concatenation of the
  frames, and the record is what each frame decodes to.
\<close>

section \<open>Representation\<close>

type_synonym framed = "bytes \<times> kafko_record"

abbreviation wire :: "framed list \<Rightarrow> bytes" where
  "wire fs \<equiv> concat (map fst fs)"

abbreviation frame_sizes :: "framed list \<Rightarrow> nat list" where
  "frame_sizes fs \<equiv> map (\<lambda>p. length (fst p)) fs"

definition seg_repr :: "deps \<Rightarrow> os \<Rightarrow> indexed_segment \<Rightarrow> framed list \<Rightarrow> bool" where
  "seg_repr D os s fs \<longleftrightarrow>
     segment_ok os (the_segment s) (wire fs) \<and> index_ok os (the_index s) (frame_sizes fs) \<and>
     idx_base_offset (the_index s) = base_of s \<and> (\<forall>(f, r) \<in> set fs. wire_frame D f r)"

primrec starts :: "nat \<Rightarrow> 'a list list \<Rightarrow> nat list" where
  "starts n [] = []"
| "starts n (fs # fss) = n # starts (n + length fs) fss"

definition log_files :: "log \<Rightarrow> string set" where
  "log_files l = (\<Union>s \<in> set (segments l). {segment_path (base_of s), index_path (base_of s)})"

definition log_repr :: "deps \<Rightarrow> log \<Rightarrow> os \<Rightarrow> nat \<Rightarrow> framed list list \<Rightarrow> bool" where
  "log_repr D l os start fss \<longleftrightarrow>
     os_wf os \<and> segments l \<noteq> [] \<and> list_all2 (seg_repr D os) (segments l) fss \<and>
     map base_of (segments l) = starts start fss \<and> list_all (\<lambda>fs. fs \<noteq> []) (butlast fss) \<and>
     next_offset l = start + length (concat fss) \<and>
     (\<forall>name. os_file os name \<noteq> None \<longrightarrow> name \<in> log_files l)"

section \<open>Segment starts\<close>

lemma starts_append: "starts n (xs @ ys) = starts n xs @ starts (n + length (concat xs)) ys"
  by (induction xs arbitrary: n) (auto simp: add.assoc)

lemma length_starts [simp]: "length (starts n fss) = length fss"
  by (induction fss arbitrary: n) auto

lemma starts_bounds: "x \<in> set (starts n fss) \<Longrightarrow> n \<le> x \<and> x \<le> n + length (concat fss)"
  by (induction fss arbitrary: n) fastforce+

lemma starts_less:
  "list_all (\<lambda>fs. fs \<noteq> []) fss \<Longrightarrow> x \<in> set (starts n fss) \<Longrightarrow> x < n + length (concat fss)"
proof (induction fss arbitrary: n)
  case (Cons fs fss)
  then show ?case
    by (cases "x = n") fastforce+
qed simp

lemma sorted_starts: "list_all (\<lambda>fs. fs \<noteq> []) (butlast fss) \<Longrightarrow> sorted_wrt (<) (starts n fss)"
proof (induction fss arbitrary: n)
  case (Cons fs fss)
  show ?case
  proof (cases "fss = []")
    case True
    then show ?thesis by simp
  next
    case False
    with Cons.prems have "fs \<noteq> []" and "list_all (\<lambda>fs. fs \<noteq> []) (butlast fss)"
      by auto
    with Cons.IH [of "n + length fs"] show ?thesis
      using starts_bounds [of _ "n + length fs" fss] by (cases fs) fastforce+
  qed
qed simp

lemma starts_nth: "i < length fss \<Longrightarrow> starts n fss ! i = n + length (concat (take i fss))"
proof (induction fss arbitrary: n i)
  case (Cons fs fss)
  then show ?case by (cases i) auto
qed simp

lemma frame_sizes_sum: "sum_list (frame_sizes fs) = length (wire fs)"
  by (induction fs) auto

lemma frame_sizes_take: "sum_list (take i (frame_sizes fs)) = length (wire (take i fs))"
  by (simp add: take_map frame_sizes_sum)

lemma wire_take_drop: "wire (take i fs) @ wire (drop i fs) = wire fs"
  by (metis append_take_drop_id concat_append map_append)

section \<open>File names\<close>

lemma last_segment_path: "last (segment_path n) = CHR ''g''"
  by (simp add: segment_path_def)

lemma last_index_path: "last (index_path n) = CHR ''x''"
  by (simp add: index_path_def)

lemma segment_index_path_neq [simp]: "segment_path a \<noteq> index_path b" "index_path b \<noteq> segment_path a"
  using last_segment_path [of a] last_index_path [of b] by force+

lemma with_index_extension_segment_path [simp]: "with_index_extension (segment_path n) = index_path n"
  by (simp add: with_index_extension_def segment_path_def index_path_def FILENAME_DIGITS_def INDEX_FILENAME_DIGITS_def)

section \<open>Frame conditions\<close>

definition own_files :: "nat \<Rightarrow> string set" where
  "own_files base = {segment_path base, index_path base}"

lemma own_files_disjoint: "a \<noteq> b \<Longrightarrow> x \<in> own_files a \<Longrightarrow> x \<notin> own_files b"
  by (auto simp: own_files_def)

lemma seg_repr_paths:
  assumes "seg_repr D os s fs"
  shows "seg_path (the_segment s) = segment_path (base_of s)" "idx_path (the_index s) = index_path (base_of s)"
    and "h_name (seg_file (the_segment s)) = segment_path (base_of s)"
  using assms by (auto simp: seg_repr_def segment_ok_def index_ok_def)

lemma seg_repr_frame:
  assumes "seg_repr D os s fs" and "only_touches S os os'" and "S \<inter> own_files (base_of s) = {}"
  shows "seg_repr D os' s fs"
  using assms seg_repr_paths [OF assms(1)]
  by (auto simp: seg_repr_def own_files_def intro: segment_ok_frame index_ok_frame)

lemma list_all2_seg_repr_frame:
  assumes "list_all2 (seg_repr D os) ss fss" and "only_touches S os os'"
    and "\<forall>s \<in> set ss. S \<inter> own_files (base_of s) = {}"
  shows "list_all2 (seg_repr D os') ss fss"
  using assms(1,3) by (induction rule: list_all2_induct) (auto intro: seg_repr_frame [OF _ assms(2)])

section \<open>The active segment\<close>

text \<open>
  \<open>log_repr\<close> with the active segment split off: the form in which every operation on the tail
  of the log is verified.
\<close>

lemma log_repr_snoc:
  assumes "segments l = ss @ [s]"
  shows "log_repr D l os start fss \<longleftrightarrow>
           (\<exists>fss' fs. fss = fss' @ [fs] \<and> os_wf os \<and> list_all2 (seg_repr D os) ss fss' \<and> seg_repr D os s fs \<and>
              map base_of ss = starts start fss' \<and> base_of s = start + length (concat fss') \<and>
              list_all (\<lambda>fs. fs \<noteq> []) fss' \<and> next_offset l = start + length (concat fss') + length fs \<and>
              (\<forall>name. os_file os name \<noteq> None \<longrightarrow> name \<in> log_files l))"
proof -
  have "\<exists>fss' fs. fss = fss' @ [fs]" if "list_all2 (seg_repr D os) (ss @ [s]) fss"
    using that list_all2_lengthD [OF that] by (cases fss rule: rev_cases) auto
  then show ?thesis
    unfolding log_repr_def assms
    by (auto simp: starts_append)
qed

lemma log_repr_active:
  assumes "log_repr D l os start fss"
  obtains ss s fss' fs where "segments l = ss @ [s]" "fss = fss' @ [fs]" "os_wf os"
    "list_all2 (seg_repr D os) ss fss'" "seg_repr D os s fs" "map base_of ss = starts start fss'"
    "base_of s = start + length (concat fss')" "list_all (\<lambda>fs. fs \<noteq> []) fss'"
    "next_offset l = start + length (concat fss') + length fs"
    "\<forall>name. os_file os name \<noteq> None \<longrightarrow> name \<in> log_files l"
proof -
  from assms obtain ss s where "segments l = ss @ [s]"
    by (metis log_repr_def append_butlast_last_id)
  with assms that show thesis
    unfolding log_repr_snoc [OF \<open>segments l = ss @ [s]\<close>] by blast
qed

lemma sealed_base_neq:
  assumes "map base_of ss = starts start fss'" and "list_all (\<lambda>fs. fs \<noteq> []) fss'"
    and "base = start + length (concat fss')" and "s \<in> set ss"
  shows "base_of s < base"
proof -
  have "base_of s \<in> set (starts start fss')"
    using assms(1,4) by (metis image_eqI list.set_map)
  with starts_less [OF assms(2)] assms(3) show ?thesis by blast
qed

lemma sealed_disjoint:
  assumes "map base_of ss = starts start fss'" and "list_all (\<lambda>fs. fs \<noteq> []) fss'"
  shows "\<forall>s \<in> set ss. own_files (start + length (concat fss')) \<inter> own_files (base_of s) = {}"
  using sealed_base_neq [OF assms refl] by (fastforce simp: own_files_def)

section \<open>Writing to the active segment\<close>

lemma track_loop_single: "track_loop [offset] [n] pos = track_append offset pos n"
  by (rule ext, rename_tac s) (case_tac "track_append offset pos n s"; case_tac "fst (track_append offset pos n s)"; auto)

lemma track_loop_ok:
  assumes "os_faults os = []" and "index_ok os idx sizes" and "pos = sum_list sizes"
    and "\<forall>j < length zs. pos + sum_list (take j zs) < 2 ^ 32 \<and> length sizes + j < 2 ^ 32"
    and "first = idx_base_offset idx + length sizes"
  shows "\<exists>idx' os'. track_loop [first ..< first + length zs] zs pos (idx, os) = (Ok (), idx', os') \<and>
           only_touches {idx_path idx} os os' \<and> index_ok os' idx' (sizes @ zs) \<and>
           idx_path idx' = idx_path idx \<and> idx_base_offset idx' = idx_base_offset idx \<and> (os_wf os \<longrightarrow> os_wf os') \<and>
           os_durable os' = os_durable os"
  using assms
proof (induction zs arbitrary: first pos sizes idx os)
  case Nil
  then show ?case by auto
next
  case (Cons z zs)
  from Cons.prems(4) have small: "pos < 2 ^ 32" "length sizes < 2 ^ 32"
    by auto
  from track_append_ok [OF Cons.prems(1,2,5,3) small, of z] obtain idx1 os1 where
    1: "track_append first pos z (idx, os) = (Ok (), idx1, os1)" "only_touches {idx_path idx} os os1"
       "index_ok os1 idx1 (sizes @ [z])" "idx_path idx1 = idx_path idx"
       "idx_base_offset idx1 = idx_base_offset idx" "os_wf os \<longrightarrow> os_wf os1" "os_durable os1 = os_durable os"
    by blast
  have nf1: "os_faults os1 = []" and pos1: "pos + z = sum_list (sizes @ [z])"
    and first1: "Suc first = idx_base_offset idx1 + length (sizes @ [z])"
    using Cons.prems 1 by (auto dest: only_touchesD)
  have small1: "\<forall>j < length zs. (pos + z) + sum_list (take j zs) < 2 ^ 32 \<and> length (sizes @ [z]) + j < 2 ^ 32"
    using Cons.prems(4) by (auto simp: add.assoc dest: spec [of _ "Suc _"])
  from Cons.IH [OF nf1 1(3) pos1 small1 first1] obtain idx2 os2 where
    2: "track_loop [Suc first ..< Suc first + length zs] zs (pos + z) (idx1, os1) = (Ok (), idx2, os2)"
       "only_touches {idx_path idx} os1 os2" "index_ok os2 idx2 (sizes @ z # zs)"
       "idx_path idx2 = idx_path idx" "idx_base_offset idx2 = idx_base_offset idx" "os_wf os1 \<longrightarrow> os_wf os2" "os_durable os2 = os_durable os"
    unfolding 1(4,5,7) by auto
  have "[first ..< first + length (z # zs)] = first # [Suc first ..< Suc first + length zs]"
    by (simp add: upt_conv_Cons del: upt_Suc)
  with 1 2 show ?case
    using only_touches_trans [OF 1(2) 2(2)] by (auto simp del: upt_Suc)
qed

lemma frames_fit:
  assumes "\<forall>(f, r) \<in> set fs. wire_frame D f r" and "\<forall>(f, r) \<in> set gs. wire_frame D f r"
    and "length (wire fs) + length (wire (butlast gs)) < 2 ^ 32"
  shows "\<forall>j < length (frame_sizes gs).
           length (wire fs) + sum_list (take j (frame_sizes gs)) < 2 ^ 32 \<and> length (frame_sizes fs) + j < 2 ^ 32"
proof (intro allI impI)
  fix j
  assume j: "j < length (frame_sizes gs)"
  then have "take j gs = take j (butlast gs)"
    by (auto simp: butlast_conv_take min_def)
  then have "length (wire (take j gs)) \<le> length (wire (butlast gs))"
    using wire_take_drop [of j "butlast gs"] by (metis le_add1 length_append)
  moreover have "length fs \<le> length (wire fs)"
    using rec.frames_length [OF assms(1)] .
  moreover have "j \<le> length (wire (take j gs))"
    using rec.frames_length [of "take j gs" D] assms(2) j by (auto dest: in_set_takeD)
  ultimately show "length (wire fs) + sum_list (take j (frame_sizes gs)) < 2 ^ 32 \<and> length (frame_sizes fs) + j < 2 ^ 32"
    using assms(3) by (simp add: frame_sizes_take)
qed

text \<open>Writing frames at the end of one segment and tracking them in its index.\<close>

lemma push_segment:
  assumes nf: "os_faults os = []" and s: "seg_repr D os s fs" and gs: "\<forall>(f, r) \<in> set gs. wire_frame D f r"
    and small: "length (wire fs) + length (wire (butlast gs)) < 2 ^ 32" and off: "off = base_of s + length fs"
  obtains seg1 idx2 os1 os2 where
    "segment_append (wire gs) (the_segment s, os) = (Ok (length (wire fs)), seg1, os1)"
    "track_loop [off ..< off + length gs] (frame_sizes gs) (length (wire fs)) (the_index s, os1) = (Ok (), idx2, os2)"
    "only_touches (own_files (base_of s)) os os2" "seg_repr D os2 (s\<lparr>the_segment := seg1, the_index := idx2\<rparr>) (fs @ gs)"
    "seg_base_offset seg1 = base_of s" "os_durable os2 = os_durable os" "os_wf os \<longrightarrow> os_wf os2"
proof -
  define seg1 where "seg1 = (the_segment s)\<lparr>seg_file := (seg_file (the_segment s))\<lparr>h_pos := length (wire fs) + length (wire gs)\<rparr>,
        cursor := Some (length (wire fs) + length (wire gs)), seg_size := length (wire fs) + length (wire gs)\<rparr>"
  define os1 where "os1 = store_bytes (segment_path (base_of s)) (length (wire fs)) (wire gs) os"
  have paths: "seg_path (the_segment s) = segment_path (base_of s)" "idx_path (the_index s) = index_path (base_of s)"
    using seg_repr_paths [OF s] by auto
  have segok: "segment_ok os (the_segment s) (wire fs)" and idxok: "index_ok os (the_index s) (frame_sizes fs)"
    and frames: "\<forall>(f, r) \<in> set fs. wire_frame D f r" and ibase: "idx_base_offset (the_index s) = base_of s"
    using s by (auto simp: seg_repr_def)
  have w1: "segment_append (wire gs) (the_segment s, os) = (Ok (length (wire fs)), seg1, os1)"
    using segment_append_ok [OF nf segok, of "wire gs"] paths by (simp add: seg1_def os1_def)
  have t1: "only_touches {segment_path (base_of s)} os os1"
    by (simp add: os1_def)
  then have nf1: "os_faults os1 = []" and idxok1: "index_ok os1 (the_index s) (frame_sizes fs)"
    using nf index_ok_frame [OF idxok t1] paths by (auto dest: only_touchesD)
  have seg1ok: "segment_ok os1 seg1 (wire (fs @ gs))"
    using segment_ok_append [OF segok, of "wire gs"] paths by (simp add: seg1_def os1_def)
  from track_loop_ok [OF nf1 idxok1 _ frames_fit [OF frames gs small], of off] obtain idx2 os2 where
    2: "track_loop [off ..< off + length gs] (frame_sizes gs) (length (wire fs)) (the_index s, os1) = (Ok (), idx2, os2)"
       "only_touches {index_path (base_of s)} os1 os2" "index_ok os2 idx2 (frame_sizes (fs @ gs))"
       "idx_path idx2 = index_path (base_of s)" "idx_base_offset idx2 = base_of s" "os_wf os1 \<longrightarrow> os_wf os2"
       "os_durable os2 = os_durable os"
    using off ibase paths by (auto simp: frame_sizes_sum os1_def fun_eq_iff)
  have "seg_repr D os2 (s\<lparr>the_segment := seg1, the_index := idx2\<rparr>) (fs @ gs)"
    using segment_ok_frame [OF seg1ok 2(2)] 2 frames gs paths by (auto simp: seg_repr_def seg1_def)
  moreover have "only_touches (own_files (base_of s)) os os2"
    using only_touches_trans [OF t1 2(2)] by (simp add: own_files_def insert_commute)
  ultimately show thesis
    using that [OF w1 2(1)] 2(6,7) by (simp add: seg1_def os1_def)
qed

text \<open>
  One write of whole frames to the active segment followed by their registration in its index:
  the common core of \<^verbatim>\<open>append\<close> and \<^verbatim>\<open>append_batch\<close>. The continuation \<open>k\<close> is what
  the caller does next.
\<close>

lemma push_frames:
  assumes nf: "os_faults os = []" and ok: "log_repr D l os start (fss' @ [fs])"
    and gs: "\<forall>(f, r) \<in> set gs. wire_frame D f r"
    and small: "length (wire fs) + length (wire (butlast gs)) < 2 ^ 32"
  obtains l1 l2 os1 os2 where
    "with_active_segment (segment_append (wire gs)) (l, os) = (Ok (length (wire fs)), l1, os1)"
    "with_active_index (track_loop [next_offset l ..< next_offset l + length gs] (frame_sizes gs) (length (wire fs)))
       (l1, os1) = (Ok (), l2, os2)"
    "next_offset l1 = next_offset l" "next_offset l2 = next_offset l" "log_cfg l2 = log_cfg l"
    "actual_sizes l1 = actual_sizes l"
    "only_touches (own_files (start + length (concat fss'))) os os2"
    "log_repr D (l2\<lparr>next_offset := next_offset l + length gs\<rparr>) os2 start (fss' @ [fs @ gs])"
    "butlast (segments l2) = butlast (segments l)" "base_of (last (segments l2)) = base_of (last (segments l))"
    "os_durable os2 = os_durable os"
proof -
  from ok obtain ss s where l: "segments l = ss @ [s]" and wf: "os_wf os"
    and sealed: "list_all2 (seg_repr D os) ss fss'" and s: "seg_repr D os s fs"
    and bases: "map base_of ss = starts start fss'" and base: "base_of s = start + length (concat fss')"
    and ne: "list_all (\<lambda>fs. fs \<noteq> []) fss'" and nxt: "next_offset l = start + length (concat fss') + length fs"
    and dom: "\<forall>name. os_file os name \<noteq> None \<longrightarrow> name \<in> log_files l"
    by (auto elim!: log_repr_active)
  obtain seg1 idx2 os1 os2 where
    1: "segment_append (wire gs) (the_segment s, os) = (Ok (length (wire fs)), seg1, os1)"
    and 2: "track_loop [next_offset l ..< next_offset l + length gs] (frame_sizes gs) (length (wire fs)) (the_index s, os1) = (Ok (), idx2, os2)"
    and t: "only_touches (own_files (base_of s)) os os2"
    and s2: "seg_repr D os2 (s\<lparr>the_segment := seg1, the_index := idx2\<rparr>) (fs @ gs)" and base2: "seg_base_offset seg1 = base_of s"
    and dur: "os_durable os2 = os_durable os" and wf2: "os_wf os2"
    by (rule push_segment [OF nf s gs small, of "next_offset l"]) (use nxt base wf in auto)
  define s2 where "s2 = s\<lparr>the_segment := seg1, the_index := idx2\<rparr>"
  define l2 where "l2 = l\<lparr>segments := ss @ [s2]\<rparr>"
  have w1: "with_active_segment (segment_append (wire gs)) (l, os) =
      (Ok (length (wire fs)), l\<lparr>segments := ss @ [s\<lparr>the_segment := seg1\<rparr>]\<rparr>, os1)"
    using 1 l by (simp add: with_active_segment_def)
  have w2: "with_active_index (track_loop [next_offset l ..< next_offset l + length gs] (frame_sizes gs) (length (wire fs)))
      (l\<lparr>segments := ss @ [s\<lparr>the_segment := seg1\<rparr>]\<rparr>, os1) = (Ok (), l2, os2)"
    using 2 by (simp add: with_active_index_def l2_def s2_def del: upt_Suc)
  have sealed2: "list_all2 (seg_repr D os2) ss fss'"
    using list_all2_seg_repr_frame [OF sealed t] sealed_disjoint [OF bases ne] base by simp
  have files: "log_files (l2\<lparr>next_offset := n\<rparr>) = log_files l" for n
    using l base2 by (simp add: log_files_def l2_def s2_def)
  have own: "own_files (base_of s) \<subseteq> log_files l"
    using l by (auto simp: log_files_def own_files_def)
  have dom2: "\<forall>name. os_file os2 name \<noteq> None \<longrightarrow> name \<in> log_files l"
    using dom own only_touchesD(1) [OF t] by (metis subsetD)
  have l2: "segments (l2\<lparr>next_offset := n\<rparr>) = ss @ [s2]" for n
    by (simp add: l2_def)
  have "log_repr D (l2\<lparr>next_offset := next_offset l + length gs\<rparr>) os2 start (fss' @ [fs @ gs])"
    unfolding log_repr_snoc [OF l2] files
    using wf2 sealed2 s2 bases base base2 ne nxt dom2 by (auto simp: s2_def)
  moreover have "next_offset l2 = next_offset l" "log_cfg l2 = log_cfg l" "butlast (segments l2) = butlast (segments l)"
    "base_of (last (segments l2)) = base_of (last (segments l))"
    using base2 by (simp_all add: l2_def l s2_def)
  ultimately show thesis
    using that [OF w1 w2] t base dur by simp
qed

section \<open>Rotation\<close>

lemma no_file_at_next:
  assumes "log_repr D l os start (fss' @ [fs])" and "fs \<noteq> []" and "x \<in> own_files (next_offset l)"
  shows "os_file os x = None" and "x \<notin> log_files l"
proof -
  from assms(1) obtain ss s where l: "segments l = ss @ [s]"
    and bases: "map base_of ss = starts start fss'" and base: "base_of s = start + length (concat fss')"
    and ne: "list_all (\<lambda>fs. fs \<noteq> []) fss'" and nxt: "next_offset l = start + length (concat fss') + length fs"
    and dom: "\<forall>name. os_file os name \<noteq> None \<longrightarrow> name \<in> log_files l"
    by (auto elim!: log_repr_active)
  have "base_of t < next_offset l" if "t \<in> set (segments l)" for t
    using that sealed_base_neq [OF bases ne base, of t] l base nxt assms(2) by (cases fs) auto
  then show "x \<notin> log_files l"
    using assms(3) by (fastforce simp: log_files_def own_files_def)
  then show "os_file os x = None"
    using dom by blast
qed

lemma sync_active:
  assumes nf: "os_faults os = []" and s: "seg_repr D os s fs" and l: "segments l = ss @ [s]" and wf: "os_wf os"
  obtains os1 os2 where "with_active_segment segment_sync (l, os) = (Ok (), l, os1)"
    "with_active_index index_sync (l, os1) = (Ok (), l, os2)"
    "only_touches (own_files (base_of s)) os os2" "seg_repr D os2 s fs" "os_wf os2"
    "\<forall>x \<in> own_files (base_of s). os_durable os2 x = os_content os2 x"
proof -
  have paths: "seg_path (the_segment s) = segment_path (base_of s)" "idx_path (the_index s) = index_path (base_of s)"
    using seg_repr_paths [OF s] by auto
  have segok: "segment_ok os (the_segment s) (wire fs)" and idxok: "index_ok os (the_index s) (frame_sizes fs)"
    using s by (auto simp: seg_repr_def)
  from segment_sync_ok [OF nf segok] paths obtain os1 where
    1: "segment_sync (the_segment s, os) = (Ok (), the_segment s, os1)" "only_touches {segment_path (base_of s)} os os1"
       "segment_ok os1 (the_segment s) (wire fs)" "os_durable os1 (segment_path (base_of s)) = Some (wire fs)"
       "os_wf os \<longrightarrow> os_wf os1"
    by auto
  have nf1: "os_faults os1 = []" and idxok1: "index_ok os1 (the_index s) (frame_sizes fs)"
    using nf index_ok_frame [OF idxok 1(2)] paths 1(2) by (auto dest: only_touchesD)
  from index_sync_ok [OF nf1 idxok1] paths obtain os2 where
    2: "index_sync (the_index s, os1) = (Ok (), the_index s, os2)" "only_touches {index_path (base_of s)} os1 os2"
       "index_ok os2 (the_index s) (frame_sizes fs)"
       "os_durable os2 (index_path (base_of s)) = os_content os2 (index_path (base_of s))" "os_wf os1 \<longrightarrow> os_wf os2"
    by auto
  have segok2: "segment_ok os2 (the_segment s) (wire fs)"
    using segment_ok_frame [OF 1(3) 2(2)] paths by simp
  have "os_durable os2 (segment_path (base_of s)) = os_content os2 (segment_path (base_of s))"
    using only_touchesD(3) [OF 2(2), of "segment_path (base_of s)"] 1(4) segok2 paths by (simp add: segment_ok_def)
  moreover have "only_touches (own_files (base_of s)) os os2"
    using only_touches_trans [OF 1(2) 2(2)] by (simp add: own_files_def insert_commute)
  moreover have "seg_repr D os2 s fs"
    using s segok2 2(3) by (simp add: seg_repr_def)
  moreover have "with_active_segment segment_sync (l, os) = (Ok (), l, os1)"
    "with_active_index index_sync (l, os1) = (Ok (), l, os2)"
    using 1(1) 2(1) l by (simp_all add: with_active_segment_def with_active_index_def)
  ultimately show thesis
    using that 2(4) wf 1(5) 2(5) by (auto simp: own_files_def)
qed

lemma fresh_segment:
  assumes "os_faults os = []" and "os_file os (segment_path b) = None" and "os_file os (index_path b) = None" and "os_wf os"
  obtains seg idx os1 os2 where "segment_create b os = (Ok seg, os1)" "index_create b ival os1 = (Ok idx, os2)"
    "seg_repr D os2 \<lparr>the_segment = seg, the_index = idx\<rparr> []" "seg_base_offset seg = b"
    "only_touches (own_files b) os os2" "os_wf os2"
    "\<forall>x \<in> own_files b. os_durable os2 x = Some [] \<and> os_content os2 x = Some []"
  using assms that
  by (auto simp: io_simps seg_repr_def segment_ok_def cursor_ok_def index_ok_def own_files_def only_touches_def)

lemma log_files_grow:
  assumes "only_touches S os os'" and "\<forall>name. os_file os name \<noteq> None \<longrightarrow> name \<in> log_files l" and "os_file os' name \<noteq> None"
  shows "name \<in> S \<or> name \<in> log_files l"
  using assms only_touchesD(1) [OF assms(1), of name] by metis

lemma new_active_files:
  assumes nf: "os_faults os = []" and ok: "log_repr D l os start (fss' @ [fs])" and ne: "fs \<noteq> []" and l: "segments l = ss @ [s]"
    and t: "only_touches (own_files (base_of s)) os os2" and wf: "os_wf os2"
    and new: "own_files (base_of s) \<inter> own_files (next_offset l) = {}"
  obtains seg idx os3 os4 where "segment_create (next_offset l) os2 = (Ok seg, os3)"
    "index_create (next_offset l) (index_interval (log_cfg l)) os3 = (Ok idx, os4)"
    "seg_repr D os4 \<lparr>the_segment = seg, the_index = idx\<rparr> []" "seg_base_offset seg = next_offset l"
    "only_touches (own_files (next_offset l)) os2 os4" "os_wf os4" "os_durable os4 (segment_path (next_offset l)) = Some []"
proof -
  have "os_file os2 x = None" if "x \<in> own_files (next_offset l)" for x
    using no_file_at_next(1) [OF ok ne that] only_touchesD(1) [OF t, of x] new that by auto
  then have "os_file os2 (segment_path (next_offset l)) = None" "os_file os2 (index_path (next_offset l)) = None"
    by (auto simp: own_files_def)
  moreover have "os_faults os2 = []"
    using nf t by (auto dest: only_touchesD)
  ultimately show thesis
    using wf that by (elim fresh_segment [where D = D and ival = "index_interval (log_cfg l)"]) (auto simp: own_files_def)
qed

lemma rotate_ok:
  assumes nf: "os_faults os = []" and ok: "log_repr D l os start (fss' @ [fs])" and ne: "fs \<noteq> []"
  obtains l' os' where "rotate_active_segment (l, os) = (Ok (), l', os')"
    "log_repr D l' os' start (fss' @ [fs, []])" "next_offset l' = next_offset l" "log_cfg l' = log_cfg l"
    "only_touches (own_files (start + length (concat fss')) \<union> own_files (next_offset l)) os os'"
    "\<forall>x \<in> own_files (start + length (concat fss')). os_durable os' x = os_content os' x"
    "\<exists>t. segments l' = segments l @ [t] \<and> seg_size (the_segment t) = 0 \<and>
           os_durable os' (segment_path (base_of t)) = Some []"
proof -
  from ok obtain ss s where l: "segments l = ss @ [s]" and wf: "os_wf os"
    and sealed: "list_all2 (seg_repr D os) ss fss'" and s: "seg_repr D os s fs"
    and bases: "map base_of ss = starts start fss'" and base: "base_of s = start + length (concat fss')"
    and nes: "list_all (\<lambda>fs. fs \<noteq> []) fss'" and nxt: "next_offset l = start + length (concat fss') + length fs"
    and dom: "\<forall>name. os_file os name \<noteq> None \<longrightarrow> name \<in> log_files l"
    by (auto elim!: log_repr_active)
  from sync_active [OF nf s l wf] obtain os1 os2 where
    sync: "with_active_segment segment_sync (l, os) = (Ok (), l, os1)"
          "with_active_index index_sync (l, os1) = (Ok (), l, os2)"
    and t2: "only_touches (own_files (base_of s)) os os2" and s2: "seg_repr D os2 s fs" and wf2: "os_wf os2"
    and dur: "\<forall>x \<in> own_files (base_of s). os_durable os2 x = os_content os2 x"
    by blast
  have new: "own_files (base_of s) \<inter> own_files (next_offset l) = {}"
    using base nxt ne by (auto simp: own_files_def)
  obtain seg idx os3 os4 where
    new_files: "segment_create (next_offset l) os2 = (Ok seg, os3)"
      "index_create (next_offset l) (index_interval (log_cfg l)) os3 = (Ok idx, os4)"
    and n: "seg_repr D os4 \<lparr>the_segment = seg, the_index = idx\<rparr> []" "seg_base_offset seg = next_offset l"
    and t4: "only_touches (own_files (next_offset l)) os2 os4" and wf4: "os_wf os4"
    and d4: "os_durable os4 (segment_path (next_offset l)) = Some []"
    by (rule new_active_files [OF nf ok ne l t2 wf2 new])
  define t where "t = \<lparr>the_segment = seg, the_index = idx\<rparr>"
  define l' where "l' = l\<lparr>segments := segments l @ [t]\<rparr>"
  have rot: "rotate_active_segment (l, os) = (Ok (), l', os4)"
    using sync new_files by (simp add: rotate_active_segment_def l'_def t_def)
  have touched: "only_touches (own_files (base_of s) \<union> own_files (next_offset l)) os os4"
    using only_touches_trans [OF t2 t4] .
  have sep: "(own_files (base_of s) \<union> own_files (next_offset l)) \<inter> own_files (base_of r) = {}" if "r \<in> set ss" for r
    using sealed_base_neq [OF bases nes base that] base nxt by (auto simp: own_files_def)
  have sealed4: "list_all2 (seg_repr D os4) (ss @ [s]) (fss' @ [fs])"
    using list_all2_seg_repr_frame [OF sealed touched] sep seg_repr_frame [OF s2 t4] new by (auto simp: Int_commute)
  have l'segs: "segments l' = (ss @ [s]) @ [t]"
    by (simp add: l'_def l)
  have dom4: "\<forall>name. os_file os4 name \<noteq> None \<longrightarrow> name \<in> log_files l'"
    using log_files_grow [OF touched dom] l'segs n(2) by (auto simp: log_files_def own_files_def t_def l)
  have "log_repr D l' os4 start ((fss' @ [fs]) @ [[]])"
    unfolding log_repr_snoc [OF l'segs]
    using wf4 sealed4 n bases base nes ne nxt dom4 l by (auto simp: t_def l'_def starts_append)
  moreover have "\<forall>x \<in> own_files (base_of s). os_durable os4 x = os_content os4 x"
    using dur new t4 by (metis disjoint_iff only_touchesD(2) only_touchesD(3))
  moreover have "seg_size seg = 0"
    using n(1) by (simp add: seg_repr_def segment_ok_def)
  ultimately show thesis
    using that [OF rot] touched base n(2) d4 by (auto simp: l'_def t_def)
qed

end
