(* ===== verification/Kafko_LogSpec.thy ===== *)
theory Kafko_LogSpec
  imports Kafko_LogInv
begin

text \<open>
  What a log promises, and that the operations of \<open>Kafko_Log\<close> keep it. The abstract log is
  the offset of the oldest record kept and the list of records from there on. \<open>log_inv\<close> ties a
  log value and its directory to the contents of its segments and to how much of them is durable.
\<close>

section \<open>The abstract log\<close>

record alog =
  al_first :: nat
  al_records :: "kafko_record list"

definition al_next :: "alog \<Rightarrow> nat" where
  "al_next a = al_first a + length (al_records a)"

definition al_append :: "kafko_record list \<Rightarrow> alog \<Rightarrow> alog" where
  "al_append rs a = a\<lparr>al_records := al_records a @ rs\<rparr>"

definition al_read :: "nat \<Rightarrow> alog \<Rightarrow> kafko_record option" where
  "al_read offset a =
     (if al_first a \<le> offset \<and> offset < al_next a then Some (al_records a ! (offset - al_first a)) else None)"

definition al_trim :: "nat \<Rightarrow> alog \<Rightarrow> alog" where
  "al_trim k a = \<lparr>al_first = al_first a + k, al_records = drop k (al_records a)\<rparr>"

section \<open>Invariant with durability\<close>

text \<open>
  \<open>log_synced l os fss n\<close>: everything in the sealed segments, and the first \<open>n\<close> records of
  the active one, would survive a power loss.
\<close>

definition log_synced :: "log \<Rightarrow> os \<Rightarrow> framed list list \<Rightarrow> nat \<Rightarrow> bool" where
  "log_synced l os fss n \<longleftrightarrow>
     (\<forall>s \<in> set (butlast (segments l)). \<forall>x \<in> own_files (base_of s). os_durable os x = os_content os x) \<and>
     n \<le> length (last fss) \<and>
     os_durable os (segment_path (base_of (last (segments l)))) = Some (wire (take n (last fss)))"

definition log_inv :: "deps \<Rightarrow> log \<Rightarrow> os \<Rightarrow> nat \<Rightarrow> framed list list \<Rightarrow> nat \<Rightarrow> bool" where
  "log_inv D l os start fss n \<longleftrightarrow> log_repr D l os start fss \<and> log_synced l os fss n"

definition abs_log :: "nat \<Rightarrow> framed list list \<Rightarrow> alog" where
  "abs_log start fss = \<lparr>al_first = start, al_records = map snd (concat fss)\<rparr>"

definition durable_end :: "nat \<Rightarrow> framed list list \<Rightarrow> nat \<Rightarrow> nat" where
  "durable_end start fss n = start + length (concat (butlast fss)) + n"

text \<open>
  \<open>log_models D l os a d\<close>: the log \<open>l\<close> on the directory \<open>os\<close> implements the abstract log
  \<open>a\<close>, of which the records below offset \<open>d\<close> are durable.
\<close>

definition log_models :: "deps \<Rightarrow> log \<Rightarrow> os \<Rightarrow> alog \<Rightarrow> nat \<Rightarrow> bool" where
  "log_models D l os a d \<longleftrightarrow>
     (\<exists>start fss n. log_inv D l os start fss n \<and> a = abs_log start fss \<and> d = durable_end start fss n)"

section \<open>Encoding a batch\<close>

lemma encode_loop_ok:
  assumes "codec_laws D" and "\<forall>r \<in> set rs. encodable D c r"
  shows "encode_loop D c rs (l, os) =
           (Ok (), l\<lparr>encode_buf := encode_buf l @ concat (map (encoded D c) rs),
                     actual_sizes := actual_sizes l @ map (\<lambda>r. length (encoded D c r)) rs\<rparr>, os)"
  using assms(2)
proof (induction rs arbitrary: l)
  case (Cons r rs)
  then show ?case
    using encode_with_encoded(1) [OF assms(1), of c r "encode_buf l"] by simp
qed simp

lemma encode_loop_frame:
  "encode_loop D c rs (l, os) = (x, l', os') \<Longrightarrow>
   segments l' = segments l \<and> next_offset l' = next_offset l \<and> log_cfg l' = log_cfg l \<and> os' = os"
proof (induction rs arbitrary: l)
  case (Cons r rs)
  show ?case
  proof (cases "encode_with D r (encode_buf l) c")
    case (Pair y b)
    with Cons.prems show ?thesis
      by (cases y) (auto dest: Cons.IH)
  qed
qed simp

lemma log_repr_cong:
  assumes "log_repr D l os start fss" and "segments l' = segments l" and "next_offset l' = next_offset l"
  shows "log_repr D l' os start fss"
  using assms by (simp add: log_repr_def log_files_def)

section \<open>Appending\<close>

lemma wire_eq_Nil: "seg_repr D os s fs \<Longrightarrow> wire fs = [] \<longleftrightarrow> fs = []"
  using rec.frames_length [of fs D] by (cases fs) (auto simp: seg_repr_def dest: wire_frame_not_Nil)

lemma log_inv_active:
  assumes "log_inv D l os start fss n"
  obtains fss' fs ss s where "fss = fss' @ [fs]" "segments l = ss @ [s]" "seg_repr D os s fs"
    "base_of s = start + length (concat fss')" "n \<le> length fs" "next_offset l = start + length (concat fss') + length fs"
  using assms by (auto simp: log_inv_def log_synced_def elim!: log_repr_active)

lemma sealed_untouched:
  assumes "log_repr D l os start (fss' @ [fs])" and "s \<in> set (butlast (segments l))" and "x \<in> own_files (base_of s)"
  shows "x \<notin> own_files (start + length (concat fss'))" and "x \<notin> own_files (next_offset l)"
proof -
  from assms(1) obtain ss t where l: "segments l = ss @ [t]" and b: "map base_of ss = starts start fss'"
    and ne: "list_all (\<lambda>fs. fs \<noteq> []) fss'" and nxt: "next_offset l = start + length (concat fss') + length fs"
    by (auto elim!: log_repr_active)
  have "base_of s < start + length (concat fss')"
    using sealed_base_neq [OF b ne refl] assms(2) l by simp
  then show "x \<notin> own_files (start + length (concat fss'))" "x \<notin> own_files (next_offset l)"
    using assms(3) nxt by (auto simp: own_files_def)
qed

lemma rotate_inv:
  assumes nf: "os_faults os = []" and inv: "log_inv D l os start (fss' @ [fs]) n" and ne: "fs \<noteq> []"
  obtains l' os' where "rotate_active_segment (l, os) = (Ok (), l', os')" "log_inv D l' os' start ((fss' @ [fs]) @ [[]]) 0"
    "next_offset l' = next_offset l" "log_cfg l' = log_cfg l" "os_faults os' = []" "os_read_limit os' = os_read_limit os"
proof -
  have ok: "log_repr D l os start (fss' @ [fs])" and syn: "log_synced l os (fss' @ [fs]) n"
    using inv by (auto simp: log_inv_def)
  then obtain ss s where l: "segments l = ss @ [s]" and base: "base_of s = start + length (concat fss')"
    by (auto elim!: log_repr_active)
  from rotate_ok [OF nf ok ne] obtain l' os' where
    rot: "rotate_active_segment (l, os) = (Ok (), l', os')" "log_repr D l' os' start (fss' @ [fs, []])"
      "next_offset l' = next_offset l" "log_cfg l' = log_cfg l"
    and t: "only_touches (own_files (start + length (concat fss')) \<union> own_files (next_offset l)) os os'"
    and dur: "\<forall>x \<in> own_files (start + length (concat fss')). os_durable os' x = os_content os' x"
    and new: "\<exists>t. segments l' = segments l @ [t] \<and> seg_size (the_segment t) = 0 \<and>
                os_durable os' (segment_path (base_of t)) = Some []"
    by blast
  have sealed: "os_durable os' x = os_content os' x" if r: "r \<in> set ss" and x: "x \<in> own_files (base_of r)" for r x
  proof -
    have "x \<notin> own_files (start + length (concat fss')) \<union> own_files (next_offset l)"
      using sealed_untouched [OF ok _ x] l r by simp
    with only_touchesD(2,3) [OF t] syn l r x show ?thesis
      by (auto simp: log_synced_def)
  qed
  then have "log_synced l' os' (fss' @ [fs, []]) 0"
    using new l dur base by (auto simp: log_synced_def butlast_append)
  then show thesis
    using that [OF rot(1)] rot nf only_touchesD(4,6) [OF t] by (simp add: log_inv_def)
qed

lemma rotate_if_needed_ok:
  assumes nf: "os_faults os = []" and inv: "log_inv D l os start fss n"
  obtains l' os' fss' fs n' where "rotate_if_needed add (l, os) = (Ok (), l', os')"
    "log_inv D l' os' start (fss' @ [fs]) n'" "concat (fss' @ [fs]) = concat fss"
    "next_offset l' = next_offset l" "log_cfg l' = log_cfg l" "os_faults os' = []"
    "fs = [] \<or> length (wire fs) + add \<le> segment_size_threshold (log_cfg l)"
    "durable_end start fss n \<le> durable_end start (fss' @ [fs]) n'" "fss' @ [fs] = fss \<or> fss' = fss \<and> fs = []"
    "os_read_limit os' = os_read_limit os"
proof -
  from inv obtain fss' fs ss s where fss: "fss = fss' @ [fs]" and l: "segments l = ss @ [s]"
    and s: "seg_repr D os s fs" and base: "base_of s = start + length (concat fss')" and n: "n \<le> length fs"
    by (rule log_inv_active)
  have sz: "seg_size (the_segment s) = length (wire fs)"
    using s by (simp add: seg_repr_def segment_ok_def)
  show thesis
  proof (cases "would_overflow (the_segment s) add (segment_size_threshold (log_cfg l))")
    case True
    then have "fs \<noteq> []"
      using sz by (auto simp: would_overflow_def split: if_splits)
    with inv fss nf obtain l' os' where
      rot: "rotate_active_segment (l, os) = (Ok (), l', os')" "log_inv D l' os' start ((fss' @ [fs]) @ [[]]) 0"
        "next_offset l' = next_offset l" "log_cfg l' = log_cfg l" "os_faults os' = []" "os_read_limit os' = os_read_limit os"
      by (blast elim: rotate_inv)
    then have "rotate_if_needed add (l, os) = (Ok (), l', os')"
      using True l by (simp add: rotate_if_needed_def)
    then show thesis
      using that [of l' os' "fss' @ [fs]" "[]" 0] rot fss n by (simp add: durable_end_def butlast_append)
  next
    case False
    then have "rotate_if_needed add (l, os) = (Ok (), l, os)" and
      "fs = [] \<or> length (wire fs) + add \<le> segment_size_threshold (log_cfg l)"
      using l sz wire_eq_Nil [OF s] by (auto simp: rotate_if_needed_def would_overflow_def split: if_splits)
    with that [of l os fss' fs n] inv fss nf show thesis
      by simp
  qed
qed

text \<open>
  Writing whole frames to the active segment, once the rotation check has been made: what
  \<open>push_frames\<close> does to the invariant.
\<close>

lemma push_frames_inv:
  assumes nf: "os_faults os = []" and inv: "log_inv D l os start (fss' @ [fs]) n"
    and gs: "\<forall>(f, r) \<in> set gs. wire_frame D f r"
    and small: "length (wire fs) + length (wire (butlast gs)) < 2 ^ 32"
  obtains l1 l2 os1 os2 where
    "with_active_segment (segment_append (wire gs)) (l, os) = (Ok (length (wire fs)), l1, os1)"
    "with_active_index (track_loop [next_offset l ..< next_offset l + length gs] (frame_sizes gs) (length (wire fs)))
       (l1, os1) = (Ok (), l2, os2)"
    "next_offset l1 = next_offset l" "next_offset l2 = next_offset l" "actual_sizes l1 = actual_sizes l"
    "log_cfg l2 = log_cfg l" "os_faults os2 = []" "os_read_limit os2 = os_read_limit os"
    "log_inv D (l2\<lparr>next_offset := next_offset l + length gs\<rparr>) os2 start (fss' @ [fs @ gs]) n"
proof -
  from inv have ok: "log_repr D l os start (fss' @ [fs])" and syn: "log_synced l os (fss' @ [fs]) n"
    by (auto simp: log_inv_def)
  obtain l1 l2 os1 os2 where
    p: "with_active_segment (segment_append (wire gs)) (l, os) = (Ok (length (wire fs)), l1, os1)"
       "with_active_index (track_loop [next_offset l ..< next_offset l + length gs] (frame_sizes gs) (length (wire fs)))
          (l1, os1) = (Ok (), l2, os2)"
       "next_offset l1 = next_offset l" "next_offset l2 = next_offset l" "log_cfg l2 = log_cfg l"
       "actual_sizes l1 = actual_sizes l"
    and t: "only_touches (own_files (start + length (concat fss'))) os os2"
    and repr: "log_repr D (l2\<lparr>next_offset := next_offset l + length gs\<rparr>) os2 start (fss' @ [fs @ gs])"
    and same: "butlast (segments l2) = butlast (segments l)" "base_of (last (segments l2)) = base_of (last (segments l))"
       "os_durable os2 = os_durable os"
    by (rule push_frames [OF nf ok gs small])
  have "os_content os2 x = os_content os x" if "s \<in> set (butlast (segments l))" "x \<in> own_files (base_of s)" for s x
    using sealed_untouched [OF ok that] only_touchesD(2) [OF t] by blast
  with syn same have "log_synced (l2\<lparr>next_offset := k\<rparr>) os2 (fss' @ [fs @ gs]) n" for k
    by (simp add: log_synced_def)
  with repr have "log_inv D (l2\<lparr>next_offset := next_offset l + length gs\<rparr>) os2 start (fss' @ [fs @ gs]) n"
    by (simp add: log_inv_def)
  moreover have "os_faults os2 = []" "os_read_limit os2 = os_read_limit os"
    using nf only_touchesD(4,6) [OF t] by simp_all
  ultimately show thesis
    using that [OF p(1,2,3,4,6,5)] by simp
qed

text \<open>
  How an append changes the segments: the frames go to the active segment if they leave it within
  the threshold or it is empty, and otherwise to a new segment.
\<close>

definition pushed :: "nat \<Rightarrow> nat \<Rightarrow> framed list list \<Rightarrow> framed list \<Rightarrow> framed list list \<Rightarrow> bool" where
  "pushed threshold additional fss gs fss' \<longleftrightarrow>
     (\<exists>gss fs. fss' = gss @ [fs @ gs] \<and> (gss @ [fs] = fss \<or> gss = fss \<and> fs = []) \<and>
        (fs = [] \<or> length (wire fs) + additional \<le> threshold))"

lemma log_append_inv:
  assumes nf: "os_faults os = []" and laws: "codec_laws D" and inv: "log_inv D l os start fss n"
    and enc: "encodable D (cfg_compression (log_cfg l)) r" and thr: "segment_size_threshold (log_cfg l) \<le> 2 ^ 32"
  obtains l' os' fss' n' where "log_append D r (l, os) = (Ok (next_offset l), l', os')"
    "log_inv D l' os' start fss' n'" "map snd (concat fss') = map snd (concat fss) @ [r]"
    "durable_end start fss n \<le> durable_end start fss' n'" "log_cfg l' = log_cfg l" "os_faults os' = []"
    "next_offset l' = next_offset l + 1" "os_read_limit os' = os_read_limit os"
    "pushed (segment_size_threshold (log_cfg l)) (wire_size r) fss [(encoded D (cfg_compression (log_cfg l)) r, r)] fss'"
proof -
  let ?c = "cfg_compression (log_cfg l)" and ?f = "encoded D (cfg_compression (log_cfg l)) r"
  obtain l1 os1 fss1 fs n1 where
    rot: "rotate_if_needed (wire_size r) (l, os) = (Ok (), l1, os1)" "log_inv D l1 os1 start (fss1 @ [fs]) n1"
      "concat (fss1 @ [fs]) = concat fss" "next_offset l1 = next_offset l" "log_cfg l1 = log_cfg l" "os_faults os1 = []"
      "fs = [] \<or> length (wire fs) + wire_size r \<le> segment_size_threshold (log_cfg l)"
      "durable_end start fss n \<le> durable_end start (fss1 @ [fs]) n1" "fss1 @ [fs] = fss \<or> fss1 = fss \<and> fs = []"
      "os_read_limit os1 = os_read_limit os"
    by (rule rotate_if_needed_ok [OF nf inv])
  have frame: "\<forall>(f, q) \<in> set [(?f, r)]. wire_frame D f q"
    using encode_with_encoded(2) [OF laws enc] by simp
  have small: "length (wire fs) + length (wire (butlast [(?f, r)])) < 2 ^ 32"
    using rot(7) thr by (auto simp: wire_size_def)
  obtain l2 l3 os2 os3 where
    p: "with_active_segment (segment_append (wire [(?f, r)])) (l1, os1) = (Ok (length (wire fs)), l2, os2)"
       "with_active_index (track_loop [next_offset l1 ..< next_offset l1 + length [(?f, r)]] (frame_sizes [(?f, r)]) (length (wire fs)))
          (l2, os2) = (Ok (), l3, os3)"
       "next_offset l2 = next_offset l1" "next_offset l3 = next_offset l1" "actual_sizes l2 = actual_sizes l1"
       "log_cfg l3 = log_cfg l1" "os_faults os3 = []" "os_read_limit os3 = os_read_limit os1"
       "log_inv D (l3\<lparr>next_offset := next_offset l1 + length [(?f, r)]\<rparr>) os3 start (fss1 @ [fs @ [(?f, r)]]) n1"
    by (rule push_frames_inv [OF rot(6,2) frame small])
  have idx: "with_active_index (track_append (next_offset l) (length (wire fs)) (length ?f)) (l2, os2) = (Ok (), l3, os3)"
    using p(2) rot(4) by (simp add: track_loop_single)
  have "log_append D r (l, os) = (Ok (next_offset l), l3\<lparr>next_offset := next_offset l + 1\<rparr>, os3)"
    using rot p idx encode_with_encoded(1) [OF laws enc, of "[]"] by (simp add: log_append_def Let_def)
  moreover have "map snd (concat (fss1 @ [fs @ [(?f, r)]])) = map snd (concat fss) @ [r]"
    using arg_cong [OF rot(3), of "map snd"] by simp
  moreover have "durable_end start fss n \<le> durable_end start (fss1 @ [fs @ [(?f, r)]]) n1"
    using rot(8) by (simp add: durable_end_def)
  moreover have "pushed (segment_size_threshold (log_cfg l)) (wire_size r) fss [(?f, r)] (fss1 @ [fs @ [(?f, r)]])"
    using rot(7,9) unfolding pushed_def by blast
  ultimately show thesis
    using that p rot by simp
qed

lemma wire_butlast_less:
  "\<forall>(f, r) \<in> set gs. wire_frame D f r \<Longrightarrow> gs \<noteq> [] \<Longrightarrow> length (wire (butlast gs)) < length (wire gs)"
  by (cases gs rule: rev_cases) (auto dest: wire_frame_not_Nil)

lemma log_append_batch_inv:
  assumes nf: "os_faults os = []" and laws: "codec_laws D" and inv: "log_inv D l os start fss n"
    and enc: "\<forall>r \<in> set rs. encodable D (cfg_compression (log_cfg l)) r" and ne: "rs \<noteq> []"
    and thr: "segment_size_threshold (log_cfg l) + length (concat (map (encoded D (cfg_compression (log_cfg l))) rs)) \<le> 2 ^ 32"
  obtains l' os' fss' n' where
    "log_append_batch D rs (l, os) = (Ok [next_offset l ..< next_offset l + length rs], l', os')"
    "log_inv D l' os' start fss' n'" "map snd (concat fss') = map snd (concat fss) @ rs"
    "durable_end start fss n \<le> durable_end start fss' n'" "log_cfg l' = log_cfg l" "os_faults os' = []"
    "next_offset l' = next_offset l + length rs" "os_read_limit os' = os_read_limit os"
    "pushed (segment_size_threshold (log_cfg l)) (sum_list (map wire_size rs)) fss
       (map (\<lambda>r. (encoded D (cfg_compression (log_cfg l)) r, r)) rs) fss'"
proof -
  let ?c = "cfg_compression (log_cfg l)"
  define gs where "gs = map (\<lambda>r. (encoded D ?c r, r)) rs"
  have gs: "wire gs = concat (map (encoded D ?c) rs)" "frame_sizes gs = map (\<lambda>r. length (encoded D ?c r)) rs"
    "length gs = length rs" "map snd gs = rs"
    by (simp_all add: gs_def comp_def)
  obtain l1 os1 fss1 fs n1 where
    rot: "rotate_if_needed (sum_list (map wire_size rs)) (l, os) = (Ok (), l1, os1)" "log_inv D l1 os1 start (fss1 @ [fs]) n1"
      "concat (fss1 @ [fs]) = concat fss" "next_offset l1 = next_offset l" "log_cfg l1 = log_cfg l" "os_faults os1 = []"
      "fs = [] \<or> length (wire fs) + sum_list (map wire_size rs) \<le> segment_size_threshold (log_cfg l)"
      "durable_end start fss n \<le> durable_end start (fss1 @ [fs]) n1" "fss1 @ [fs] = fss \<or> fss1 = fss \<and> fs = []"
      "os_read_limit os1 = os_read_limit os"
    by (rule rotate_if_needed_ok [OF nf inv])
  define l2 where "l2 = l1\<lparr>encode_buf := wire gs, actual_sizes := frame_sizes gs\<rparr>"
  have enc_loop: "encode_loop D ?c rs (l1\<lparr>encode_buf := [], actual_sizes := []\<rparr>, os1) = (Ok (), l2, os1)"
    using encode_loop_ok [OF laws enc] by (simp add: l2_def gs)
  have inv2: "log_inv D l2 os1 start (fss1 @ [fs]) n1"
    using rot(2) by (simp add: l2_def log_inv_def log_repr_def log_synced_def log_files_def)
  have frames: "\<forall>(f, q) \<in> set gs. wire_frame D f q"
    using encode_with_encoded(2) [OF laws] enc by (auto simp: gs_def)
  then have "length (wire (butlast gs)) < length (wire gs)"
    using ne by (intro wire_butlast_less) (auto simp: gs_def)
  then have small: "length (wire fs) + length (wire (butlast gs)) < 2 ^ 32"
    using rot(7) thr gs(1) by (auto simp: wire_size_def)
  obtain l3 l4 os3 os4 where
    p: "with_active_segment (segment_append (wire gs)) (l2, os1) = (Ok (length (wire fs)), l3, os3)"
       "with_active_index (track_loop [next_offset l2 ..< next_offset l2 + length gs] (frame_sizes gs) (length (wire fs)))
          (l3, os3) = (Ok (), l4, os4)"
       "next_offset l3 = next_offset l2" "next_offset l4 = next_offset l2" "actual_sizes l3 = actual_sizes l2"
       "log_cfg l4 = log_cfg l2" "os_faults os4 = []" "os_read_limit os4 = os_read_limit os1"
       "log_inv D (l4\<lparr>next_offset := next_offset l2 + length gs\<rparr>) os4 start (fss1 @ [fs @ gs]) n1"
    by (rule push_frames_inv [OF rot(6) inv2 frames small])
  have l2: "next_offset l2 = next_offset l" "log_cfg l2 = log_cfg l" "encode_buf l2 = wire gs" "actual_sizes l3 = frame_sizes gs"
    using rot p(5) by (simp_all add: l2_def)
  have "log_append_batch D rs (l, os) =
      (Ok [next_offset l ..< next_offset l + length rs], l4\<lparr>next_offset := next_offset l + length rs\<rparr>, os4)"
    using ne rot(1,4,5) enc_loop p(1,2) l2 gs(3) by (simp add: log_append_batch_def Let_def del: upt_Suc)
  moreover have "map snd (concat (fss1 @ [fs @ gs])) = map snd (concat fss) @ rs"
    using arg_cong [OF rot(3), of "map snd"] gs(4) by simp
  moreover have "durable_end start fss n \<le> durable_end start (fss1 @ [fs @ gs]) n1"
    using rot(8) by (simp add: durable_end_def)
  moreover have "pushed (segment_size_threshold (log_cfg l)) (sum_list (map wire_size rs)) fss gs (fss1 @ [fs @ gs])"
    using rot(7,9) unfolding pushed_def by blast
  ultimately show thesis
    using that p(6-9) l2 gs(3) rot(10) by (simp add: gs_def)
qed

end
