(* ===== verification/Kafko_LogRead.thy ===== *)
theory Kafko_LogRead
  imports Kafko_LogSpec
begin

text \<open>
  Reading and retention: \<^verbatim>\<open>read_record_at\<close> returns exactly what the abstract log holds at
  the offset, and \<^verbatim>\<open>apply_retention\<close> drops whole segments from the old end of the log and
  nothing else.
\<close>

section \<open>Finding the segment\<close>

lemma log_repr_nth:
  assumes "log_repr D l os start fss" and "i < length fss"
  shows "i < length (segments l)" and "seg_repr D os (segments l ! i) (fss ! i)"
    and "base_of (segments l ! i) = start + length (concat (take i fss))"
proof -
  from assms have all: "list_all2 (seg_repr D os) (segments l) fss" and bases: "map base_of (segments l) = starts start fss"
    by (auto simp: log_repr_def)
  then show i: "i < length (segments l)"
    using assms(2) by (simp add: list_all2_lengthD)
  show "seg_repr D os (segments l ! i) (fss ! i)"
    using list_all2_nthD2 [OF all assms(2)] .
  show "base_of (segments l ! i) = start + length (concat (take i fss))"
    using starts_nth [OF assms(2), of start] i unfolding bases [symmetric] by simp
qed

lemma log_repr_sorted:
  "log_repr D l os start fss \<Longrightarrow> sorted_wrt (\<lambda>s t. base_of s < base_of t) (segments l)"
  using sorted_starts [of fss start] by (auto simp: log_repr_def sorted_wrt_map dest: sym)

lemma log_repr_length: "log_repr D l os start fss \<Longrightarrow> length (segments l) = length fss \<and> fss \<noteq> []"
  by (auto simp: log_repr_def dest: list_all2_lengthD)

lemma find_segment_index_ok:
  assumes "log_repr D l os start fss" and "offset < next_offset l"
  defines "i \<equiv> find_segment_index l offset"
  shows "i < length fss"
    and "start \<le> offset \<Longrightarrow> start + length (concat (take i fss)) \<le> offset \<and> offset < start + length (concat (take (Suc i) fss))"
    and "offset < start \<Longrightarrow> i = 0"
proof -
  note sorted = log_repr_sorted [OF assms(1)]
  have len: "length (segments l) = length fss" "fss \<noteq> []" and nxt: "next_offset l = start + length (concat fss)"
    using log_repr_length [OF assms(1)] assms(1) by (auto simp: log_repr_def)
  note base = log_repr_nth(3) [OF assms(1)]
  have found: "i < length fss \<and> (base_of (segments l ! i) \<le> offset \<or> i = 0 \<and> offset < start) \<and>
      (Suc i < length fss \<longrightarrow> offset < base_of (segments l ! Suc i))"
  proof (cases "binary_search_by_key base_of offset (segments l)")
    case (Found k)
    with binary_search_by_key_bounds(1) [OF sorted Found] sorted_wrt_nth_less [OF sorted, of k "Suc k"] len show ?thesis
      by (auto simp: i_def find_segment_index_def)
  next
    case (Insert_at k)
    with binary_search_by_key_bounds(2) [OF sorted Insert_at] len base [of 0] show ?thesis
      by (cases k) (auto simp: i_def find_segment_index_def intro: less_imp_le)
  qed
  then show "i < length fss" by simp
  show "i = 0" if "offset < start"
    using found base that by auto
  show "start + length (concat (take i fss)) \<le> offset \<and> offset < start + length (concat (take (Suc i) fss))"
    if "start \<le> offset"
    using found base [of i] base [of "Suc i"] that nxt assms(2) by (cases "Suc i < length fss") auto
qed

lemma concat_nth:
  assumes "i < length xss" and "j < length (xss ! i)"
  shows "concat xss ! (length (concat (take i xss)) + j) = xss ! i ! j"
proof -
  have "concat xss = concat (take i xss) @ xss ! i @ concat (drop (Suc i) xss)"
    using id_take_nth_drop [OF assms(1)] by (metis concat.simps(2) concat_append)
  with assms(2) show ?thesis
    by (simp add: nth_append)
qed

section \<open>Reading\<close>

lemma read_loop_append:
  assumes "\<forall>(f, r) \<in> set gs. wire_frame D f r"
  shows "read_loop D offset cur (wire gs @ tail) =
           (if cur \<le> offset \<and> offset - cur < length gs then Ok (Some (snd (gs ! (offset - cur))))
            else read_loop D offset (cur + length gs) tail)"
  using assms
proof (induction gs arbitrary: cur)
  case (Cons g gs)
  obtain f r where g: "g = (f, r)" by (cases g)
  with Cons.prems have f: "wire_frame D f r" and ne: "f \<noteq> []"
    using wire_frame_not_Nil by auto
  have "read_loop D offset cur (wire (g # gs) @ tail) =
      (if cur = offset then Ok (Some r) else read_loop D offset (Suc cur) (wire gs @ tail))"
    using g ne rec.frame_dec [OF f, of "wire gs @ tail"] by (subst read_loop.simps) simp
  with Cons g show ?case
    by (auto simp: nth_Cons' Suc_diff_Suc)
qed simp

lemma read_loop_frames:
  assumes "\<forall>(f, r) \<in> set gs. wire_frame D f r"
  shows "read_loop D offset cur (wire gs) =
           Ok (if cur \<le> offset \<and> offset - cur < length gs then Some (snd (gs ! (offset - cur))) else None)"
  using read_loop_append [OF assms, of offset cur "[]"] by (simp add: read_loop.simps [of D _ _ "[]"])

text \<open>
  A read seeks in one segment and leaves its cursor behind the last byte: \<open>moved l i p\<close> is the
  log after that. The result is that of the decoding loop from the indexed position on.
\<close>

definition moved :: "log \<Rightarrow> nat \<Rightarrow> nat \<Rightarrow> log" where
  "moved l i p =
     (let s = segments l ! i; seg = the_segment s
      in l\<lparr>segments := (segments l)[i := s\<lparr>the_segment := seg\<lparr>seg_file := (seg_file seg)\<lparr>h_pos := p\<rparr>, cursor := Some p\<rparr>\<rparr>]\<rparr>)"

lemma moved_frame [simp]: "log_cfg (moved l i p) = log_cfg l" "next_offset (moved l i p) = next_offset l"
  by (simp_all add: moved_def Let_def)

lemma moved_bases: "map base_of (segments (moved l i p)) = map base_of (segments l)"
  by (cases "i < length (segments l)") (simp_all add: moved_def Let_def map_update list_update_same_conv list_update_beyond)

lemma read_record_at_segment:
  assumes nf: "os_faults os = []" and lt: "offset < next_offset l" and i: "i = find_segment_index l offset" "i < length (segments l)"
    and seg: "segment_ok os (the_segment (segments l ! i)) c" and limit: "length c \<le> os_read_limit os"
    and at: "lookup (the_index (segments l ! i)) offset = (pos, cur)" "pos \<le> length c"
  shows "read_record_at D offset (l, os) =
           (read_loop D offset cur (drop pos c), if pos = length c then l else moved l i (length c), os)"
proof -
  have "seg_size (the_segment (segments l ! i)) = length c"
    using seg by (simp add: segment_ok_def)
  moreover have "take (min (length c - pos) (os_read_limit os)) (drop pos c) = drop pos c" "pos + length (drop pos c) = length c"
    using limit at(2) by simp_all
  ultimately show ?thesis
    using lt i(2) at segment_read_at_ok [OF nf seg, of pos "length c - pos"]
    by (auto simp: read_record_at_def Let_def i(1) [symmetric] moved_def read_loop.simps [of D offset cur "[]"])
qed

lemma log_inv_same_bases:
  assumes inv: "log_inv D l os start fss n" and all: "list_all2 (seg_repr D os) (segments l') fss"
    and same: "map base_of (segments l') = map base_of (segments l)" "next_offset l' = next_offset l"
  shows "log_inv D l' os start fss n"
proof -
  have files: "log_files k = (\<Union>b \<in> set (map base_of (segments k)). own_files b)" for k
    by (auto simp: log_files_def own_files_def)
  have sync: "log_synced k os fss n \<longleftrightarrow>
      (\<forall>b \<in> set (butlast (map base_of (segments k))). \<forall>x \<in> own_files b. os_durable os x = os_content os x) \<and>
      n \<le> length (last fss) \<and> os_durable os (segment_path (last (map base_of (segments k)))) = Some (wire (take n (last fss)))"
    if "segments k \<noteq> []" for k
    using that by (simp add: log_synced_def map_butlast [symmetric] last_map)
  have ne: "segments l \<noteq> []" "segments l' \<noteq> []"
    using inv same(1) by (auto simp: log_inv_def log_repr_def)
  moreover have "log_files l' = log_files l"
    unfolding files same(1) ..
  moreover have "log_synced l' os fss n \<longleftrightarrow> log_synced l os fss n"
    unfolding sync [OF ne(1)] sync [OF ne(2)] same(1) ..
  ultimately show ?thesis
    using inv all same by (simp add: log_inv_def log_repr_def)
qed

lemma lookup_position:
  assumes "seg_repr D os s fs"
  obtains j where "lookup (the_index s) offset = (length (wire (take j fs)), base_of s + j)"
    "j \<le> offset - base_of s" "j \<le> length fs"
proof (cases "base_of s \<le> offset")
  case True
  with assms lookup_ok [of os "the_index s" "frame_sizes fs" offset] that show thesis
    by (auto simp: seg_repr_def lookup_sound_def frame_sizes_take)
next
  case False
  with assms that [of 0] lookup_before_base [of offset "the_index s"] show thesis
    by (simp add: seg_repr_def)
qed

lemma al_read_in_segment:
  assumes repr: "log_repr D l os start fss" and lt: "offset < next_offset l"
    and i: "i = find_segment_index l offset" and fs: "fs = fss ! i"
    and base: "base = start + length (concat (take i fss))" and j: "j \<le> offset - base"
  shows "al_read offset (abs_log start fss) =
           (if base + j \<le> offset \<and> offset - (base + j) < length (drop j fs)
            then Some (snd (drop j fs ! (offset - (base + j)))) else None)"
proof (cases "start \<le> offset")
  case True
  note fi = find_segment_index_ok [OF repr lt, folded i]
  have nxt: "next_offset l = start + length (concat fss)"
    using repr by (simp add: log_repr_def)
  have take: "length (concat (take (Suc i) fss)) = length (concat (take i fss)) + length fs"
    using fi(1) by (simp add: take_Suc_conv_app_nth fs)
  define k where "k = offset - base"
  have k: "offset = base + k" "k < length fs" "j \<le> k"
    using fi(2) [OF True] base take j by (auto simp: k_def)
  have "concat fss ! (length (concat (take i fss)) + k) = fs ! k"
    using concat_nth [OF fi(1), of k] k by (simp add: fs)
  then show ?thesis
    using k base lt nxt by (auto simp: al_read_def al_next_def abs_log_def)
next
  case False
  with find_segment_index_ok(3) [OF repr lt] base i show ?thesis
    by (auto simp: al_read_def abs_log_def)
qed

lemma log_inv_moved:
  assumes inv: "log_inv D l os start fss n" and i: "i < length fss"
  shows "log_inv D (moved l i p) os start fss n"
proof (rule log_inv_same_bases [OF inv _ moved_bases moved_frame(2)])
  have repr: "log_repr D l os start fss"
    using inv by (simp add: log_inv_def)
  let ?s = "segments l ! i"
  have "segment_ok os (the_segment ?s) (wire (fss ! i))"
    using log_repr_nth(2) [OF repr i] by (simp add: seg_repr_def)
  from segment_ok_seek [OF this] have "seg_repr D os (?s\<lparr>the_segment := (the_segment ?s)\<lparr>seg_file := (seg_file (the_segment ?s))\<lparr>h_pos := p\<rparr>, cursor := Some p\<rparr>\<rparr>) (fss ! i)"
    using log_repr_nth(2) [OF repr i] by (simp add: seg_repr_def)
  then show "list_all2 (seg_repr D os) (segments (moved l i p)) fss"
    using repr list_all2_update_cong [of "seg_repr D os" "segments l" fss _ "fss ! i" i] by (simp add: moved_def Let_def log_repr_def)
qed

text \<open>Where a read starts: at some frame of the right segment, not past the one that is asked for.\<close>

lemma read_position:
  assumes repr: "log_repr D l os start fss" and lt: "offset < next_offset l"
  obtains i j where "i = find_segment_index l offset" "i < length fss"
    "base_of (segments l ! i) = start + length (concat (take i fss))" "seg_repr D os (segments l ! i) (fss ! i)"
    "lookup (the_index (segments l ! i)) offset = (length (wire (take j (fss ! i))), base_of (segments l ! i) + j)"
    "j \<le> offset - base_of (segments l ! i)" "j \<le> length (fss ! i)"
proof -
  have i: "find_segment_index l offset < length fss"
    by (rule find_segment_index_ok(1) [OF repr lt])
  show thesis
    by (rule lookup_position [OF log_repr_nth(2) [OF repr i], of offset]) (use that [OF refl i] log_repr_nth [OF repr i] in blast)
qed

lemma read_record_at_inv:
  assumes nf: "os_faults os = []" and inv: "log_inv D l os start fss n"
    and limit: "\<forall>fs \<in> set fss. length (wire fs) \<le> os_read_limit os"
  obtains l' where "read_record_at D offset (l, os) = (Ok (al_read offset (abs_log start fss)), l', os)"
    "log_inv D l' os start fss n" "log_cfg l' = log_cfg l" "next_offset l' = next_offset l"
proof (cases "next_offset l \<le> offset")
  case True
  with that [of l] inv show thesis
    by (simp add: read_record_at_def al_read_def al_next_def abs_log_def log_inv_def log_repr_def)
next
  case False
  then have repr: "log_repr D l os start fss" and lt: "offset < next_offset l"
    using inv by (auto simp: log_inv_def)
  obtain i j where i: "i = find_segment_index l offset" "i < length fss"
    and base: "base_of (segments l ! i) = start + length (concat (take i fss))" and s: "seg_repr D os (segments l ! i) (fss ! i)"
    and j: "lookup (the_index (segments l ! i)) offset = (length (wire (take j (fss ! i))), base_of (segments l ! i) + j)"
      "j \<le> offset - base_of (segments l ! i)" "j \<le> length (fss ! i)"
    by (rule read_position [OF repr lt])
  define fs where "fs = fss ! i"
  have tail: "\<forall>(f, r) \<in> set (drop j fs). wire_frame D f r"
    using s by (auto simp: seg_repr_def fs_def dest: in_set_dropD)
  have pos: "drop (length (wire (take j fs))) (wire fs) = wire (drop j fs)" "length (wire (take j fs)) \<le> length (wire fs)"
    using wire_take_drop [of j fs] by (metis append_eq_conv_conj, metis le_add1 length_append)
  define l' where "l' = (if length (wire (take j fs)) = length (wire fs) then l else moved l i (length (wire fs)))"
  have "read_record_at D offset (l, os) = (read_loop D offset (base_of (segments l ! i) + j) (drop (length (wire (take j fs))) (wire fs)), l', os)"
    unfolding l'_def
    by (rule read_record_at_segment [OF nf lt i(1)]) (use i(2) log_repr_nth(1) [OF repr] s limit j pos(2) in \<open>auto simp: seg_repr_def fs_def\<close>)
  then have "read_record_at D offset (l, os) = (Ok (al_read offset (abs_log start fss)), l', os)"
    unfolding pos(1) read_loop_frames [OF tail] al_read_in_segment [OF repr lt i(1) fs_def base j(2)] .
  with that [of l'] inv log_inv_moved [OF inv i(2)] show thesis
    by (simp add: l'_def)
qed

section \<open>Retention\<close>

lemma total_size_repr:
  assumes "log_repr D l os start fss"
  shows "total_size l = length (concat (map wire fss))"
proof -
  have "list_all2 (seg_repr D os) ss gss \<Longrightarrow> sum_list (map (\<lambda>s. seg_size (the_segment s)) ss) = length (concat (map wire gss))"
    for ss gss
    by (induction rule: list_all2_induct) (auto simp: seg_repr_def segment_ok_def)
  with assms show ?thesis
    by (simp add: total_size_def log_repr_def)
qed

lemma seg_repr_contents:
  assumes "seg_repr D os s fs"
  shows "os_content os (segment_path (base_of s)) = Some (wire fs)"
    "os_content os (index_path (base_of s)) = Some (concat (map entry_bytes (entries (the_index s))))"
  unfolding seg_repr_paths(1,2) [OF assms, symmetric]
  using assms by (auto simp: seg_repr_def segment_ok_def index_ok_def)

lemma seg_repr_files:
  assumes "seg_repr D os s fs"
  shows "\<exists>f. os_file os (segment_path (base_of s)) = Some f" "\<exists>g. os_file os (index_path (base_of s)) = Some g"
  using seg_repr_contents [OF assms] by (auto simp: os_content_def)

text \<open>Deleting the oldest segment of a log that has another one.\<close>

lemma delete_oldest_inv:
  assumes nf: "os_faults os = []" and inv: "log_inv D l os start fss n" and two: "1 < length (segments l)"
  obtains l' os' where "delete_oldest_segment (l, os) = (Ok (), l', os')"
    "log_inv D l' os' (start + length (hd fss)) (tl fss) n" "segments l' = tl (segments l)"
    "log_cfg l' = log_cfg l" "next_offset l' = next_offset l" "only_touches (own_files start) os os'"
proof -
  have repr: "log_repr D l os start fss" and syn: "log_synced l os fss n"
    using inv by (auto simp: log_inv_def)
  from two obtain s t ss where l: "segments l = s # t # ss"
    by (cases "segments l"; cases "tl (segments l)") auto
  with repr obtain fs gs gss where fss: "fss = fs # gs # gss"
    by (cases fss; cases "tl fss") (auto simp: log_repr_def)
  have s: "seg_repr D os s fs" and base: "base_of s = start" and fsne: "fs \<noteq> []"
    using repr l fss by (auto simp: log_repr_def)
  define os1 where "os1 = del_file (segment_path start) os"
  define os2 where "os2 = del_file (index_path start) os1"
  define l' where "l' = l\<lparr>segments := t # ss\<rparr>"
  obtain f g where ex: "os_file os (segment_path start) = Some f" "os_file os (index_path start) = Some g"
    using seg_repr_files [OF s] base by auto
  have "remove_file (segment_path start) os = (Ok (), os1)" "remove_file_if_present (index_path start) os1 = (Ok (), os2)"
    using nf ex by (simp_all add: remove_file_if_present_def remove_file_def io_simps os1_def os2_def)
  then have del: "delete_oldest_segment (l, os) = (Ok (), l', os2)"
    using l base seg_repr_paths(1) [OF s] by (simp add: delete_oldest_segment_def Let_def l'_def)
  have t2: "only_touches (own_files start) os os2"
    by (auto simp: only_touches_def os1_def os2_def own_files_def)
  have later: "start < base_of r" if "r \<in> set (t # ss)" for r
    using log_repr_sorted [OF repr] l base that by auto
  then have apart: "\<forall>r \<in> set (t # ss). own_files start \<inter> own_files (base_of r) = {}"
    by (fastforce simp: own_files_def)
  have all: "list_all2 (seg_repr D os2) (t # ss) (gs # gss)"
    by (rule list_all2_seg_repr_frame [OF _ t2 apart]) (use repr l fss in \<open>simp add: log_repr_def\<close>)
  have dom: "name \<in> log_files l'" if "os_file os2 name \<noteq> None" for name
    using that repr l base by (auto simp: log_repr_def log_files_def os2_def os1_def l'_def split: if_splits)
  have "log_repr D l' os2 (start + length fs) (gs # gss)"
    using repr l fss all dom by (auto simp: log_repr_def l'_def os2_def os1_def)
  moreover have "log_synced l' os2 (gs # gss) n"
  proof -
    have same: "os_durable os2 x = os_durable os x" "os_content os2 x = os_content os x"
      if "r \<in> set (t # ss)" "x \<in> own_files (base_of r)" for r x
      using that apart only_touchesD(2,3) [OF t2] by blast+
    have "os_durable os2 x = os_content os2 x" if r: "r \<in> set (butlast (t # ss))" and x: "x \<in> own_files (base_of r)" for r x
      using syn same [OF in_set_butlastD [OF r] x] r x l by (auto simp: log_synced_def)
    moreover have "os_durable os2 (segment_path (base_of (last (t # ss)))) = os_durable os (segment_path (base_of (last (t # ss))))"
      by (rule same(1) [of "last (t # ss)"]) (simp_all add: own_files_def)
    ultimately show ?thesis
      using syn l fss by (simp add: log_synced_def l'_def)
  qed
  ultimately show thesis
    using that [OF del] fss l t2 by (simp add: log_inv_def l'_def)
qed

text \<open>
  Both loops delete whole segments from the front: \<open>dropped k\<close> describes the log after
  \<open>k\<close> deletions, and neither loop ever touches the active segment.
\<close>

definition dropped :: "deps \<Rightarrow> log \<times> os \<Rightarrow> nat \<Rightarrow> framed list list \<Rightarrow> nat \<Rightarrow> nat \<Rightarrow> log \<times> os \<Rightarrow> bool" where
  "dropped D s start fss n k = (\<lambda>(l', os').
     k < length fss \<and> log_inv D l' os' (start + length (concat (take k fss))) (drop k fss) n \<and>
     segments l' = drop k (segments (fst s)) \<and> log_cfg l' = log_cfg (fst s) \<and>
     next_offset l' = next_offset (fst s) \<and> os_faults os' = [] \<and> os_clock os' = os_clock (snd s) \<and>
     (\<forall>m. m \<notin> (\<Union>b \<in> set (take k (starts start fss)). own_files b) \<longrightarrow> os_file os' m = os_file (snd s) m))"

lemma dropped_zero:
  "log_inv D l os start fss n \<Longrightarrow> os_faults os = [] \<Longrightarrow> dropped D (l, os) start fss n 0 (l, os)"
  using log_repr_length [of D l os start fss] by (auto simp: dropped_def log_inv_def)

lemma dropped_Suc:
  assumes inv: "log_inv D l os start fss n" and two: "1 < length (segments l)"
    and del: "log_inv D l1 os1 (start + length (hd fss)) (tl fss) n" "segments l1 = tl (segments l)"
      "log_cfg l1 = log_cfg l" "next_offset l1 = next_offset l" "only_touches (own_files start) os os1"
    and d: "dropped D (l1, os1) (start + length (hd fss)) (tl fss) n k s'"
  shows "dropped D (l, os) start fss n (Suc k) s'"
proof -
  obtain fs gss where fss: "fss = fs # gss"
    using log_repr_length [of D l os start fss] inv by (cases fss) (auto simp: log_inv_def)
  obtain l' os' where s': "s' = (l', os')" by (cases s')
  have "os_file os' m = os_file os m" if "m \<notin> own_files start" "\<forall>b \<in> set (take k (starts (start + length fs) gss)). m \<notin> own_files b" for m
    using d that only_touchesD(1) [OF del(5), of m] fss by (auto simp: dropped_def s')
  with d del show ?thesis
    using only_touchesD(5) [OF del(5)] by (auto simp: dropped_def fss s' add.assoc drop_Suc)
qed

lemma bytes_retention_inv:
  assumes "os_faults os = []" and "log_inv D l os start fss n"
  shows "\<exists>k s'. bytes_retention max_bytes deleted (l, os) = (Ok (deleted + k), s') \<and> dropped D (l, os) start fss n k s' \<and>
           (total_size (fst s') \<le> max_bytes \<or> length (segments (fst s')) = 1) \<and>
           (\<forall>i < k. max_bytes < sum_list (map (\<lambda>s. seg_size (the_segment s)) (drop i (segments l))))"
  using assms
proof (induction "length (segments l)" arbitrary: l os start fss deleted)
  case 0
  then show ?case by (auto simp: log_inv_def log_repr_def)
next
  case (Suc m)
  show ?case
  proof (cases "1 < length (segments l) \<and> max_bytes < total_size l")
    case True
    then obtain l1 os1 where del: "delete_oldest_segment (l, os) = (Ok (), l1, os1)"
      "log_inv D l1 os1 (start + length (hd fss)) (tl fss) n" "segments l1 = tl (segments l)"
      "log_cfg l1 = log_cfg l" "next_offset l1 = next_offset l" "only_touches (own_files start) os os1"
      using delete_oldest_inv [OF Suc.prems] by blast
    have "m = length (segments l1)" "os_faults os1 = []"
      using Suc.hyps(2) Suc.prems(1) del by (auto dest: only_touchesD)
    from Suc.hyps(1) [OF this del(2), of "Suc deleted"] obtain k s' where
      k: "bytes_retention max_bytes (Suc deleted) (l1, os1) = (Ok (Suc deleted + k), s')"
         "dropped D (l1, os1) (start + length (hd fss)) (tl fss) n k s'"
         "total_size (fst s') \<le> max_bytes \<or> length (segments (fst s')) = 1"
         "\<forall>i < k. max_bytes < sum_list (map (\<lambda>s. seg_size (the_segment s)) (drop i (segments l1)))"
      by blast
    have "max_bytes < sum_list (map (\<lambda>s. seg_size (the_segment s)) (drop i (segments l)))" if "i < Suc k" for i
      using that True k(4) del(3) by (cases i) (auto simp: total_size_def drop_Suc)
    moreover have "bytes_retention max_bytes deleted (l, os) = (Ok (deleted + Suc k), s')"
      using True del(1) k(1) by (subst bytes_retention.simps) simp
    ultimately show ?thesis
      using dropped_Suc [OF Suc.prems(2) _ del(2-6) k(2)] True k(3) by blast
  next
    case False
    then have "bytes_retention max_bytes deleted (l, os) = (Ok deleted, l, os)"
      by (subst bytes_retention.simps) auto
    moreover have "total_size l \<le> max_bytes \<or> length (segments l) = 1"
      using False Suc.hyps(2) by auto
    ultimately show ?thesis
      using dropped_zero [OF Suc.prems(2,1)] by (intro exI [of _ 0]) auto
  qed
qed

definition seg_mtime :: "os \<Rightarrow> indexed_segment \<Rightarrow> int" where
  "seg_mtime os s = (case os_file os (seg_path (the_segment s)) of None \<Rightarrow> 0 | Some f \<Rightarrow> max 0 (file_mtime f))"

lemma last_modified_ms_ok:
  assumes "os_faults os = []" and "seg_repr D os s fs"
  shows "last_modified_ms (the_segment s) os = (Ok (seg_mtime os s), os)"
  using assms(1) seg_repr_files(1) [OF assms(2)]
  by (auto simp: last_modified_ms_def metadata_modified_def with_file_def io_simps seg_mtime_def seg_repr_paths(1) [OF assms(2)])

lemma seg_mtime_untouched:
  "only_touches (own_files b) os os' \<Longrightarrow> seg_repr D os s fs \<Longrightarrow> base_of s \<noteq> b \<Longrightarrow> seg_mtime os' s = seg_mtime os s"
  using only_touchesD(1) [of "own_files b" os os' "segment_path (base_of s)"] seg_repr_paths(1) [of D os s fs]
  by (auto simp: seg_mtime_def own_files_def)

lemma seg_mtime_after_delete:
  assumes "log_repr D l os start fss" and "only_touches (own_files start) os os1" and "0 < i" and "i < length fss"
  shows "seg_mtime os1 (segments l ! i) = seg_mtime os (segments l ! i)" and "i < length (segments l)"
proof -
  have i: "i < length (segments l)" "seg_repr D os (segments l ! i) (fss ! i)"
    using log_repr_nth(1,2) [OF assms(1,4)] .
  have "start < base_of (segments l ! i)"
    using sorted_wrt_nth_less [OF log_repr_sorted [OF assms(1)], of 0 i] log_repr_nth(3) [OF assms(1), of 0] assms(3,4) i(1) by (cases fss) simp_all
  with i show "seg_mtime os1 (segments l ! i) = seg_mtime os (segments l ! i)" "i < length (segments l)"
    using seg_mtime_untouched [OF assms(2)] by blast+
qed

lemma older_after_delete:
  assumes repr: "log_repr D l os start fss" and t: "only_touches (own_files start) os os1" and tl: "segments l1 = tl (segments l)"
    and k: "Suc k < length fss" and old: "seg_mtime os (segments l ! 0) < cutoff" "\<forall>i < k. seg_mtime os1 (segments l1 ! i) < cutoff"
  shows "\<forall>i < Suc k. seg_mtime os (segments l ! i) < cutoff"
proof (intro allI impI)
  fix i
  assume i: "i < Suc k"
  show "seg_mtime os (segments l ! i) < cutoff"
  proof (cases i)
    case (Suc j)
    with seg_mtime_after_delete [OF repr t, of i] i k
    have "i < length (segments l)" "seg_mtime os1 (segments l ! i) = seg_mtime os (segments l ! i)"
      by simp_all
    with old(2) tl Suc i nth_tl [of j "segments l"] show ?thesis
      by auto
  qed (use old(1) in simp)
qed

lemma age_retention_inv:
  assumes "os_faults os = []" and "log_inv D l os start fss n"
  shows "\<exists>k s'. age_retention cutoff deleted (l, os) = (Ok (deleted + k), s') \<and> dropped D (l, os) start fss n k s' \<and>
           (cutoff \<le> seg_mtime (snd s') (hd (segments (fst s'))) \<or> length (segments (fst s')) = 1) \<and>
           (\<forall>i < k. seg_mtime os (segments l ! i) < cutoff)"
  using assms
proof (induction "length (segments l)" arbitrary: l os start fss deleted)
  case 0
  then show ?case by (auto simp: log_inv_def log_repr_def)
next
  case (Suc m)
  then have repr: "log_repr D l os start fss"
    by (simp add: log_inv_def)
  have len: "0 < length fss" "segments l \<noteq> []"
    using log_repr_length [OF repr] Suc.hyps(2) by auto
  have mtime: "last_modified_ms (the_segment (segments l ! 0)) os = (Ok (seg_mtime os (segments l ! 0)), os)"
    using last_modified_ms_ok [OF Suc.prems(1) log_repr_nth(2) [OF repr len(1)]] .
  show ?case
  proof (cases "1 < length (segments l) \<and> seg_mtime os (segments l ! 0) < cutoff")
    case True
    then obtain l1 os1 where del: "delete_oldest_segment (l, os) = (Ok (), l1, os1)"
      "log_inv D l1 os1 (start + length (hd fss)) (tl fss) n" "segments l1 = tl (segments l)"
      "log_cfg l1 = log_cfg l" "next_offset l1 = next_offset l" "only_touches (own_files start) os os1"
      using delete_oldest_inv [OF Suc.prems] by blast
    have "m = length (segments l1)" "os_faults os1 = []"
      using Suc.hyps(2) Suc.prems(1) del by (auto dest: only_touchesD)
    from Suc.hyps(1) [OF this del(2), of "Suc deleted"] obtain k s' where
      k: "age_retention cutoff (Suc deleted) (l1, os1) = (Ok (Suc deleted + k), s')"
         "dropped D (l1, os1) (start + length (hd fss)) (tl fss) n k s'"
         "cutoff \<le> seg_mtime (snd s') (hd (segments (fst s'))) \<or> length (segments (fst s')) = 1"
         "\<forall>i < k. seg_mtime os1 (segments l1 ! i) < cutoff"
      by blast
    have kl: "Suc k < length fss"
      using k(2) by (auto simp: dropped_def)
    have "\<forall>i < Suc k. seg_mtime os (segments l ! i) < cutoff"
      using older_after_delete [OF repr del(6,3) kl _ k(4)] True by simp
    moreover have "age_retention cutoff deleted (l, os) = (Ok (deleted + Suc k), s')"
      using True del(1) k(1) mtime by (subst age_retention.simps) simp
    ultimately show ?thesis
      using dropped_Suc [OF Suc.prems(2) _ del(2-6) k(2)] True k(3) by blast
  next
    case False
    then have "age_retention cutoff deleted (l, os) = (Ok deleted, l, os)"
      using mtime by (subst age_retention.simps) auto
    moreover have "cutoff \<le> seg_mtime os (hd (segments l)) \<or> length (segments l) = 1"
      using False Suc.hyps(2) len(2) by (cases "segments l") auto
    ultimately show ?thesis
      using dropped_zero [OF Suc.prems(2,1)] by (intro exI [of _ 0]) auto
  qed
qed

text \<open>The whole retention pass: what each of the two limits leaves behind.\<close>

lemma drop_starts: "drop k (starts n fss) = starts (n + length (concat (take k fss))) (drop k fss)"
proof (induction fss arbitrary: n k)
  case (Cons fs fss)
  then show ?case by (cases k) (simp_all add: add.assoc)
qed simp

lemma drop_add: "drop (k + j) xs = drop j (drop k xs)"
  by (simp add: add.commute)

lemma dropped_trans:
  assumes "dropped D s start fss n k (l1, os1)"
    and "dropped D (l1, os1) (start + length (concat (take k fss))) (drop k fss) n j s2"
  shows "dropped D s start fss n (k + j) s2"
proof -
  obtain l2 os2 where s2: "s2 = (l2, os2)" by (cases s2)
  have "os_file os2 m = os_file (snd s) m"
    if "m \<notin> (\<Union>b \<in> set (take (k + j) (starts start fss)). own_files b)" for m
    using assms that by (auto simp: dropped_def s2 take_add drop_starts)
  with assms show ?thesis
    by (auto simp: dropped_def s2 take_add drop_add add.assoc simp del: drop_drop)
qed

lemma apply_retention_inv:
  assumes nf: "os_faults os = []" and inv: "log_inv D l os start fss n"
  obtains k l' os' where "apply_retention (l, os) = (Ok k, l', os')" "dropped D (l, os) start fss n k (l', os')"
    "\<And>b. max_partition_bytes (log_cfg l) = Some b \<Longrightarrow> total_size l' \<le> b \<or> segment_count l' = 1"
    "max_segment_age (log_cfg l) = None \<Longrightarrow> max_partition_bytes (log_cfg l) = None \<Longrightarrow> k = 0"
proof -
  let ?aged = "case max_segment_age (log_cfg l) of None \<Rightarrow> (Ok 0, l, os)
    | Some max_age \<Rightarrow> age_retention (i64_saturating_sub (current_timestamp_ms os) (as_i64 max_age)) 0 (l, os)"
  obtain k l1 os1 where aged: "?aged = (Ok k, l1, os1)" "dropped D (l, os) start fss n k (l1, os1)"
    "max_segment_age (log_cfg l) = None \<longrightarrow> k = 0"
  proof (cases "max_segment_age (log_cfg l)")
    case None
    with that dropped_zero [OF inv nf] show thesis by simp
  next
    case (Some a)
    with age_retention_inv [OF nf inv, of "i64_saturating_sub (current_timestamp_ms os) (as_i64 a)" 0] that show thesis
      by auto
  qed
  then have inv1: "log_inv D l1 os1 (start + length (concat (take k fss))) (drop k fss) n" "os_faults os1 = []"
    and cfg: "log_cfg l1 = log_cfg l"
    by (auto simp: dropped_def)
  show thesis
  proof (cases "max_partition_bytes (log_cfg l)")
    case None
    with that [of k l1 os1] aged cfg show thesis
      by (simp add: apply_retention_def Let_def)
  next
    case (Some b)
    from bytes_retention_inv [OF inv1(2,1), of b k] obtain j s2 where
      b: "bytes_retention b k (l1, os1) = (Ok (k + j), s2)"
         "dropped D (l1, os1) (start + length (concat (take k fss))) (drop k fss) n j s2"
         "total_size (fst s2) \<le> b \<or> length (segments (fst s2)) = 1"
      by auto
    with that [of "k + j" "fst s2" "snd s2"] Some aged cfg dropped_trans [OF aged(2) b(2)] show thesis
      by (simp add: apply_retention_def Let_def segment_count_def)
  qed
qed

end
