(* ===== verification/Kafko_Recovery.thy ===== *)
theory Kafko_Recovery
  imports Kafko_LogRead
begin

text \<open>
  \<^verbatim>\<open>Log::open\<close>: whatever a crash left at the end of the active segment, opening the
  directory gives back a log that holds every whole record and nothing else, with a fresh index.
\<close>

section \<open>Scanning frames\<close>

text \<open>\<open>scan_stops D torn\<close>: the recovery scan ends where \<open>torn\<close> begins.\<close>

definition scan_stops :: "deps \<Rightarrow> bytes \<Rightarrow> bool" where
  "scan_stops D torn \<longleftrightarrow>
     torn = [] \<or> (case fst (decode D torn) of
                    Err (Truncated n) \<Rightarrow> True | Err (CrcMismatch x a) \<Rightarrow> True | Err (InvalidLength n) \<Rightarrow> True | _ \<Rightarrow> False)"

lemma scan_loop_stops: "scan_stops D torn \<Longrightarrow> scan_loop D torn p = Ok p"
  by (subst scan_loop.simps) (auto simp: scan_stops_def split: prod.splits res.splits kafko_error.splits)

lemma scan_loop_frames:
  assumes "\<forall>(f, r) \<in> set fs. wire_frame D f r" and "scan_stops D torn"
  shows "scan_loop D (wire fs @ torn) p = Ok (p + length (wire fs))"
  using assms(1)
proof (induction fs arbitrary: p)
  case Nil
  with assms(2) show ?case by (simp add: scan_loop_stops)
next
  case (Cons g fs)
  obtain f r where g: "g = (f, r)" by (cases g)
  with Cons.prems have f: "wire_frame D f r" and ne: "f \<noteq> []"
    using wire_frame_not_Nil by auto
  then have "scan_loop D (wire (g # fs) @ torn) p = scan_loop D (wire fs @ torn) (p + length f)"
    using g rec.frame_dec [OF f, of "wire fs @ torn"] by (subst scan_loop.simps) simp
  with Cons g show ?case by simp
qed

text \<open>A tail of zeros, and a record cut short anywhere, both stop the scan.\<close>

lemma scan_stops_zeros: "scan_stops D (replicate z 0)"
proof (cases "z < 4")
  case True
  then show ?thesis by (simp add: scan_stops_def decode_def)
next
  case False
  have "u32_to_be_bytes 0 = replicate 4 0"
    by code_simp
  with False have zeros: "replicate z 0 = u32_to_be_bytes 0 @ replicate (z - 4) 0"
    by (simp flip: replicate_add)
  show ?thesis
    unfolding zeros by (simp add: scan_stops_def decode_def MIN_TOTAL_LEN_def)
qed

lemma torn_frames:
  assumes "\<forall>(f, r) \<in> set fs. wire_frame D f r"
  obtains m torn where "m \<le> length fs" "take k (wire fs) = wire (take m fs) @ torn" "scan_stops D torn"
  using rec.frames_cut [OF assms, of k] that by (fastforce simp: scan_stops_def)

lemma replay_loop_frames:
  assumes "\<forall>(f, r) \<in> set fs. wire_frame D f r"
  shows "replay_loop D base (wire fs) pos count s =
           and_then (track_loop [base + count ..< base + count + length fs] (frame_sizes fs) pos s)
             (\<lambda>_ s. (Ok (count + length fs), s))"
  using assms
proof (induction fs arbitrary: pos count s)
  case Nil
  then show ?case by (simp add: replay_loop.simps)
next
  case (Cons g fs)
  obtain f r where g: "g = (f, r)" by (cases g)
  with Cons.prems have f: "wire_frame D f r" and ne: "f \<noteq> []"
    using wire_frame_not_Nil by auto
  have IH: "replay_loop D base (wire fs) (pos + length f) (Suc count) s1 =
      and_then (track_loop [base + Suc count ..< base + Suc count + length fs] (frame_sizes fs) (pos + length f) s1)
        (\<lambda>_ s. (Ok (Suc count + length fs), s))" for s1
    using Cons by simp
  have upt: "[base + count ..< base + count + length (g # fs)] = (base + count) # [base + Suc count ..< base + Suc count + length fs]"
    by (simp add: upt_conv_Cons del: upt_Suc)
  have "replay_loop D base (wire (g # fs)) pos count s =
      and_then (track_append (base + count) pos (length f) s) (\<lambda>_ s. replay_loop D base (wire fs) (pos + length f) (count + 1) s)"
    using g ne rec.frame_dec [OF f, of "wire fs"] by (subst replay_loop.simps) (simp add: Let_def cong del: and_then_cong)
  then show ?case
    unfolding upt Suc_eq_plus1 [symmetric] IH using g by (simp add: and_then_assoc del: upt_Suc cong del: and_then_cong)
qed

section \<open>The directory of a log\<close>

text \<open>
  \<open>dir_repr D os start fss' fs torn\<close>: the files of a log whose sealed segments hold
  \<open>fss'\<close> and whose active segment holds the frames \<open>fs\<close> followed by the bytes
  \<open>torn\<close>. Nothing is asked of the active segment's index.
\<close>

definition sealed_file :: "deps \<Rightarrow> os \<Rightarrow> nat \<Rightarrow> framed list \<Rightarrow> bool" where
  "sealed_file D os base fs \<longleftrightarrow>
     os_content os (segment_path base) = Some (wire fs) \<and> (\<forall>(f, r) \<in> set fs. wire_frame D f r) \<and>
     (\<exists>es. os_content os (index_path base) = Some (concat (map entry_bytes es)) \<and>
           sorted_wrt (\<lambda>a b. relative_offset a < relative_offset b) es \<and> list_all (entry_ok (frame_sizes fs)) es)"

definition dir_repr :: "deps \<Rightarrow> os \<Rightarrow> nat \<Rightarrow> framed list list \<Rightarrow> framed list \<Rightarrow> bytes \<Rightarrow> bool" where
  "dir_repr D os start fss' fs torn \<longleftrightarrow>
     os_wf os \<and> list_all2 (sealed_file D os) (starts start fss') fss' \<and> list_all (\<lambda>fs. fs \<noteq> []) fss' \<and>
     (\<forall>(f, r) \<in> set fs. wire_frame D f r) \<and>
     os_content os (segment_path (start + length (concat fss'))) = Some (wire fs @ torn) \<and>
     (\<forall>name. os_file os name \<noteq> None \<longrightarrow> (\<exists>b \<in> set (starts start (fss' @ [fs])). name \<in> own_files b))"

lemma segment_offset_of_name_path [simp]:
  "n < 2 ^ 64 \<Longrightarrow> segment_offset_of_name (segment_path n) = Some n" "segment_offset_of_name (index_path n) = None"
proof -
  show "segment_offset_of_name (segment_path n) = Some n" if "n < 2 ^ 64"
    using segment_path_parse [OF that] by (auto simp: segment_offset_of_name_def split: option.splits)
  show "segment_offset_of_name (index_path n) = None"
    using last_index_path [of n] by (auto simp: segment_offset_of_name_def strip_suffix_def index_path_def)
qed

lemma discover_ok:
  assumes nf: "os_faults os = []" and dir: "dir_repr D os start fss' fs torn"
    and small: "start + length (concat fss') < 2 ^ 64"
  shows "discover_segment_offsets os = (Ok (starts start (fss' @ [fs])), os)"
proof -
  let ?bs = "starts start (fss' @ [fs])" and ?names = "map fst (os_files os)"
  have sorted: "sorted_wrt (<) ?bs"
    using dir by (intro sorted_starts) (simp add: dir_repr_def)
  have bound: "b < 2 ^ 64" if "b \<in> set ?bs" for b
    using that small starts_bounds [of b start fss'] by (auto simp: starts_append)
  have there: "segment_path b \<in> set ?names" if b: "b \<in> set ?bs" for b
  proof -
    have "os_content os (segment_path b) \<noteq> None"
      using b dir by (auto simp: dir_repr_def starts_append sealed_file_def list_all2_conv_all_nth in_set_conv_nth simp del: os_content_eq_None)
    then show ?thesis
      by (simp add: os_file_iff_dir del: not_None_eq)
  qed
  have names: "(\<exists>b \<in> set ?bs. name = segment_path b \<or> name = index_path b)" if "name \<in> set ?names" for name
    using that dir os_file_iff_dir [of os name] by (auto simp: dir_repr_def own_files_def)
  have offs: "y \<in> set ?bs \<and> name = segment_path y"
    if "name \<in> set ?names" "segment_offset_of_name name = Some y" for name y
  proof -
    from names [OF that(1)] obtain b where b: "b \<in> set ?bs" "name = segment_path b \<or> name = index_path b" ..
    with that(2) bound [OF b(1)] show ?thesis by auto
  qed
  have "set (List.map_filter segment_offset_of_name ?names) = set ?bs"
  proof (intro equalityI subsetI)
    show "y \<in> set ?bs" if "y \<in> set (List.map_filter segment_offset_of_name ?names)" for y
      using that offs unfolding set_map_filter by blast
    show "b \<in> set (List.map_filter segment_offset_of_name ?names)" if "b \<in> set ?bs" for b
      using there [OF that] segment_offset_of_name_path(1) [OF bound [OF that]] unfolding set_map_filter by blast
  qed
  moreover have "distinct (List.map_filter segment_offset_of_name ?names)"
  proof (rule distinct_map_filterI)
    show "distinct ?names"
      using dir by (simp add: dir_repr_def os_wf_def)
  qed (use offs in blast)
  ultimately have "sort (List.map_filter segment_offset_of_name ?names) = ?bs"
    using sorted by (intro sorted_distinct_set_unique) (auto simp: strict_sorted_iff)
  with nf show ?thesis
    by (simp add: discover_segment_offsets_def read_dir_def io_simps)
qed

section \<open>Opening sealed segments\<close>

lemma open_sealed_ok:
  assumes nf: "os_faults os = []" and "list_all2 (sealed_file D os) bases fss"
  shows "\<exists>ss. open_sealed ival bases os = (Ok ss, os) \<and> list_all2 (seg_repr D os) ss fss \<and> map base_of ss = bases"
  using assms(2)
proof (induction bases fss rule: list_all2_induct)
  case Nil
  then show ?case by simp
next
  case (Cons base bases fs fss)
  then obtain ss where ss: "open_sealed ival bases os = (Ok ss, os)" "list_all2 (seg_repr D os) ss fss" "map base_of ss = bases"
    by blast
  from Cons(1) obtain es where c: "os_content os (segment_path base) = Some (wire fs)"
    "os_content os (index_path base) = Some (concat (map entry_bytes es))"
    "sorted_wrt (\<lambda>a b. relative_offset a < relative_offset b) es" "list_all (entry_ok (frame_sizes fs)) es"
    and frames: "\<forall>(f, r) \<in> set fs. wire_frame D f r"
    by (auto simp: sealed_file_def)
  define s where "s = \<lparr>the_segment = \<lparr>seg_base_offset = base, seg_path = segment_path base,
      seg_file = \<lparr>h_name = segment_path base, h_pos = 0\<rparr>, seg_size = length (wire fs), cursor = Some 0\<rparr>,
    the_index = \<lparr>idx_base_offset = base, idx_path = index_path base, entries = es,
      bytes_since_last_entry = 0, interval = ival\<rparr>\<rparr>"
  have "open_sealed ival (base # bases) os = (Ok (s # ss), os)"
    using segment_open_ok [OF nf c(1)] index_open_ok [OF nf c(2)] ss(1) by (simp add: s_def)
  moreover have "seg_repr D os s fs"
    using segment_ok_open [OF c(1)] c frames by (simp add: seg_repr_def s_def index_ok_def)
  ultimately show ?case
    using ss by (auto simp: s_def)
qed

section \<open>Recovering the active segment\<close>

lemma read_whole_ok:
  assumes "os_faults os = []" and "segment_ok os seg c" and "length c \<le> os_read_limit os"
  shows "\<exists>seg'. read_whole (length c) (seg, os) = (Ok c, seg', os) \<and> segment_ok os seg' c \<and>
           seg_path seg' = seg_path seg \<and> seg_base_offset seg' = seg_base_offset seg"
  using assms segment_ok_seek [OF assms(2), of "length c"]
  by (simp add: read_whole_def segment_read_at_ok Let_def)

lemma scan_for_last_valid_position_ok:
  assumes "os_faults os = []" and "segment_ok os seg (wire fs @ torn)" and "length (wire fs @ torn) \<le> os_read_limit os"
    and "\<forall>(f, r) \<in> set fs. wire_frame D f r" and "scan_stops D torn"
  shows "\<exists>seg'. scan_for_last_valid_position D (seg, os) = (Ok (length (wire fs)), seg', os) \<and>
           segment_ok os seg' (wire fs @ torn) \<and> seg_path seg' = seg_path seg \<and> seg_base_offset seg' = seg_base_offset seg"
proof (cases "wire fs @ torn = []")
  case True
  with assms(2) show ?thesis
    by (auto simp: scan_for_last_valid_position_def segment_ok_def)
next
  case False
  define c where "c = wire fs @ torn"
  have "seg_size seg = length c" "c \<noteq> []" "scan_loop D c 0 = Ok (length (wire fs))"
    using assms(2) False scan_loop_frames [OF assms(4,5), of 0] by (simp_all add: segment_ok_def c_def)
  with read_whole_ok [OF assms(1-3)] show ?thesis
    unfolding c_def [symmetric] by (auto simp: scan_for_last_valid_position_def Let_def)
qed

lemma replay_records_to_index_ok:
  assumes nf: "os_faults os = []" and seg: "segment_ok os seg (wire fs)" and idx: "index_ok os idx []"
    and limit: "length (wire fs) \<le> os_read_limit os" and small: "length (wire (butlast fs)) < 2 ^ 32"
    and frames: "\<forall>(f, r) \<in> set fs. wire_frame D f r" and base: "idx_base_offset idx = base"
    and apart: "seg_path seg \<noteq> idx_path idx"
  shows "\<exists>idx' seg' os'. replay_records_to_index D base idx (seg, os) = (Ok (idx', length fs), seg', os') \<and>
           segment_ok os' seg' (wire fs) \<and> index_ok os' idx' (frame_sizes fs) \<and> only_touches {idx_path idx} os os' \<and>
           seg_base_offset seg' = seg_base_offset seg \<and> idx_base_offset idx' = base \<and>
           (os_wf os \<longrightarrow> os_wf os') \<and> os_durable os' = os_durable os"
proof (cases "wire fs = []")
  case True
  then have "fs = []"
    using rec.frames_length [OF frames] unfolding True by simp
  with assms show ?thesis
    by (auto simp: replay_records_to_index_def segment_ok_def)
next
  case False
  obtain seg' where rd: "read_whole (length (wire fs)) (seg, os) = (Ok (wire fs), seg', os)" "segment_ok os seg' (wire fs)"
    "seg_path seg' = seg_path seg" "seg_base_offset seg' = seg_base_offset seg"
    using read_whole_ok [OF nf seg limit] by blast
  have "\<forall>j < length (frame_sizes fs). 0 + sum_list (take j (frame_sizes fs)) < 2 ^ 32 \<and> length ([] :: nat list) + j < 2 ^ 32"
    using frames_fit [of "[]" D fs] frames small by simp
  from track_loop_ok [OF nf idx _ this, of base] base obtain idx' os' where
    t: "track_loop [base ..< base + length fs] (frame_sizes fs) 0 (idx, os) = (Ok (), idx', os')"
       "only_touches {idx_path idx} os os'" "index_ok os' idx' (frame_sizes fs)" "idx_base_offset idx' = base"
       "os_wf os \<longrightarrow> os_wf os'" "os_durable os' = os_durable os"
    by (auto simp del: upt_Suc)
  have "seg_size seg = length (wire fs)"
    using seg by (simp add: segment_ok_def)
  then have "replay_records_to_index D base idx (seg, os) = (Ok (idx', length fs), seg', os')"
    using False rd(1) t(1) replay_loop_frames [OF frames, of base 0 0 "(idx, os)"]
    by (simp add: replay_records_to_index_def Let_def del: upt_Suc concat_eq_Nil_conv)
  with rd t segment_ok_frame [OF rd(2) t(2)] apart show ?thesis
    by auto
qed

lemma remove_index_ok:
  assumes "os_faults os = []"
  shows "\<exists>os'. remove_file_if_present name os = (Ok (), os') \<and> only_touches {name} os os' \<and> os_file os' name = None \<and>
           (os_wf os \<longrightarrow> os_wf os')"
  using assms
  by (cases "os_file os name") (auto simp: remove_file_if_present_def remove_file_def os_error_def io_simps)

lemma trim_segment_ok:
  assumes nf: "os_faults os = []" and seg: "segment_ok os seg c" and n: "n \<le> length c"
  shows "\<exists>seg' os'. (if n < seg_size seg then segment_truncate n (seg, os) else (Ok (), seg, os)) = (Ok (), seg', os') \<and>
           only_touches {seg_path seg} os os' \<and> segment_ok os' seg' (take n c) \<and> seg_base_offset seg' = seg_base_offset seg \<and>
           (os_wf os \<longrightarrow> os_wf os') \<and> os_durable os' (seg_path seg) = (if n < length c then Some (take n c) else os_durable os (seg_path seg))"
proof (cases "n < seg_size seg")
  case True
  with segment_truncate_ok [OF assms] seg show ?thesis by (auto simp: segment_ok_def)
next
  case False
  then have "take n c = c" "\<not> n < length c"
    using seg by (simp_all add: segment_ok_def)
  with False seg show ?thesis by auto
qed

text \<open>The index of the active segment is removed and created anew.\<close>

definition empty_index :: "nat \<Rightarrow> nat \<Rightarrow> sparse_index" where
  "empty_index base ival =
     \<lparr>idx_base_offset = base, idx_path = index_path base, entries = [], bytes_since_last_entry = 0, interval = ival\<rparr>"

lemma empty_index_simps [simp]:
  "idx_base_offset (empty_index base ival) = base" "idx_path (empty_index base ival) = index_path base"
  by (simp_all add: empty_index_def)

lemma fresh_index_ok:
  assumes "os_faults os = []"
  obtains os1 os' where "remove_file_if_present (index_path base) os = (Ok (), os1)"
    "index_create base ival os1 = (Ok (empty_index base ival), os')"
    "only_touches {index_path base} os os'" "index_ok os' (empty_index base ival) []" "os_wf os \<Longrightarrow> os_wf os'"
proof -
  from remove_index_ok [OF assms, of "index_path base"] obtain os1 where
    rm: "remove_file_if_present (index_path base) os = (Ok (), os1)" "only_touches {index_path base} os os1"
        "os_file os1 (index_path base) = None" "os_wf os \<longrightarrow> os_wf os1"
    by auto
  define os2 where "os2 = set_file (index_path base) \<lparr>file_content = [], file_durable = [], file_mtime = os_clock os1\<rparr> os1"
  have "index_create base ival os1 = (Ok (empty_index base ival), os2)"
    using index_create_ok [of os1 base ival] rm(3) only_touchesD(4) [OF rm(2)] assms by (simp add: empty_index_def os2_def)
  moreover have "only_touches {index_path base} os os2"
    using only_touches_trans [OF rm(2), of "{index_path base}" os2] by (simp add: os2_def)
  moreover have "index_ok os2 (empty_index base ival) []"
    by (simp add: index_ok_def empty_index_def os2_def)
  ultimately show thesis
    using that [of os1 os2] rm(1,4) by (simp add: os2_def)
qed

text \<open>The active segment as it is opened.\<close>

definition opened_segment :: "nat \<Rightarrow> bytes \<Rightarrow> segment" where
  "opened_segment base c = \<lparr>seg_base_offset = base, seg_path = segment_path base,
     seg_file = \<lparr>h_name = segment_path base, h_pos = 0\<rparr>, seg_size = length c, cursor = Some 0\<rparr>"

lemma opened_segment_simps [simp]: "seg_path (opened_segment base c) = segment_path base" "seg_base_offset (opened_segment base c) = base"
  by (simp_all add: opened_segment_def)

lemma opened_segment_ok:
  assumes "os_faults os = []" and "os_content os (segment_path base) = Some c"
  shows "segment_open base os = (Ok (opened_segment base c), os)" "segment_ok os (opened_segment base c) c"
  using segment_open_ok [OF assms] segment_ok_open [OF assms(2)] by (simp_all add: opened_segment_def)

text \<open>Recovery after a scan that found \<open>n\<close> valid bytes: the tail is cut, the index is new, and the records are replayed.\<close>

lemma recover_after_scan:
  assumes nf: "os_faults os = []" and content: "os_content os (segment_path base) = Some c" and n: "n \<le> length c"
    and scan: "scan_for_last_valid_position D (opened_segment base c, os) = (Ok n, seg1, os)" "segment_ok os seg1 c" "seg_base_offset seg1 = base"
  obtains seg2 os4 where "recover_active_segment D base ival os =
      (case replay_records_to_index D base (empty_index base ival) (seg2, os4) of
         (Err e, seg, os) \<Rightarrow> (Err e, os)
       | (Panic m, seg, os) \<Rightarrow> (Panic m, os)
       | (Ok (idx, record_count), seg, os) \<Rightarrow> (Ok (seg, idx, record_count), os))"
    "segment_ok os4 seg2 (take n c)" "index_ok os4 (empty_index base ival) []" "seg_base_offset seg2 = base" "seg_path seg2 = segment_path base"
    "only_touches (own_files base) os os4" "os_wf os \<Longrightarrow> os_wf os4"
    "os_durable os4 (segment_path base) = (if n < length c then Some (take n c) else os_durable os (segment_path base))"
proof -
  have path: "seg_path seg = segment_path base" if "segment_ok os seg x" "seg_base_offset seg = base" for os seg x
    using that by (simp add: segment_ok_def)
  obtain seg2 os2 where tr: "(if n < seg_size seg1 then segment_truncate n (seg1, os) else (Ok (), seg1, os)) = (Ok (), seg2, os2)"
    "only_touches {segment_path base} os os2" "segment_ok os2 seg2 (take n c)" "seg_base_offset seg2 = base" "os_wf os \<longrightarrow> os_wf os2"
    "os_durable os2 (segment_path base) = (if n < length c then Some (take n c) else os_durable os (segment_path base))"
    using trim_segment_ok [OF nf scan(2) n] path [OF scan(2,3)] scan(3) by auto
  have "os_faults os2 = []"
    using nf only_touchesD(4) [OF tr(2)] by simp
  then obtain os3 os4 where ix: "remove_file_if_present (index_path base) os2 = (Ok (), os3)"
    "index_create base ival os3 = (Ok (empty_index base ival), os4)"
    "only_touches {index_path base} os2 os4" "index_ok os4 (empty_index base ival) []" "os_wf os2 \<longrightarrow> os_wf os4"
    by (rule fresh_index_ok [of os2 base ival]) blast
  show thesis
  proof (rule that [of seg2 os4])
    show "segment_ok os4 seg2 (take n c)"
      using segment_ok_frame [OF tr(3) ix(3)] path [OF tr(3,4)] by simp
    show "only_touches (own_files base) os os4"
      using only_touches_trans [OF tr(2) ix(3)] by (simp add: own_files_def insert_commute)
    show "os_durable os4 (segment_path base) = (if n < length c then Some (take n c) else os_durable os (segment_path base))"
      using tr(6) only_touchesD(3) [OF ix(3), of "segment_path base"] by simp
  qed (use opened_segment_ok [OF nf content] scan(1) tr ix path [OF tr(3,4)] in \<open>simp_all add: recover_active_segment_def\<close>)
qed

lemma recover_active_segment_ok:
  assumes nf: "os_faults os = []" and wf: "os_wf os"
    and content: "os_content os (segment_path base) = Some (wire fs @ torn)"
    and frames: "\<forall>(f, r) \<in> set fs. wire_frame D f r" and stop: "scan_stops D torn"
    and limit: "length (wire fs @ torn) \<le> os_read_limit os" and small: "length (wire (butlast fs)) < 2 ^ 32"
  obtains seg idx os' where "recover_active_segment D base ival os = (Ok (seg, idx, length fs), os')"
    "seg_repr D os' \<lparr>the_segment = seg, the_index = idx\<rparr> fs" "seg_base_offset seg = base"
    "only_touches (own_files base) os os'" "os_wf os'"
    "os_durable os (segment_path base) = os_content os (segment_path base) \<Longrightarrow>
       os_durable os' (segment_path base) = Some (wire fs)"
proof -
  let ?seg0 = "opened_segment base (wire fs @ torn)"
  obtain seg1 where sc: "scan_for_last_valid_position D (?seg0, os) = (Ok (length (wire fs)), seg1, os)"
    "segment_ok os seg1 (wire fs @ torn)" "seg_base_offset seg1 = base"
    using scan_for_last_valid_position_ok [OF nf opened_segment_ok(2) [OF nf content] limit frames stop] by auto
  obtain seg2 os4 where r: "recover_active_segment D base ival os =
      (case replay_records_to_index D base (empty_index base ival) (seg2, os4) of
         (Err e, seg, os) \<Rightarrow> (Err e, os)
       | (Panic m, seg, os) \<Rightarrow> (Panic m, os)
       | (Ok (idx, record_count), seg, os) \<Rightarrow> (Ok (seg, idx, record_count), os))"
    "segment_ok os4 seg2 (wire fs)" "index_ok os4 (empty_index base ival) []" "seg_base_offset seg2 = base" "seg_path seg2 = segment_path base"
    "only_touches (own_files base) os os4" "os_wf os4"
    "os_durable os4 (segment_path base) = (if torn \<noteq> [] then Some (wire fs) else os_durable os (segment_path base))"
    by (rule recover_after_scan [OF nf content _ sc, of ival]) (use wf in auto)
  have "os_faults os4 = []" "length (wire fs) \<le> os_read_limit os4" "seg_path seg2 \<noteq> idx_path (empty_index base ival)"
    using nf limit r(5) only_touchesD(4,6) [OF r(6)] by simp_all
  from replay_records_to_index_ok [OF this(1) r(2,3) this(2) small frames _ this(3), of base] obtain idx seg os5 where
    rp: "replay_records_to_index D base (empty_index base ival) (seg2, os4) = (Ok (idx, length fs), seg, os5)"
      "segment_ok os5 seg (wire fs)" "index_ok os5 idx (frame_sizes fs)" "only_touches {index_path base} os4 os5"
      "seg_base_offset seg = base" "idx_base_offset idx = base" "os_wf os4 \<longrightarrow> os_wf os5" "os_durable os5 = os_durable os4"
    using r(4) by auto
  have "seg_repr D os5 \<lparr>the_segment = seg, the_index = idx\<rparr> fs"
    using rp frames by (simp add: seg_repr_def)
  moreover have "only_touches (own_files base) os os5"
    using only_touches_trans [OF r(6) rp(4)] by (simp add: own_files_def insert_absorb insert_commute)
  moreover have "os_durable os5 (segment_path base) = Some (wire fs)"
    if "os_durable os (segment_path base) = os_content os (segment_path base)"
    using that content r(8) rp(8) by (cases "torn = []") auto
  ultimately show thesis
    using that [of seg idx os5] r(1,7) rp(1,5,7) by simp
qed

section \<open>Opening the log\<close>

text \<open>The limits recovery works within: 64-bit offsets, 32-bit index positions, one read per segment.\<close>

definition recoverable :: "os \<Rightarrow> nat \<Rightarrow> framed list list \<Rightarrow> framed list \<Rightarrow> bytes \<Rightarrow> bool" where
  "recoverable os start fss' fs torn \<longleftrightarrow>
     start + length (concat fss') < 2 ^ 64 \<and> length (wire (butlast fs)) < 2 ^ 32 \<and>
     length (wire fs @ torn) \<le> os_read_limit os"

lemma sealed_file_frame:
  assumes "list_all2 (seg_repr D os) ss fss'" and "only_touches (own_files base) os os'"
    and "map base_of ss = starts start fss'" and "list_all (\<lambda>fs. fs \<noteq> []) fss'" and "base = start + length (concat fss')"
  shows "list_all2 (seg_repr D os') ss fss'"
  using list_all2_seg_repr_frame [OF assms(1,2)] sealed_disjoint [OF assms(3,4)] assms(5) by simp

lemma reopened_files:
  assumes dom: "\<forall>name. os_file os name \<noteq> None \<longrightarrow> (\<exists>b \<in> set bases. name \<in> own_files b)"
    and t: "only_touches (own_files base) os os'" and bases: "map base_of (segments l) = bases" "base \<in> set bases"
  shows "\<forall>name. os_file os' name \<noteq> None \<longrightarrow> name \<in> log_files l"
proof (intro allI impI)
  fix name
  assume name: "os_file os' name \<noteq> None"
  have "log_files l = (\<Union>b \<in> set (map base_of (segments l)). own_files b)"
    by (auto simp: log_files_def own_files_def)
  then have files: "log_files l = (\<Union>b \<in> set bases. own_files b)"
    by (simp only: bases(1))
  show "name \<in> log_files l"
    unfolding files using name dom only_touchesD(1) [OF t] bases(2) by (cases "name \<in> own_files base") auto
qed

lemma log_open_ok:
  assumes nf: "os_faults os = []" and dir: "dir_repr D os start fss' fs torn" and stop: "scan_stops D torn"
    and lim: "recoverable os start fss' fs torn"
  obtains l' os' where "log_open D cfg os = (Ok l', os')" "log_repr D l' os' start (fss' @ [fs])"
    "log_cfg l' = cfg" "only_touches (own_files (start + length (concat fss'))) os os'"
    "os_durable os (segment_path (start + length (concat fss'))) = os_content os (segment_path (start + length (concat fss'))) \<Longrightarrow>
       os_durable os' (segment_path (start + length (concat fss'))) = Some (wire fs)"
proof -
  define base where "base = start + length (concat fss')"
  have wf: "os_wf os" and sealed: "list_all2 (sealed_file D os) (starts start fss') fss'"
    and ne: "list_all (\<lambda>fs. fs \<noteq> []) fss'" and frames: "\<forall>(f, r) \<in> set fs. wire_frame D f r"
    and content: "os_content os (segment_path base) = Some (wire fs @ torn)"
    and dom: "\<forall>name. os_file os name \<noteq> None \<longrightarrow> (\<exists>b \<in> set (starts start (fss' @ [fs])). name \<in> own_files b)"
    using dir by (auto simp: dir_repr_def base_def)
  have limits: "base < 2 ^ 64" "length (wire fs @ torn) \<le> os_read_limit os" "length (wire (butlast fs)) < 2 ^ 32"
    using lim by (auto simp: recoverable_def base_def)
  have disc: "discover_segment_offsets os = (Ok (starts start fss' @ [base]), os)"
    using discover_ok [OF nf dir] limits(1) by (simp add: base_def starts_append)
  obtain ss where ss: "open_sealed (index_interval cfg) (starts start fss') os = (Ok ss, os)"
    "list_all2 (seg_repr D os) ss fss'" "map base_of ss = starts start fss'"
    using open_sealed_ok [OF nf sealed] by blast
  obtain seg idx os' where rc: "recover_active_segment D base (index_interval cfg) os = (Ok (seg, idx, length fs), os')"
    and s: "seg_repr D os' \<lparr>the_segment = seg, the_index = idx\<rparr> fs" and sb: "seg_base_offset seg = base"
    and t: "only_touches (own_files base) os os'" and wf': "os_wf os'"
    and dur: "os_durable os (segment_path base) = os_content os (segment_path base) \<Longrightarrow> os_durable os' (segment_path base) = Some (wire fs)"
    by (rule recover_active_segment_ok [OF nf wf content frames stop limits(2,3)]) blast
  define l' where "l' = \<lparr>log_cfg = cfg, segments = ss @ [\<lparr>the_segment = seg, the_index = idx\<rparr>],
    next_offset = base + length fs, encode_buf = [], actual_sizes = []\<rparr>"
  have op: "log_open D cfg os = (Ok l', os')"
    using nf disc ss(1) rc by (simp add: log_open_def create_dir_all_def io_simps Let_def l'_def)
  have segs: "segments l' = ss @ [\<lparr>the_segment = seg, the_index = idx\<rparr>]"
    by (simp add: l'_def)
  have "\<forall>name. os_file os' name \<noteq> None \<longrightarrow> name \<in> log_files l'"
    using ss(3) sb by (intro reopened_files [OF dom t]) (simp_all add: segs starts_append base_def)
  then have "log_repr D l' os' start (fss' @ [fs])"
    unfolding log_repr_snoc [OF segs]
    using wf' sealed_file_frame [OF ss(2) t ss(3) ne] s ss(3) sb ne by (auto simp: base_def l'_def)
  then show thesis
    using that [OF op] t dur by (simp add: l'_def base_def)
qed

section \<open>After a crash\<close>

lemma seg_repr_sealed_file:
  assumes "seg_repr D os s fs" and "\<forall>x \<in> own_files (base_of s). os_content os' x = os_content os x"
  shows "sealed_file D os' (base_of s) fs"
proof -
  have "os_content os' (segment_path (base_of s)) = os_content os (segment_path (base_of s))"
    "os_content os' (index_path (base_of s)) = os_content os (index_path (base_of s))"
    using assms(2) by (auto simp: own_files_def)
  with seg_repr_contents [OF assms(1)] assms(1) show ?thesis
    by (auto simp: sealed_file_def seg_repr_def index_ok_def)
qed

text \<open>
  A directory with the file names of the log, its sealed segments as they were and some frames and
  a torn tail in the active one.
\<close>

lemma log_repr_dir:
  assumes repr: "log_repr D l os start (fss' @ [fs])" and names: "map fst (os_files os') = map fst (os_files os)"
    and same: "\<forall>s \<in> set (butlast (segments l)). \<forall>x \<in> own_files (base_of s). os_content os' x = os_content os x"
    and active: "os_content os' (segment_path (start + length (concat fss'))) = Some (wire gs @ torn)"
    and gs: "\<forall>(f, r) \<in> set gs. wire_frame D f r"
  shows "dir_repr D os' start fss' gs torn"
proof -
  from repr obtain ss s where l: "segments l = ss @ [s]" and wf: "os_wf os"
    and sealed: "list_all2 (seg_repr D os) ss fss'"
    and bases: "map base_of ss = starts start fss'" and base: "base_of s = start + length (concat fss')"
    and ne: "list_all (\<lambda>fs. fs \<noteq> []) fss'" and dom: "\<forall>name. os_file os name \<noteq> None \<longrightarrow> name \<in> log_files l"
    by (auto elim!: log_repr_active)
  have "list_all2 (sealed_file D os') (map base_of ss) fss'"
    unfolding list_all2_map1
    by (rule list.rel_mono_strong [OF sealed]) (use same l seg_repr_sealed_file in auto)
  moreover have "os_wf os'"
    using wf names by (simp add: os_wf_def)
  moreover have "\<exists>b \<in> set (starts start (fss' @ [gs])). name \<in> own_files b" if "os_file os' name \<noteq> None" for name
  proof -
    have "os_file os name \<noteq> None"
      using that os_file_iff_dir [of os name] os_file_iff_dir [of os' name] names by metis
    with dom l have "\<exists>r \<in> set (ss @ [s]). name \<in> own_files (base_of r)"
      by (auto simp: log_files_def own_files_def)
    then have "\<exists>b \<in> set (map base_of (ss @ [s])). name \<in> own_files b"
      by auto
    with bases base show ?thesis
      by (simp add: starts_append)
  qed
  ultimately show ?thesis
    using bases ne active gs by (auto simp: dir_repr_def)
qed

lemma survives_synced: "survives f c \<Longrightarrow> file_durable f = file_content f \<Longrightarrow> c = file_content f"
  by (auto simp: survives_def)

lemma survives_frames:
  assumes frames: "\<forall>(f, r) \<in> set fs. wire_frame D f r" and n: "n \<le> length fs"
    and f: "file_content f = wire fs" "file_durable f = wire (take n fs)" and "survives f c"
  obtains m torn where "n \<le> m" "m \<le> length fs" "c = wire (take m fs) @ torn" "scan_stops D torn"
proof -
  consider k where "length (wire (take n fs)) \<le> k" "c = take k (wire fs)"
    | z where "c = wire (take n fs) @ replicate z 0"
    using assms by (auto simp: survives_def)
  then show thesis
  proof cases
    case 1
    have "\<forall>(f, r) \<in> set (drop n fs). wire_frame D f r"
      using frames by (auto dest: in_set_dropD)
    from torn_frames [OF this, of "k - length (wire (take n fs))"] obtain m torn where
      m: "m \<le> length (drop n fs)" "take (k - length (wire (take n fs))) (wire (drop n fs)) = wire (take m (drop n fs)) @ torn"
         "scan_stops D torn"
      by blast
    have "c = wire (take n fs) @ take (k - length (wire (take n fs))) (wire (drop n fs))"
      unfolding 1(2) by (subst wire_take_drop [of n, symmetric]) (use 1(1) in simp)
    then have "c = wire (take (n + m) fs) @ torn"
      by (simp add: m(2) take_add)
    with that [of "n + m" torn] m n show thesis by auto
  next
    case 2
    with that [of n "replicate z 0"] n scan_stops_zeros show thesis by simp
  qed
qed

lemma length_wire_take: "length (wire (take m fs)) \<le> length (wire fs)"
  using wire_take_drop [of m fs] by (metis le_add1 length_append)

lemma recoverable_prefix:
  assumes "length (wire fs) \<le> os_read_limit os" "length (wire fs) \<le> 2 ^ 32" "start + length (concat fss') < 2 ^ 64"
    and frames: "\<forall>(f, r) \<in> set fs. wire_frame D f r" and "length (wire (take m fs) @ torn) \<le> length (wire fs)"
  shows "recoverable os start fss' (take m fs) torn"
proof -
  have "length (wire (butlast (take m fs))) < 2 ^ 32"
  proof (cases "take m fs = []")
    case False
    have "\<forall>(f, r) \<in> set (take m fs). wire_frame D f r"
      using frames by (auto dest: in_set_takeD)
    from wire_butlast_less [OF this False] length_wire_take [of m fs] assms(2) show ?thesis
      by linarith
  qed (simp only: butlast.simps list.map concat.simps list.size, simp)
  with assms show ?thesis
    by (auto simp: recoverable_def)
qed

lemma power_loss_synced:
  assumes "power_loss os os'" and "os_durable os x = os_content os x"
  shows "os_content os' x = os_content os x" and "os_durable os' x = os_content os' x"
proof -
  have names: "os_file os x = None \<longleftrightarrow> os_file os' x = None"
    using assms(1) os_file_iff_dir [of os x] os_file_iff_dir [of os' x] unfolding power_loss_def by metis
  show "os_content os' x = os_content os x" "os_durable os' x = os_content os' x"
    using assms names survives_synced by (cases "os_file os x"; force simp: power_loss_def os_content_def os_durable_def)+
qed

lemma power_loss_durable: "power_loss os os' \<Longrightarrow> os_file os x \<noteq> None \<Longrightarrow> os_durable os' x = os_content os' x"
  by (force simp: power_loss_def os_content_def os_durable_def)

lemma log_synced_recovered:
  assumes repr: "log_repr D l os start (fss' @ [gs])"
    and sealed: "\<forall>b \<in> set (starts start fss'). \<forall>x \<in> own_files b. os_durable os x = os_content os x"
    and active: "os_durable os (segment_path (start + length (concat fss'))) = Some (wire gs)"
  shows "log_inv D l os start (fss' @ [gs]) (length gs)"
proof -
  from repr obtain ss s where l: "segments l = ss @ [s]" and bases: "map base_of ss = starts start fss'"
    and base: "base_of s = start + length (concat fss')"
    by (auto elim!: log_repr_active)
  have "\<forall>r \<in> set ss. \<forall>x \<in> own_files (base_of r). os_durable os x = os_content os x"
    using sealed unfolding bases [symmetric] by simp
  with repr active l base show ?thesis
    by (simp add: log_inv_def log_synced_def)
qed

lemma starts_apart:
  assumes "list_all (\<lambda>fs. fs \<noteq> []) fss'" and "b \<in> set (starts start fss')" and "x \<in> own_files b"
  shows "x \<notin> own_files (start + length (concat fss'))"
  using starts_less [OF assms(1,2)] assms(3) by (auto simp: own_files_def)

text \<open>Opening a directory of which every file that matters is durable gives a log all of whose records are durable.\<close>

lemma log_open_durable:
  assumes nf: "os_faults os = []" and dir: "dir_repr D os start fss' fs torn" and stop: "scan_stops D torn"
    and lim: "recoverable os start fss' fs torn"
    and sealed: "\<forall>b \<in> set (starts start fss'). \<forall>x \<in> own_files b. os_durable os x = os_content os x"
    and active: "os_durable os (segment_path (start + length (concat fss'))) = os_content os (segment_path (start + length (concat fss')))"
  obtains l' os' where "log_open D cfg os = (Ok l', os')" "log_cfg l' = cfg" "log_inv D l' os' start (fss' @ [fs]) (length fs)"
    "os_faults os' = []" "os_read_limit os' = os_read_limit os"
proof (rule log_open_ok [OF nf dir stop lim, of cfg])
  fix l' os'
  let ?base = "start + length (concat fss')"
  assume op: "log_open D cfg os = (Ok l', os')" "log_repr D l' os' start (fss' @ [fs])" "log_cfg l' = cfg"
    "only_touches (own_files ?base) os os'"
    "os_durable os (segment_path ?base) = os_content os (segment_path ?base) \<Longrightarrow> os_durable os' (segment_path ?base) = Some (wire fs)"
  have "list_all (\<lambda>fs. fs \<noteq> []) fss'"
    using dir by (simp add: dir_repr_def)
  from starts_apart [OF this] have "\<forall>b \<in> set (starts start fss'). \<forall>x \<in> own_files b. os_durable os' x = os_content os' x"
    using sealed only_touchesD(2,3) [OF op(4)] by simp
  from log_synced_recovered [OF op(2) this op(5) [OF active]] show thesis
    using that [OF op(1,3)] nf only_touchesD(4,6) [OF op(4)] by simp
qed

theorem log_open_after_power_loss:
  assumes inv: "log_inv D l os start (fss' @ [fs]) n" and loss: "power_loss os os'" and nf: "os_faults os' = []"
    and lim: "next_offset l < 2 ^ 64" "length (wire fs) \<le> os_read_limit os'" "length (wire fs) \<le> 2 ^ 32"
  obtains m l' os'' where "n \<le> m" "m \<le> length fs" "log_open D cfg os' = (Ok l', os'')" "log_cfg l' = cfg"
    "log_inv D l' os'' start (fss' @ [take m fs]) m" "os_faults os'' = []" "os_read_limit os'' = os_read_limit os'"
proof -
  define base where "base = start + length (concat fss')"
  have repr: "log_repr D l os start (fss' @ [fs])" and syn: "log_synced l os (fss' @ [fs]) n"
    using inv by (auto simp: log_inv_def)
  from repr obtain ss s where l: "segments l = ss @ [s]" and s: "seg_repr D os s fs" and sb: "base_of s = base"
    and bases: "map base_of ss = starts start fss'" and ne: "list_all (\<lambda>fs. fs \<noteq> []) fss'"
    and nxt: "next_offset l = start + length (concat fss') + length fs"
    unfolding base_def by (auto elim!: log_repr_active)
  have frames: "\<forall>(f, r) \<in> set fs. wire_frame D f r"
    using s by (auto simp: seg_repr_def)
  have dur: "\<forall>r \<in> set ss. \<forall>x \<in> own_files (base_of r). os_durable os x = os_content os x"
    and act: "os_durable os (segment_path base) = Some (wire (take n fs))" "n \<le> length fs"
    using syn l sb by (auto simp: log_synced_def)
  obtain f where f: "os_file os (segment_path base) = Some f"
    using seg_repr_files(1) [OF s] sb by auto
  then have "file_content f = wire fs" "file_durable f = wire (take n fs)"
    using seg_repr_contents(1) [OF s] act sb by (auto simp: os_content_def os_durable_def)
  moreover obtain c where c: "survives f c" "os_content os' (segment_path base) = Some c"
    using loss f by (force simp: power_loss_def os_content_def)
  ultimately obtain m torn where m: "n \<le> m" "m \<le> length fs" "c = wire (take m fs) @ torn" "scan_stops D torn"
    using survives_frames [OF frames act(2)] by metis
  have "length c \<le> length (wire fs)"
    using c(1) \<open>file_content f = wire fs\<close> \<open>file_durable f = wire (take n fs)\<close> length_wire_take [of n fs]
    by (auto simp: survives_def)
  then have rec: "recoverable os' start fss' (take m fs) torn"
    using recoverable_prefix [OF lim(2,3) _ frames] lim(1) nxt m(3) by simp
  have gs: "\<forall>(f, r) \<in> set (take m fs). wire_frame D f r"
    using frames by (auto dest: in_set_takeD)
  have dir: "dir_repr D os' start fss' (take m fs) torn"
  proof (rule log_repr_dir [OF repr _ _ _ gs])
    show "map fst (os_files os') = map fst (os_files os)"
      using loss by (simp add: power_loss_def)
    show "\<forall>s \<in> set (butlast (segments l)). \<forall>x \<in> own_files (base_of s). os_content os' x = os_content os x"
      using dur power_loss_synced(1) [OF loss] l by simp
    show "os_content os' (segment_path (start + length (concat fss'))) = Some (wire (take m fs) @ torn)"
      using c(2) m(3) by (simp add: base_def)
  qed
  have sealed: "\<forall>b \<in> set (starts start fss'). \<forall>x \<in> own_files b. os_durable os' x = os_content os' x"
    using dur power_loss_synced(2) [OF loss] unfolding bases [symmetric] by auto
  have active: "os_durable os' (segment_path (start + length (concat fss'))) = os_content os' (segment_path (start + length (concat fss')))"
    using power_loss_durable [OF loss, of "segment_path base"] f by (simp add: base_def)
  show thesis
    by (rule log_open_durable [OF nf dir m(4) rec sealed active, of cfg]) (use that [OF m(1,2)] m(2) in auto)
qed

end
