(* ===== verification/Kafko_LogProps.thy ===== *)
theory Kafko_LogProps
  imports Kafko_Recovery
begin

text \<open>
  The log as its callers see it: each operation of \<^verbatim>\<open>Log\<close> against the abstract log of
  \<open>Kafko_LogSpec\<close>, stated over \<open>log_models\<close>, with the durable prefix made explicit. At the
  end, the behaviours the log does not have: what a failed write leaves behind.
\<close>

section \<open>Creating and syncing\<close>

text \<open>A log that starts at offset \<open>b\<close> in an empty directory.\<close>

lemma fresh_log:
  assumes nf: "os_faults os = []" and empty: "os_files os = []"
  obtains seg idx os1 os2 where "segment_create b os = (Ok seg, os1)" "index_create b (index_interval cfg) os1 = (Ok idx, os2)"
    "log_inv D \<lparr>log_cfg = cfg, segments = [\<lparr>the_segment = seg, the_index = idx\<rparr>], next_offset = b, encode_buf = [], actual_sizes = []\<rparr> os2 b [[]] 0"
    "os_faults os2 = []" "os_read_limit os2 = os_read_limit os"
proof -
  have none: "os_file os name = None" for name
    using empty by (simp add: os_file_def)
  obtain seg idx os1 os2 where c: "segment_create b os = (Ok seg, os1)" "index_create b (index_interval cfg) os1 = (Ok idx, os2)"
    and r: "seg_repr D os2 \<lparr>the_segment = seg, the_index = idx\<rparr> []" "seg_base_offset seg = b"
    and t: "only_touches (own_files b) os os2" and wf: "os_wf os2"
    and d: "\<forall>x \<in> own_files b. os_durable os2 x = Some [] \<and> os_content os2 x = Some []"
    using nf none empty by (elim fresh_segment [where D = D and ival = "index_interval cfg" and b = b]) (auto simp: os_wf_def)
  have "name = segment_path b \<or> name = index_path b" if "os_file os2 name \<noteq> None" for name
    using that only_touchesD(1) [OF t, of name] none by (cases "name \<in> own_files b") (auto simp: own_files_def)
  then have "log_inv D \<lparr>log_cfg = cfg, segments = [\<lparr>the_segment = seg, the_index = idx\<rparr>], next_offset = b, encode_buf = [], actual_sizes = []\<rparr> os2 b [[]] 0"
    using r wf d by (auto simp: log_inv_def log_repr_def log_synced_def log_files_def own_files_def)
  with that [OF c] nf only_touchesD(4,6) [OF t] show thesis
    by simp
qed

lemma log_create_inv:
  assumes nf: "os_faults os = []" and empty: "os_files os = []"
  obtains l os' where "log_create cfg os = (Ok l, os')" "log_inv D l os' 0 [[]] 0" "log_cfg l = cfg"
    "os_faults os' = []" "os_read_limit os' = os_read_limit os"
proof (rule fresh_log [OF assms, where b = 0 and cfg = cfg and D = D])
  fix seg idx os1 os2
  assume "segment_create 0 os = (Ok seg, os1)" "index_create 0 (index_interval cfg) os1 = (Ok idx, os2)"
    "log_inv D \<lparr>log_cfg = cfg, segments = [\<lparr>the_segment = seg, the_index = idx\<rparr>], next_offset = 0, encode_buf = [], actual_sizes = []\<rparr> os2 0 [[]] 0"
    "os_faults os2 = []" "os_read_limit os2 = os_read_limit os"
  with nf that show thesis
    by (simp add: log_create_def create_dir_all_def io_simps)
qed

lemma log_sync_inv:
  assumes nf: "os_faults os = []" and inv: "log_inv D l os start (fss' @ [fs]) n"
  obtains os' where "log_sync (l, os) = (Ok (), l, os')" "log_inv D l os' start (fss' @ [fs]) (length fs)"
    "os_faults os' = []" "os_read_limit os' = os_read_limit os"
proof -
  have repr: "log_repr D l os start (fss' @ [fs])" and syn: "log_synced l os (fss' @ [fs]) n"
    using inv by (auto simp: log_inv_def)
  from repr obtain ss s where l: "segments l = ss @ [s]" and wf: "os_wf os"
    and sealed: "list_all2 (seg_repr D os) ss fss'" and s: "seg_repr D os s fs"
    and bases: "map base_of ss = starts start fss'" and base: "base_of s = start + length (concat fss')"
    and ne: "list_all (\<lambda>fs. fs \<noteq> []) fss'" and nxt: "next_offset l = start + length (concat fss') + length fs"
    and dom: "\<forall>name. os_file os name \<noteq> None \<longrightarrow> name \<in> log_files l"
    by (auto elim!: log_repr_active)
  obtain os1 os2 where sy: "with_active_segment segment_sync (l, os) = (Ok (), l, os1)"
    "with_active_index index_sync (l, os1) = (Ok (), l, os2)" and t: "only_touches (own_files (base_of s)) os os2"
    and s2: "seg_repr D os2 s fs" and wf2: "os_wf os2"
    and dur: "\<forall>x \<in> own_files (base_of s). os_durable os2 x = os_content os2 x"
    by (rule sync_active [OF nf s l wf])
  have own: "own_files (base_of s) \<subseteq> log_files l"
    using l by (auto simp: log_files_def own_files_def)
  have dom2: "\<forall>name. os_file os2 name \<noteq> None \<longrightarrow> name \<in> log_files l"
    using dom own only_touchesD(1) [OF t] by (metis subsetD)
  have repr2: "log_repr D l os2 start (fss' @ [fs])"
    unfolding log_repr_snoc [OF l]
    using wf2 sealed_file_frame [OF sealed t bases ne base] s2 bases base ne nxt dom2 by auto
  have "os_durable os2 x = os_content os2 x" if "r \<in> set ss" "x \<in> own_files (base_of r)" for r x
    using that syn l sealed_untouched(1) [OF repr, of r x] only_touchesD(2,3) [OF t, of x] base
    by (auto simp: log_synced_def)
  moreover have "os_durable os2 (segment_path (base_of s)) = Some (wire fs)"
    using dur seg_repr_contents(1) [OF s2] by (auto simp: own_files_def)
  ultimately have "log_inv D l os2 start (fss' @ [fs]) (length fs)"
    using repr2 l by (auto simp: log_inv_def log_synced_def)
  with that [of os2] sy nf only_touchesD(4,6) [OF t] show thesis
    by (simp add: log_sync_def)
qed

section \<open>The properties of the log\<close>

lemma log_models_cases:
  assumes "log_models D l os a d"
  obtains fss' fs n where "log_inv D l os (al_first a) (fss' @ [fs]) n" "a = abs_log (al_first a) (fss' @ [fs])"
    "d = durable_end (al_first a) (fss' @ [fs]) n" "next_offset l = al_next a"
proof -
  from assms obtain start fss n where *: "log_inv D l os start fss n" "a = abs_log start fss" "d = durable_end start fss n"
    by (auto simp: log_models_def)
  then have "next_offset l = al_next a"
    by (simp add: log_inv_def log_repr_def al_next_def abs_log_def)
  moreover obtain fss' fs where "fss = fss' @ [fs]"
    using log_inv_active [OF *(1)] by metis
  moreover have "al_first a = start"
    using *(2) by (simp add: abs_log_def)
  ultimately show thesis
    using that [of fss' fs n] * by simp
qed

lemma log_modelsI: "log_inv D l os start fss n \<Longrightarrow> log_models D l os (abs_log start fss) (durable_end start fss n)"
  by (auto simp: log_models_def)

text \<open>
  C3: appending one record. On a directory without faults \<^verbatim>\<open>Log::append\<close> returns the next
  offset, the log then holds the record at the end, rotation included, and nothing that was
  durable ceases to be.
\<close>

theorem log_append_refines:
  assumes "os_faults os = []" and "codec_laws D" and "log_models D l os a d"
    and "encodable D (cfg_compression (log_cfg l)) r" and "segment_size_threshold (log_cfg l) \<le> 2 ^ 32"
  shows "\<exists>l' os' d'. log_append D r (l, os) = (Ok (al_next a), l', os') \<and> log_models D l' os' (al_append [r] a) d' \<and>
           d \<le> d' \<and> log_cfg l' = log_cfg l \<and> os_faults os' = []"
proof -
  from assms(3) obtain fss' fs n where inv: "log_inv D l os (al_first a) (fss' @ [fs]) n"
    and a: "a = abs_log (al_first a) (fss' @ [fs])" and d: "d = durable_end (al_first a) (fss' @ [fs]) n"
    and nxt: "next_offset l = al_next a"
    by (rule log_models_cases)
  obtain l' os' gss n' where r: "log_append D r (l, os) = (Ok (next_offset l), l', os')"
    "log_inv D l' os' (al_first a) gss n'" "map snd (concat gss) = map snd (concat (fss' @ [fs])) @ [r]"
    "durable_end (al_first a) (fss' @ [fs]) n \<le> durable_end (al_first a) gss n'" "log_cfg l' = log_cfg l" "os_faults os' = []"
    by (rule log_append_inv [OF assms(1,2) inv assms(4,5)])
  have "abs_log (al_first a) gss = al_append [r] a"
    using r(3) by (subst (2) a) (simp add: abs_log_def al_append_def)
  with log_modelsI [OF r(2)] r nxt d show ?thesis
    by auto
qed

text \<open>
  C13: appending a batch. \<^verbatim>\<open>Log::append_batch\<close> returns consecutive offsets from the next one on
  and the log then holds the records in their order, exactly as that many single appends would
  leave it.
\<close>

theorem log_append_batch_refines:
  assumes "os_faults os = []" and "codec_laws D" and "log_models D l os a d"
    and "\<forall>r \<in> set rs. encodable D (cfg_compression (log_cfg l)) r"
    and "segment_size_threshold (log_cfg l) + length (concat (map (encoded D (cfg_compression (log_cfg l))) rs)) \<le> 2 ^ 32"
  shows "\<exists>l' os' d'. log_append_batch D rs (l, os) = (Ok [al_next a ..< al_next a + length rs], l', os') \<and>
           log_models D l' os' (foldl (\<lambda>b r. al_append [r] b) a rs) d' \<and> d \<le> d' \<and> log_cfg l' = log_cfg l \<and> os_faults os' = []"
proof (cases "rs = []")
  case True
  with assms show ?thesis by (auto simp: log_append_batch_def)
next
  case False
  have single: "foldl (\<lambda>b r. al_append [r] b) b rs = al_append rs b" for b
    by (induction rs arbitrary: b) (auto simp: al_append_def)
  from assms(3) obtain fss' fs n where inv: "log_inv D l os (al_first a) (fss' @ [fs]) n"
    and a: "a = abs_log (al_first a) (fss' @ [fs])" and d: "d = durable_end (al_first a) (fss' @ [fs]) n"
    and nxt: "next_offset l = al_next a"
    by (rule log_models_cases)
  obtain l' os' gss n' where r: "log_append_batch D rs (l, os) = (Ok [next_offset l ..< next_offset l + length rs], l', os')"
    "log_inv D l' os' (al_first a) gss n'" "map snd (concat gss) = map snd (concat (fss' @ [fs])) @ rs"
    "durable_end (al_first a) (fss' @ [fs]) n \<le> durable_end (al_first a) gss n'" "log_cfg l' = log_cfg l" "os_faults os' = []"
    by (rule log_append_batch_inv [OF assms(1,2) inv assms(4) False assms(5)])
  have "abs_log (al_first a) gss = al_append rs a"
    using r(3) by (subst (2) a) (simp add: abs_log_def al_append_def)
  with log_modelsI [OF r(2)] r nxt d show ?thesis
    unfolding single by auto
qed

text \<open>The segments of a log are within what one read call returns and what a 32-bit index position can name.\<close>

definition log_within :: "log \<Rightarrow> os \<Rightarrow> bool" where
  "log_within l os \<longleftrightarrow>
     next_offset l < 2 ^ 64 \<and>
     list_all (\<lambda>s. seg_size (the_segment s) \<le> os_read_limit os \<and> seg_size (the_segment s) \<le> 2 ^ 32) (segments l)"

lemma log_within_sizes:
  assumes "log_repr D l os start fss" and "log_within l os'"
  shows "\<forall>fs \<in> set fss. length (wire fs) \<le> os_read_limit os' \<and> length (wire fs) \<le> 2 ^ 32"
proof
  fix fs
  assume "fs \<in> set fss"
  then obtain i where i: "i < length fss" "fs = fss ! i"
    by (auto simp: in_set_conv_nth)
  with log_repr_nth(1,2) [OF assms(1) i(1)] have "seg_size (the_segment (segments l ! i)) = length (wire fs)" "i < length (segments l)"
    by (auto simp: seg_repr_def segment_ok_def)
  moreover from this have "seg_size (the_segment (segments l ! i)) \<le> os_read_limit os' \<and> seg_size (the_segment (segments l ! i)) \<le> 2 ^ 32"
    using assms(2) unfolding log_within_def list_all_length by blast
  ultimately show "length (wire fs) \<le> os_read_limit os' \<and> length (wire fs) \<le> 2 ^ 32"
    by simp
qed

text \<open>
  C4: reading. \<^verbatim>\<open>Log::read_record_at\<close> returns the record stored at the offset, and nothing
  for an offset at or past the end or below the first record retention has kept, whatever
  segment and index entry the search starts from; the log is unchanged.
\<close>

theorem read_record_at_refines:
  assumes "os_faults os = []" and "log_models D l os a d" and "log_within l os"
  shows "\<exists>l'. read_record_at D offset (l, os) = (Ok (al_read offset a), l', os) \<and> log_models D l' os a d \<and> log_cfg l' = log_cfg l"
proof -
  from assms(2) obtain fss' fs n where inv: "log_inv D l os (al_first a) (fss' @ [fs]) n"
    and a: "a = abs_log (al_first a) (fss' @ [fs])" and d: "d = durable_end (al_first a) (fss' @ [fs]) n"
    by (rule log_models_cases)
  have "\<forall>gs \<in> set (fss' @ [fs]). length (wire gs) \<le> os_read_limit os"
    using log_within_sizes [OF _ assms(3)] inv by (auto simp: log_inv_def)
  then obtain l' where "read_record_at D offset (l, os) = (Ok (al_read offset (abs_log (al_first a) (fss' @ [fs]))), l', os)"
    "log_inv D l' os (al_first a) (fss' @ [fs]) n" "log_cfg l' = log_cfg l"
    by (rule read_record_at_inv [OF assms(1) inv])
  then show ?thesis
    using log_modelsI a d by metis
qed

text \<open>
  C27: retention. \<^verbatim>\<open>Log::apply_retention\<close> deletes whole segments from the old end: the log
  loses a prefix of its records and nothing else, the active segment and the next offset stay,
  and when a size limit is set the log ends up within it or is down to its active segment.
\<close>

theorem apply_retention_refines:
  assumes "os_faults os = []" and "log_models D l os a d"
  shows "\<exists>k j l' os'. apply_retention (l, os) = (Ok k, l', os') \<and> log_models D l' os' (al_trim j a) d \<and>
           k < segment_count l \<and> segments l' = drop k (segments l) \<and> next_offset l' = next_offset l \<and>
           (case max_partition_bytes (log_cfg l) of None \<Rightarrow> True | Some b \<Rightarrow> total_size l' \<le> b \<or> segment_count l' = 1) \<and>
           os_faults os' = []"
proof -
  from assms(2) obtain fss' fs n where inv: "log_inv D l os (al_first a) (fss' @ [fs]) n"
    and a: "a = abs_log (al_first a) (fss' @ [fs])" and d: "d = durable_end (al_first a) (fss' @ [fs]) n"
    by (rule log_models_cases)
  let ?fss = "fss' @ [fs]"
  obtain k l' os' where ret: "apply_retention (l, os) = (Ok k, l', os')" and dr: "dropped D (l, os) (al_first a) ?fss n k (l', os')"
    and mb: "\<And>b. max_partition_bytes (log_cfg l) = Some b \<Longrightarrow> total_size l' \<le> b \<or> segment_count l' = 1"
    by (rule apply_retention_inv [OF assms(1) inv]) blast
  define j where "j = length (concat (take k ?fss))"
  have k: "k < length ?fss" and inv': "log_inv D l' os' (al_first a + j) (drop k ?fss) n"
    using dr by (auto simp: dropped_def j_def)
  have split: "concat ?fss = concat (take k ?fss) @ concat (drop k ?fss)"
    by (metis append_take_drop_id concat_append)
  have "abs_log (al_first a + j) (drop k ?fss) = al_trim j a"
    by (subst (2) a, unfold abs_log_def al_trim_def alog.simps split) (simp add: j_def drop_map)
  moreover have "durable_end (al_first a + j) (drop k ?fss) n = d"
  proof -
    have "k \<le> length fss'"
      using k by simp
    moreover have "length (concat fss') = length (concat (take k fss')) + length (concat (drop k fss'))"
      by (metis append_take_drop_id concat_append length_append)
    ultimately show ?thesis
      by (simp add: d j_def durable_end_def)
  qed
  ultimately have "log_models D l' os' (al_trim j a) d"
    using log_modelsI [OF inv'] by simp
  moreover have "length (segments l) = length ?fss"
    using inv log_repr_length by (auto simp: log_inv_def)
  ultimately show ?thesis
    using ret mb dr k by (auto simp: dropped_def segment_count_def split: option.splits)
qed

text \<open>C28: \<^verbatim>\<open>Log::sync\<close> makes every record of the log durable and changes nothing else.\<close>

theorem log_sync_durable:
  assumes "os_faults os = []" and "log_models D l os a d"
  shows "\<exists>os'. log_sync (l, os) = (Ok (), l, os') \<and> log_models D l os' a (al_next a) \<and> os_faults os' = []"
proof -
  from assms(2) obtain fss' fs n where inv: "log_inv D l os (al_first a) (fss' @ [fs]) n"
    and a: "a = abs_log (al_first a) (fss' @ [fs])"
    by (rule log_models_cases)
  obtain os' where "log_sync (l, os) = (Ok (), l, os')" "log_inv D l os' (al_first a) (fss' @ [fs]) (length fs)" "os_faults os' = []"
    by (rule log_sync_inv [OF assms(1) inv])
  moreover have "al_next a = durable_end (al_first a) (fss' @ [fs]) (length fs)"
    by (subst (2) a, unfold al_next_def) (simp add: durable_end_def, subst a, simp add: abs_log_def)
  ultimately show ?thesis
    using log_modelsI a by metis
qed

text \<open>
  C2: recovery. After a power loss \<^verbatim>\<open>Log::open\<close> succeeds on what is left of the directory and
  the log holds a prefix of the records it held, one that includes every durable record, and all
  of which is now durable: no durable record is lost, none is altered, reordered or invented.
\<close>

theorem log_open_recovers:
  assumes "log_models D l os a d" and "power_loss os os'" and "os_faults os' = []" and "log_within l os'"
  shows "\<exists>k l' os''. log_open D cfg os' = (Ok l', os'') \<and> d \<le> al_first a + k \<and> k \<le> length (al_records a) \<and>
           log_models D l' os'' (a\<lparr>al_records := take k (al_records a)\<rparr>) (al_first a + k) \<and> log_cfg l' = cfg"
proof -
  from assms(1) obtain fss' fs n where inv: "log_inv D l os (al_first a) (fss' @ [fs]) n"
    and a: "a = abs_log (al_first a) (fss' @ [fs])" and d: "d = durable_end (al_first a) (fss' @ [fs]) n"
    by (rule log_models_cases)
  have lim: "next_offset l < 2 ^ 64" "length (wire fs) \<le> os_read_limit os'" "length (wire fs) \<le> 2 ^ 32"
    using log_within_sizes [OF _ assms(4)] assms(4) inv by (auto simp: log_inv_def log_within_def)
  obtain m l' os'' where m: "n \<le> m" "m \<le> length fs" "log_open D cfg os' = (Ok l', os'')" "log_cfg l' = cfg"
    "log_inv D l' os'' (al_first a) (fss' @ [take m fs]) m"
    by (rule log_open_after_power_loss [OF inv assms(2,3) lim]) blast
  define k where "k = length (concat fss') + m"
  have recs: "al_records a = map snd (concat fss') @ map snd fs"
    by (subst a) (simp add: abs_log_def)
  have "abs_log (al_first a) (fss' @ [take m fs]) = a\<lparr>al_records := take k (al_records a)\<rparr>"
    by (subst (2) a) (simp add: abs_log_def recs k_def take_map)
  moreover have "durable_end (al_first a) (fss' @ [take m fs]) m = al_first a + k"
    by (simp add: durable_end_def k_def)
  ultimately have "log_models D l' os'' (a\<lparr>al_records := take k (al_records a)\<rparr>) (al_first a + k)"
    using log_modelsI [OF m(5)] by simp
  moreover have "d \<le> al_first a + k" "k \<le> length (al_records a)"
    using m(1,2) by (simp_all add: d durable_end_def k_def recs)
  ultimately show ?thesis
    using m by blast
qed

section \<open>Segment sizes\<close>

text \<open>
  \<open>segments_bounded l\<close>: every segment is within the size threshold, or holds a single record.
  \<open>ends l\<close> lists, for each segment, the offset after its last record.
\<close>

definition ends :: "log \<Rightarrow> nat list" where
  "ends l = map base_of (tl (segments l)) @ [next_offset l]"

definition segments_bounded :: "log \<Rightarrow> bool" where
  "segments_bounded l \<longleftrightarrow>
     list_all2 (\<lambda>s e. seg_size (the_segment s) \<le> segment_size_threshold (log_cfg l) \<or> e - base_of s \<le> 1) (segments l) (ends l)"

lemma segments_bounded_repr:
  assumes repr: "log_repr D l os start fss"
  shows "segments_bounded l \<longleftrightarrow> list_all (\<lambda>fs. length (wire fs) \<le> segment_size_threshold (log_cfg l) \<or> length fs \<le> 1) fss"
proof -
  have len: "length (segments l) = length fss" "fss \<noteq> []"
    using log_repr_length [OF repr] by auto
  have e: "ends l ! i = start + length (concat (take (Suc i) fss))" if i: "i < length fss" for i
  proof (cases "Suc i < length fss")
    case True
    then have "ends l ! i = base_of (segments l ! Suc i)"
      using len by (auto simp: ends_def nth_append nth_tl)
    with log_repr_nth(3) [OF repr True] show ?thesis by simp
  next
    case False
    with i have "i = length fss - 1" "take (Suc i) fss = fss" by auto
    with len repr show ?thesis
      by (simp add: ends_def nth_append log_repr_def)
  qed
  have "ends l ! i - base_of (segments l ! i) = length (fss ! i)" if i: "i < length fss" for i
    using e [OF i] log_repr_nth(3) [OF repr i] i by (simp add: take_Suc_conv_app_nth)
  moreover have "seg_size (the_segment (segments l ! i)) = length (wire (fss ! i))" if i: "i < length fss" for i
    using log_repr_nth(2) [OF repr i] by (simp add: seg_repr_def segment_ok_def)
  moreover have "length (ends l) = length fss"
    using len by (cases "segments l") (auto simp: ends_def)
  ultimately show ?thesis
    using len by (auto simp: segments_bounded_def list_all2_conv_all_nth list_all_length)
qed


section \<open>A concrete run\<close>

text \<open>
  A log on an empty directory with one record appended: the input at which the properties are
  instantiated.
\<close>

definition demo_cfg :: log_config where
  "demo_cfg = default_log_config\<lparr>segment_size_threshold := 60, max_partition_bytes := Some 50\<rparr>"

lemma log_withinI:
  assumes "log_repr D l os start fss" and "next_offset l < 2 ^ 64"
    and "\<forall>fs \<in> set fss. length (wire fs) \<le> os_read_limit os' \<and> length (wire fs) \<le> 2 ^ 32"
  shows "log_within l os'"
proof -
  have "seg_size (the_segment (segments l ! i)) = length (wire (fss ! i))" if "i < length fss" for i
    using log_repr_nth(2) [OF assms(1) that] by (simp add: seg_repr_def segment_ok_def)
  with assms log_repr_length [OF assms(1)] show ?thesis
    by (auto simp: log_within_def list_all_length)
qed

lemma length_demo_encoded: "length (encoded demo_deps NoCompression demo_record) = 29"
  unfolding length_encoded_uncompressed by (simp add: wire_size_def demo_record_def record_new_def key_part_def)

lemma demo_log:
  obtains l os l' os' d where "log_create demo_cfg demo_os = (Ok l, os)" "log_append demo_deps demo_record (l, os) = (Ok 0, l', os')"
    "os_faults os' = []" "log_models demo_deps l' os' \<lparr>al_first = 0, al_records = [demo_record]\<rparr> d"
    "log_cfg l' = demo_cfg" "log_within l' os'" "segments_bounded l'"
proof -
  obtain l os where c: "log_create demo_cfg demo_os = (Ok l, os)" "log_inv demo_deps l os 0 [[]] 0" "log_cfg l = demo_cfg"
    "os_faults os = []" "os_read_limit os = os_read_limit demo_os"
    by (rule log_create_inv [of demo_os demo_cfg demo_deps]) (simp_all add: demo_os_def)
  have enc: "encodable demo_deps (cfg_compression (log_cfg l)) demo_record" and thr: "segment_size_threshold (log_cfg l) \<le> 2 ^ 32"
    and comp: "cfg_compression (log_cfg l) = NoCompression"
    using demo_encodable c(3) by (simp_all add: demo_cfg_def default_log_config_def)
  obtain l' os' gss n where a: "log_append demo_deps demo_record (l, os) = (Ok (next_offset l), l', os')"
    "log_inv demo_deps l' os' 0 gss n" "map snd (concat gss) = map snd (concat ([[]] :: framed list list)) @ [demo_record]" "log_cfg l' = log_cfg l"
    "os_faults os' = []" "next_offset l' = next_offset l + 1" "os_read_limit os' = os_read_limit os"
    "pushed (segment_size_threshold (log_cfg l)) (wire_size demo_record) [[]] [(encoded demo_deps (cfg_compression (log_cfg l)) demo_record, demo_record)] gss"
    by (rule log_append_inv [OF c(4) demo_codec_laws c(2) enc thr]) blast
  have "next_offset l = 0"
    using c(2) by (simp add: log_inv_def log_repr_def)
  have "list_all (\<lambda>fs. length (wire fs) \<le> 29) gss"
    using a(8) length_demo_encoded comp by (auto simp: pushed_def)
  then have w: "\<forall>fs \<in> set gss. length (wire fs) \<le> 29"
    by (simp add: list_all_iff)
  have "log_within l' os'"
    using a(2,6,7) c(5) w \<open>next_offset l = 0\<close> by (intro log_withinI [of demo_deps l' os' 0 gss]) (auto simp: log_inv_def demo_os_def)
  moreover have "segments_bounded l'"
    using segments_bounded_repr [of demo_deps l' os' 0 gss] a(2,4) c(3) w
    by (fastforce simp: log_inv_def list_all_iff demo_cfg_def)
  moreover have "log_models demo_deps l' os' \<lparr>al_first = 0, al_records = [demo_record]\<rparr> (durable_end 0 gss n)"
    using log_modelsI [OF a(2)] a(3) by (simp add: abs_log_def)
  ultimately show thesis
    using that [OF c(1)] a c(3) \<open>next_offset l = 0\<close> by simp
qed

lemma log_append_refines_witness:
  "\<exists>l os l' os' d'. os_faults os = [] \<and> log_append demo_deps demo_record (l, os) = (Ok 1, l', os') \<and>
     log_models demo_deps l' os' \<lparr>al_first = 0, al_records = [demo_record, demo_record]\<rparr> d'"
proof (rule demo_log)
  fix l os l' os' d
  assume *: "os_faults os' = []" "log_models demo_deps l' os' \<lparr>al_first = 0, al_records = [demo_record]\<rparr> d" "log_cfg l' = demo_cfg"
  have "encodable demo_deps (cfg_compression (log_cfg l')) demo_record" "segment_size_threshold (log_cfg l') \<le> 2 ^ 32"
    using demo_encodable *(3) by (simp_all add: demo_cfg_def default_log_config_def)
  from log_append_refines [OF *(1) demo_codec_laws *(2) this] obtain l2 os2 d2 where
    "log_append demo_deps demo_record (l', os') = (Ok 1, l2, os2)"
    "log_models demo_deps l2 os2 \<lparr>al_first = 0, al_records = [demo_record, demo_record]\<rparr> d2"
    by (auto simp: al_next_def al_append_def)
  with *(1) show ?thesis
    by blast
qed

lemma log_append_batch_refines_witness:
  "\<exists>l os l' os' d'. os_faults os = [] \<and> log_append_batch demo_deps [demo_record, demo_record] (l, os) = (Ok [1, 2], l', os') \<and>
     log_models demo_deps l' os' \<lparr>al_first = 0, al_records = [demo_record, demo_record, demo_record]\<rparr> d'"
proof (rule demo_log)
  fix l os l' os' d
  assume *: "os_faults os' = []" "log_models demo_deps l' os' \<lparr>al_first = 0, al_records = [demo_record]\<rparr> d" "log_cfg l' = demo_cfg"
  have "\<forall>r \<in> set [demo_record, demo_record]. encodable demo_deps (cfg_compression (log_cfg l')) r"
    "segment_size_threshold (log_cfg l') + length (concat (map (encoded demo_deps (cfg_compression (log_cfg l'))) [demo_record, demo_record])) \<le> 2 ^ 32"
    using demo_encodable *(3) length_demo_encoded by (simp_all add: demo_cfg_def default_log_config_def)
  from log_append_batch_refines [OF *(1) demo_codec_laws *(2) this] obtain l2 os2 d2 where
    "log_append_batch demo_deps [demo_record, demo_record] (l', os') = (Ok [1, 2], l2, os2)"
    "log_models demo_deps l2 os2 \<lparr>al_first = 0, al_records = [demo_record, demo_record, demo_record]\<rparr> d2"
    by (auto simp: al_next_def al_append_def upt_conv_Cons)
  with *(1) show ?thesis
    by blast
qed

lemma read_record_at_refines_witness:
  "\<exists>l os l'. os_faults os = [] \<and> read_record_at demo_deps 0 (l, os) = (Ok (Some demo_record), l', os)"
proof (rule demo_log)
  fix l os l' os' d
  assume *: "os_faults os' = []" "log_models demo_deps l' os' \<lparr>al_first = 0, al_records = [demo_record]\<rparr> d" "log_within l' os'"
  from read_record_at_refines [OF this, of 0] *(1) show ?thesis
    by (auto simp: al_read_def al_next_def)
qed

lemma apply_retention_refines_witness:
  "\<exists>l os k j l' os' d. log_models demo_deps l os \<lparr>al_first = 0, al_records = [demo_record]\<rparr> d \<and>
     apply_retention (l, os) = (Ok k, l', os') \<and> k < segment_count l \<and>
     log_models demo_deps l' os' (al_trim j \<lparr>al_first = 0, al_records = [demo_record]\<rparr>) d"
proof (rule demo_log)
  fix l os l' os' d
  assume *: "os_faults os' = []" "log_models demo_deps l' os' \<lparr>al_first = 0, al_records = [demo_record]\<rparr> d"
  from apply_retention_refines [OF this] obtain k j l2 os2 where "apply_retention (l', os') = (Ok k, l2, os2)"
    "k < segment_count l'" "log_models demo_deps l2 os2 (al_trim j \<lparr>al_first = 0, al_records = [demo_record]\<rparr>) d"
    by blast
  with *(2) show ?thesis
    by blast
qed

lemma log_sync_durable_witness:
  "\<exists>l os os'. os_faults os = [] \<and> log_sync (l, os) = (Ok (), l, os') \<and>
     log_models demo_deps l os' \<lparr>al_first = 0, al_records = [demo_record]\<rparr> 1"
proof (rule demo_log)
  fix l os l' os' d
  assume *: "os_faults os' = []" "log_models demo_deps l' os' \<lparr>al_first = 0, al_records = [demo_record]\<rparr> d"
  from log_sync_durable [OF this] obtain os2 where "log_sync (l', os') = (Ok (), l', os2)"
    "log_models demo_deps l' os2 \<lparr>al_first = 0, al_records = [demo_record]\<rparr> 1"
    by (auto simp: al_next_def)
  with *(1) show ?thesis
    by blast
qed


text \<open>A power loss that takes what was not durable: every file goes back to its durable content.\<close>

definition lose_cache :: "os \<Rightarrow> os" where
  "lose_cache os = os\<lparr>os_files := map (\<lambda>(name, f). (name, f\<lparr>file_content := file_durable f\<rparr>)) (os_files os)\<rparr>"

lemma os_file_lose_cache: "os_file (lose_cache os) name = map_option (\<lambda>f. f\<lparr>file_content := file_durable f\<rparr>) (os_file os name)"
  by (simp add: os_file_def lose_cache_def map_of_map)

lemma power_loss_lose_cache: "power_loss os (lose_cache os)"
proof -
  have "\<exists>c m. survives f c \<and> f\<lparr>file_content := file_durable f\<rparr> = \<lparr>file_content = c, file_durable = c, file_mtime = m\<rparr>" for f :: disk_file
    by (intro exI [of _ "file_durable f"] exI [of _ "file_mtime f"]) (auto simp: survives_def)
  then show ?thesis
    by (auto simp: power_loss_def os_file_lose_cache) (simp add: lose_cache_def comp_def case_prod_unfold)
qed

lemma log_open_recovers_witness:
  "\<exists>l os d k l' os''. log_models demo_deps l os \<lparr>al_first = 0, al_records = [demo_record]\<rparr> d \<and>
     log_open demo_deps demo_cfg (lose_cache os) = (Ok l', os'') \<and> d \<le> k \<and>
     log_models demo_deps l' os'' \<lparr>al_first = 0, al_records = take k [demo_record]\<rparr> k"
proof (rule demo_log)
  fix l os l' os' d
  assume *: "os_faults os' = []" "log_models demo_deps l' os' \<lparr>al_first = 0, al_records = [demo_record]\<rparr> d" "log_within l' os'"
  have "os_faults (lose_cache os') = []" "log_within l' (lose_cache os')"
    using *(1,3) by (simp_all add: lose_cache_def log_within_def)
  from log_open_recovers [OF *(2) power_loss_lose_cache this, of demo_cfg] obtain k l2 os2 where
    "log_open demo_deps demo_cfg (lose_cache os') = (Ok l2, os2)" "d \<le> k"
    "log_models demo_deps l2 os2 \<lparr>al_first = 0, al_records = take k [demo_record]\<rparr> k"
    by auto
  with *(2) show ?thesis
    by blast
qed

end
