(* ===== verification/Kafko_PartitionSpec.thy ===== *)
theory Kafko_PartitionSpec
  imports Kafko_Partition Kafko_LogProps
begin

text \<open>
  What the writer task answers: on a directory without faults, the replies and the log after any
  wake-up are those of handling the commands it took one at a time against the abstract log, so
  the coalescing of waiting appends cannot be seen by clients.
\<close>

section \<open>The sequential specification\<close>

fun spec_command :: "partition_command \<Rightarrow> alog \<Rightarrow> (nat \<times> reply) list \<times> alog" where
  "spec_command (Append r i) a = ([(i, AppendReply (Ok (al_next a)))], al_append [r] a)"
| "spec_command (AppendBatch rs i) a =
     ([(i, BatchReply (Ok [al_next a ..< al_next a + length rs]))], al_append rs a)"
| "spec_command (ReadAt offset i) a = ([(i, ReadReply (Ok (al_read offset a)))], a)"
| "spec_command (Sync i) a = ([(i, SyncReply (Ok ()))], a)"
| "spec_command _ a = ([], a)"

primrec spec_commands :: "partition_command list \<Rightarrow> alog \<Rightarrow> (nat \<times> reply) list \<times> alog" where
  "spec_commands [] a = ([], a)"
| "spec_commands (cmd # cmds) a =
     (case spec_command cmd a of (rs, a1) \<Rightarrow> (case spec_commands cmds a1 of (qs, a2) \<Rightarrow> (rs @ qs, a2)))"

lemma spec_commands_append:
  "spec_commands (xs @ ys) a =
     (fst (spec_commands xs a) @ fst (spec_commands ys (snd (spec_commands xs a))), snd (spec_commands ys (snd (spec_commands xs a))))"
  by (induction xs arbitrary: a) (auto split: prod.splits)

text \<open>The bytes a command adds to the log, and the commands the specification is about.\<close>

fun command_records :: "partition_command \<Rightarrow> kafko_record list" where
  "command_records (Append r i) = [r]"
| "command_records (AppendBatch rs i) = rs"
| "command_records _ = []"

fun regular :: "partition_command \<Rightarrow> bool" where
  "regular Poison = False"
| "regular (FailNextAppend kind) = False"
| "regular _ = True"

definition added_bytes :: "deps \<Rightarrow> compression \<Rightarrow> partition_command list \<Rightarrow> nat" where
  "added_bytes D c cmds = length (concat (map (encoded D c) (concat (map command_records cmds))))"

text \<open>
  \<open>log_room l os n\<close>: \<open>n\<close> more bytes of records fit the index positions and one read call, whatever
  segment they go to.
\<close>

definition log_room :: "log \<Rightarrow> os \<Rightarrow> nat \<Rightarrow> bool" where
  "log_room l os n \<longleftrightarrow> next_offset l + n < 2 ^ 64 \<and>
     list_all (\<lambda>s. seg_size (the_segment s) + n \<le> os_read_limit os \<and> seg_size (the_segment s) + n \<le> 2 ^ 32) (segments l)"

definition serving :: "deps \<Rightarrow> writer \<Rightarrow> alog \<Rightarrow> nat \<Rightarrow> bool" where
  "serving D w a n \<longleftrightarrow>
     os_faults (w_os w) = [] \<and> w_fail_next w = None \<and> (\<exists>d. log_models D (w_log w) (w_os w) a d) \<and>
     log_room (w_log w) (w_os w) n \<and> segment_size_threshold (log_cfg (w_log w)) + n \<le> 2 ^ 32"

section \<open>Keeping room\<close>

lemma log_room_iff:
  assumes "log_repr D l os start fss"
  shows "log_room l os' n \<longleftrightarrow> next_offset l + n < 2 ^ 64 \<and>
           (\<forall>fs \<in> set fss. length (wire fs) + n \<le> os_read_limit os' \<and> length (wire fs) + n \<le> 2 ^ 32)"
proof -
  have "seg_size (the_segment (segments l ! i)) = length (wire (fss ! i))" if "i < length fss" for i
    using log_repr_nth(2) [OF assms that] by (simp add: seg_repr_def segment_ok_def)
  with log_repr_length [OF assms] show ?thesis
    by (auto simp: log_room_def list_all_length all_set_conv_all_nth)
qed

lemma log_room_within: "log_room l os n \<Longrightarrow> log_within l os"
  by (auto simp: log_room_def log_within_def list_all_length)

lemma log_room_mono: "log_room l os n \<Longrightarrow> m \<le> n \<Longrightarrow> log_room l os m"
  by (auto simp: log_room_def list_all_length)

lemma pushed_sizes:
  assumes "pushed t k fss gs fss'" and "fss \<noteq> []" and "\<forall>fs \<in> set fss. length (wire fs) + (length (wire gs) + n) \<le> b"
  shows "\<forall>fs \<in> set fss'. length (wire fs) + n \<le> b"
proof -
  from assms(1) obtain gss fs where p: "fss' = gss @ [fs @ gs]" "gss @ [fs] = fss \<or> gss = fss \<and> fs = []"
    by (auto simp: pushed_def)
  obtain f0 where "f0 \<in> set fss"
    using assms(2) by (cases fss) auto
  with assms(3) have "length (wire gs) + n \<le> b"
    by fastforce
  with p assms(3) show ?thesis
    by fastforce
qed

lemma append_batch_serving:
  assumes "codec_laws D" and "\<forall>r \<in> set rs. encodable D (cfg_compression (log_cfg l)) r"
    and "os_faults os = []" and "log_models D l os a d"
    and "log_room l os (length (concat (map (encoded D (cfg_compression (log_cfg l))) rs)) + n)"
    and "segment_size_threshold (log_cfg l) + (length (concat (map (encoded D (cfg_compression (log_cfg l))) rs)) + n) \<le> 2 ^ 32"
  shows "\<exists>l' os' d'. log_append_batch D rs (l, os) = (Ok [al_next a ..< al_next a + length rs], l', os') \<and>
           log_models D l' os' (al_append rs a) d' \<and> os_faults os' = [] \<and> log_cfg l' = log_cfg l \<and> log_room l' os' n"
proof (cases "rs = []")
  case True
  with assms show ?thesis
    by (auto simp: log_append_batch_def al_append_def)
next
  case False
  let ?c = "cfg_compression (log_cfg l)"
  let ?gs = "map (\<lambda>r. (encoded D ?c r, r)) rs"
  obtain fss' fs m where inv: "log_inv D l os (al_first a) (fss' @ [fs]) m"
    and a: "a = abs_log (al_first a) (fss' @ [fs])" and nxt: "next_offset l = al_next a"
    by (rule log_models_cases [OF assms(4)])
  have thr: "segment_size_threshold (log_cfg l) + length (concat (map (encoded D ?c) rs)) \<le> 2 ^ 32"
    using assms(6) by simp
  obtain l' os' gss m' where b: "log_append_batch D rs (l, os) = (Ok [next_offset l ..< next_offset l + length rs], l', os')"
    "log_inv D l' os' (al_first a) gss m'" "map snd (concat gss) = map snd (concat (fss' @ [fs])) @ rs" "log_cfg l' = log_cfg l"
    "os_faults os' = []" "next_offset l' = next_offset l + length rs" "os_read_limit os' = os_read_limit os"
    "pushed (segment_size_threshold (log_cfg l)) (sum_list (map wire_size rs)) (fss' @ [fs]) ?gs gss"
    by (rule log_append_batch_inv [OF assms(3,1) inv assms(2) False thr]) blast
  have wire: "wire ?gs = concat (map (encoded D ?c) rs)"
    by (simp add: comp_def)
  have "length rs \<le> length (wire ?gs)"
    using rec.frames_length [of ?gs D] encode_with_encoded(2) [OF assms(1)] assms(2) by auto
  moreover have repr: "log_repr D l os (al_first a) (fss' @ [fs])" "log_repr D l' os' (al_first a) gss"
    using inv b(2) by (simp_all add: log_inv_def)
  note room = assms(5) [unfolded log_room_iff [OF repr(1)]]
  have "log_room l' os' n"
    unfolding log_room_iff [OF repr(2)]
    using pushed_sizes [OF b(8), of n "os_read_limit os"] pushed_sizes [OF b(8), of n "2 ^ 32"] room b(6,7) calculation
    unfolding wire by auto
  moreover have "abs_log (al_first a) gss = al_append rs a"
    using b(3) by (subst (2) a) (simp add: abs_log_def al_append_def)
  ultimately show ?thesis
    using b nxt log_modelsI [OF b(2)] by auto
qed

section \<open>One command, one batch, one wake-up\<close>

definition handles :: "deps \<Rightarrow> writer \<Rightarrow> partition_command list \<Rightarrow> alog \<Rightarrow> nat \<Rightarrow> unit res \<times> writer \<Rightarrow> bool" where
  "handles D w cmds a n r \<longleftrightarrow>
     (\<exists>w'. r = (Ok (), w') \<and> w_replies w' = w_replies w @ fst (spec_commands cmds a) \<and>
        serving D w' (snd (spec_commands cmds a)) n \<and> log_cfg (w_log w') = log_cfg (w_log w) \<and> w_inbox w' = w_inbox w)"

definition command_ok :: "deps \<Rightarrow> compression \<Rightarrow> partition_command \<Rightarrow> bool" where
  "command_ok D c cmd \<longleftrightarrow> regular cmd \<and> list_all (encodable D c) (command_records cmd)"

lemma handles_and_then:
  assumes "handles D w xs a m r" and "\<And>w'. r = (Ok (), w') \<Longrightarrow> serving D w' (snd (spec_commands xs a)) m \<Longrightarrow>
      log_cfg (w_log w') = log_cfg (w_log w) \<Longrightarrow> handles D w' ys (snd (spec_commands xs a)) n (k () w')"
  shows "handles D w (xs @ ys) a n (and_then r k)"
proof -
  from assms(1) obtain w' where w': "r = (Ok (), w')" "w_replies w' = w_replies w @ fst (spec_commands xs a)"
    "serving D w' (snd (spec_commands xs a)) m" "log_cfg (w_log w') = log_cfg (w_log w)" "w_inbox w' = w_inbox w"
    by (auto simp: handles_def)
  from assms(2) [OF w'(1,3,4)] w' show ?thesis
    by (auto simp: handles_def spec_commands_append)
qed

lemma serving_append:
  assumes laws: "codec_laws D" and s: "serving D w a (added_bytes D (cfg_compression (log_cfg (w_log w))) cmds + n)"
    and rs: "concat (map command_records cmds) = rs" and enc: "list_all (encodable D (cfg_compression (log_cfg (w_log w)))) rs"
  obtains l' os' where "log_append_batch D rs (w_log w, w_os w) = (Ok [al_next a ..< al_next a + length rs], l', os')"
    "log_cfg l' = log_cfg (w_log w)"
    "\<forall>w'. w_log w' = l' \<longrightarrow> w_os w' = os' \<longrightarrow> w_fail_next w' = None \<longrightarrow> serving D w' (al_append rs a) n"
proof -
  from s obtain d where d: "log_models D (w_log w) (w_os w) a d" and nf: "os_faults (w_os w) = []"
    by (auto simp: serving_def)
  have enc': "\<forall>r \<in> set rs. encodable D (cfg_compression (log_cfg (w_log w))) r"
    using enc by (simp add: list_all_iff)
  have "log_room (w_log w) (w_os w) (length (concat (map (encoded D (cfg_compression (log_cfg (w_log w)))) rs)) + n)"
    "segment_size_threshold (log_cfg (w_log w)) + (length (concat (map (encoded D (cfg_compression (log_cfg (w_log w)))) rs)) + n) \<le> 2 ^ 32"
    using s by (simp_all add: serving_def added_bytes_def rs)
  from append_batch_serving [OF laws enc' nf d this] obtain l' os' d' where
    b: "log_append_batch D rs (w_log w, w_os w) = (Ok [al_next a ..< al_next a + length rs], l', os')"
      "log_models D l' os' (al_append rs a) d'" "os_faults os' = []" "log_cfg l' = log_cfg (w_log w)" "log_room l' os' n"
    by blast
  have "\<forall>w'. w_log w' = l' \<longrightarrow> w_os w' = os' \<longrightarrow> w_fail_next w' = None \<longrightarrow> serving D w' (al_append rs a) n"
    using b s by (auto simp: serving_def)
  with that b show thesis by blast
qed

lemma serving_mono: "serving D w a n \<Longrightarrow> m \<le> n \<Longrightarrow> serving D w a m"
  by (auto simp: serving_def intro: log_room_mono)

lemma read_serving:
  assumes "os_faults os = []" and "log_models D l os a d" and "log_room l os n"
  shows "\<exists>l'. read_record_at D offset (l, os) = (Ok (al_read offset a), l', os) \<and> log_models D l' os a d \<and>
           log_cfg l' = log_cfg l \<and> log_room l' os n"
proof -
  obtain fss' fs m where inv: "log_inv D l os (al_first a) (fss' @ [fs]) m"
    and a: "a = abs_log (al_first a) (fss' @ [fs])" and d: "d = durable_end (al_first a) (fss' @ [fs]) m"
    by (rule log_models_cases [OF assms(2)])
  have repr: "log_repr D l os (al_first a) (fss' @ [fs])"
    using inv by (simp add: log_inv_def)
  have "\<forall>gs \<in> set (fss' @ [fs]). length (wire gs) \<le> os_read_limit os"
    using assms(3) unfolding log_room_iff [OF repr] by auto
  then obtain l' where r: "read_record_at D offset (l, os) = (Ok (al_read offset (abs_log (al_first a) (fss' @ [fs]))), l', os)"
    "log_inv D l' os (al_first a) (fss' @ [fs]) m" "log_cfg l' = log_cfg l" "next_offset l' = next_offset l"
    by (rule read_record_at_inv [OF assms(1) inv])
  have repr': "log_repr D l' os (al_first a) (fss' @ [fs])"
    using r(2) by (simp add: log_inv_def)
  have "log_room l' os n"
    using assms(3) r(4) unfolding log_room_iff [OF repr] log_room_iff [OF repr'] by simp
  with r log_modelsI [OF r(2)] a d show ?thesis
    by metis
qed

lemma sync_serving:
  assumes "os_faults os = []" and "log_models D l os a d" and "log_room l os n"
  shows "\<exists>os'. log_sync (l, os) = (Ok (), l, os') \<and> log_models D l os' a (al_next a) \<and> os_faults os' = [] \<and> log_room l os' n"
proof -
  obtain fss' fs m where inv: "log_inv D l os (al_first a) (fss' @ [fs]) m" and a: "a = abs_log (al_first a) (fss' @ [fs])"
    by (rule log_models_cases [OF assms(2)])
  obtain os' where s: "log_sync (l, os) = (Ok (), l, os')" "log_inv D l os' (al_first a) (fss' @ [fs]) (length fs)" "os_faults os' = []"
    "os_read_limit os' = os_read_limit os"
    by (rule log_sync_inv [OF assms(1) inv])
  have "log_models D l os' a (durable_end (al_first a) (fss' @ [fs]) (length fs))"
    using log_modelsI [OF s(2)] a by simp
  moreover have "durable_end (al_first a) (fss' @ [fs]) (length fs) = al_next (abs_log (al_first a) (fss' @ [fs]))"
    by (simp add: durable_end_def al_next_def abs_log_def)
  ultimately show ?thesis
    using s assms(3) a by (auto simp: log_room_def)
qed

lemma handle_single_command_refines:
  assumes laws: "codec_laws D" and ok: "command_ok D (cfg_compression (log_cfg (w_log w))) cmd" and na: "\<And>r i. cmd \<noteq> Append r i"
    and s: "serving D w a (added_bytes D (cfg_compression (log_cfg (w_log w))) [cmd] + n)"
  shows "handles D w [cmd] a n (handle_single_command D cmd w)"
proof (cases cmd)
  case (AppendBatch rs i)
  obtain l' os' where b: "log_append_batch D rs (w_log w, w_os w) = (Ok [al_next a ..< al_next a + length rs], l', os')"
    "log_cfg l' = log_cfg (w_log w)"
    "\<forall>w'. w_log w' = l' \<longrightarrow> w_os w' = os' \<longrightarrow> w_fail_next w' = None \<longrightarrow> serving D w' (al_append rs a) n"
    by (rule serving_append [OF laws s, of rs]) (use ok AppendBatch in \<open>auto simp: command_ok_def\<close>)
  have "w_fail_next w = None"
    using s by (simp add: serving_def)
  with AppendBatch b show ?thesis
    by (auto simp: handles_def flush_explicit_batch_def send_reply_def publish_def simp del: upt_Suc)
next
  case (ReadAt offset i)
  have sv: "serving D w a n"
    by (rule serving_mono [OF s]) simp
  then obtain d where "os_faults (w_os w) = []" "log_models D (w_log w) (w_os w) a d" "log_room (w_log w) (w_os w) n"
    by (auto simp: serving_def)
  from read_serving [OF this, of offset] obtain l' d' where
    "read_record_at D offset (w_log w, w_os w) = (Ok (al_read offset a), l', w_os w)" "log_models D l' (w_os w) a d'"
    "log_cfg l' = log_cfg (w_log w)" "log_room l' (w_os w) n"
    by blast
  with ReadAt sv show ?thesis
    by (auto simp: handles_def on_log_def send_reply_def serving_def)
next
  case (Sync i)
  have sv: "serving D w a n"
    by (rule serving_mono [OF s]) simp
  then obtain d where "os_faults (w_os w) = []" "log_models D (w_log w) (w_os w) a d" "log_room (w_log w) (w_os w) n"
    by (auto simp: serving_def)
  from sync_serving [OF this] obtain os' d' where
    "log_sync (w_log w, w_os w) = (Ok (), w_log w, os')" "log_models D (w_log w) os' a d'" "os_faults os' = []" "log_room (w_log w) os' n"
    by blast
  with Sync sv show ?thesis
    by (auto simp: handles_def on_log_def send_reply_def serving_def)
qed (use ok na in \<open>auto simp: command_ok_def\<close>)

lemma flush_append_batch_refines:
  assumes laws: "codec_laws D" and cmds: "cmds = map2 Append rs is" and len: "length rs = length is"
    and ok: "list_all (command_ok D (cfg_compression (log_cfg (w_log w)))) cmds"
    and s: "serving D w a (added_bytes D (cfg_compression (log_cfg (w_log w))) cmds + n)"
  shows "handles D w cmds a n (flush_append_batch D rs is w)"
proof (cases "rs = []")
  case True
  with s cmds show ?thesis
    by (auto simp: handles_def flush_append_batch_def added_bytes_def)
next
  case False
  have recs: "concat (map command_records cmds) = rs" and enc: "list_all (encodable D (cfg_compression (log_cfg (w_log w)))) rs"
    using len ok unfolding cmds by (induction rs "is" rule: list_induct2) (auto simp: command_ok_def)
  obtain l' os' where b: "log_append_batch D rs (w_log w, w_os w) = (Ok [al_next a ..< al_next a + length rs], l', os')"
    "log_cfg l' = log_cfg (w_log w)"
    "\<forall>w'. w_log w' = l' \<longrightarrow> w_os w' = os' \<longrightarrow> w_fail_next w' = None \<longrightarrow> serving D w' (al_append rs a) n"
    by (rule serving_append [OF laws s recs enc])
  have spec: "spec_commands (map2 Append qs js) b =
      (map2 (\<lambda>offset i. (i, AppendReply (Ok offset))) [al_next b ..< al_next b + length qs] js, al_append qs b)"
    if "length qs = length js" for qs js b
    using that
  proof (induction qs js arbitrary: b rule: list_induct2)
    case Nil
    then show ?case by (simp add: al_append_def)
  next
    case (Cons q qs j js)
    have "al_next (al_append [q] b) = Suc (al_next b)" "al_append qs (al_append [q] b) = al_append (q # qs) b"
      by (simp_all add: al_next_def al_append_def)
    with Cons show ?case
      by (simp add: upt_conv_Cons del: upt_Suc)
  qed
  have "w_fail_next w = None"
    using s by (simp add: serving_def)
  with False b spec [OF len, of a] cmds show ?thesis
    by (auto simp: handles_def flush_append_batch_def publish_def Let_def simp del: upt_Suc)
qed

lemma drain_commands:
  assumes "drain mr mb records replies b inbox = (rs, is, other, inbox')" and "length records = length replies"
  shows "map2 Append records replies @ inbox = map2 Append rs is @ (case other of None \<Rightarrow> [] | Some c \<Rightarrow> [c]) @ inbox' \<and>
         length rs = length is \<and> (\<forall>r i. other \<noteq> Some (Append r i))"
  using assms
proof (induction mr mb records replies b inbox rule: drain.induct)
  case (1 mr mb records replies b inbox)
  show ?case
  proof (cases "length records < mr \<and> b < mb")
    case True
    show ?thesis
    proof (cases inbox)
      case (Cons cmd rest)
      with 1 True show ?thesis
        by (cases cmd) (auto simp: drain.simps [of mr mb records])
    qed (use 1 True in \<open>auto simp: drain.simps [of mr mb records]\<close>)
  qed (use 1 in \<open>auto simp: drain.simps [of mr mb records]\<close>)
qed

lemma added_bytes_append [simp]: "added_bytes D c (xs @ ys) = added_bytes D c xs + added_bytes D c ys"
  by (simp add: added_bytes_def)

lemma added_bytes_Nil [simp]: "added_bytes D c [] = 0"
  by (simp add: added_bytes_def)

lemma added_bytes_Cons: "added_bytes D c (x # ys) = added_bytes D c [x] + added_bytes D c ys"
  by (simp add: added_bytes_def)

lemma serving_inbox [simp]: "serving D (w\<lparr>w_inbox := inbox\<rparr>) a n \<longleftrightarrow> serving D w a n"
  by (simp add: serving_def)

lemma process_with_batching_refines:
  assumes laws: "codec_laws D" and ok: "list_all (command_ok D (cfg_compression (log_cfg (w_log w)))) (cmd # w_inbox w)"
    and s: "serving D w a (added_bytes D (cfg_compression (log_cfg (w_log w))) (cmd # w_inbox w) + n)"
  shows "\<exists>taken w'. process_with_batching D cmd w = (Ok (), w') \<and> cmd # w_inbox w = taken @ w_inbox w' \<and> taken \<noteq> [] \<and>
           w_replies w' = w_replies w @ fst (spec_commands taken a) \<and> log_cfg (w_log w') = log_cfg (w_log w) \<and>
           serving D w' (snd (spec_commands taken a)) (added_bytes D (cfg_compression (log_cfg (w_log w))) (w_inbox w') + n)"
proof (cases "\<exists>r i. cmd = Append r i")
  case True
  let ?c = "cfg_compression (log_cfg (w_log w))"
  obtain r i where cmd: "cmd = Append r i" using True by blast
  obtain rs "is" other inbox where d: "drain (batch_max_records (log_cfg (w_log w))) (batch_max_bytes (log_cfg (w_log w))) [r] [i] (wire_size r) (w_inbox w)
      = (rs, is, other, inbox)"
    by (metis prod_cases4)
  define batch where "batch = map2 Append rs is"
  define rest where "rest = (case other of None \<Rightarrow> [] | Some c \<Rightarrow> [c])"
  have dc: "cmd # w_inbox w = batch @ rest @ inbox" "length rs = length is" "\<forall>r i. other \<noteq> Some (Append r i)"
    using drain_commands [OF d] cmd by (auto simp: batch_def rest_def)
  have okc: "list_all (command_ok D ?c) batch" "list_all (command_ok D ?c) rest"
    using ok unfolding dc(1) by simp_all
  have bytes: "added_bytes D ?c (cmd # w_inbox w) + n = added_bytes D ?c batch + (added_bytes D ?c rest + (added_bytes D ?c inbox + n))"
    unfolding dc(1) by simp
  let ?w = "w\<lparr>w_inbox := inbox\<rparr>"
  have "handles D ?w batch a (added_bytes D ?c rest + (added_bytes D ?c inbox + n)) (flush_append_batch D rs is ?w)"
    by (rule flush_append_batch_refines [OF laws batch_def dc(2)]) (use okc s bytes in simp_all)
  then have "handles D ?w (batch @ rest) a (added_bytes D ?c inbox + n)
      (and_then (flush_append_batch D rs is ?w) (\<lambda>_ w. case other of None \<Rightarrow> (Ok (), w) | Some cmd \<Rightarrow> handle_single_command D cmd w))"
  proof (rule handles_and_then)
    fix w'
    assume w': "serving D w' (snd (spec_commands batch a)) (added_bytes D ?c rest + (added_bytes D ?c inbox + n))"
      "log_cfg (w_log w') = log_cfg (w_log ?w)"
    show "handles D w' rest (snd (spec_commands batch a)) (added_bytes D ?c inbox + n)
        (case other of None \<Rightarrow> (Ok (), w') | Some cmd \<Rightarrow> handle_single_command D cmd w')"
    proof (cases other)
      case None
      with w' show ?thesis by (simp add: handles_def rest_def)
    next
      case (Some c)
      with w' okc(2) dc(3) handle_single_command_refines [OF laws, of w' c "snd (spec_commands batch a)" "added_bytes D ?c inbox + n"]
      show ?thesis
        by (simp add: rest_def)
    qed
  qed
  moreover have "length inbox \<le> length (w_inbox w)"
    using drain_spec [OF d] by simp
  then have "batch @ rest \<noteq> []"
    using arg_cong [OF dc(1), of length] by auto
  ultimately show ?thesis
    using cmd d dc(1) by (auto simp: handles_def process_with_batching_def intro!: exI [of _ "batch @ rest"])
next
  case False
  have h: "process_with_batching D cmd w = handle_single_command D cmd w"
    using False by (cases cmd) (auto simp: process_with_batching_def)
  have "handles D w [cmd] a (added_bytes D (cfg_compression (log_cfg (w_log w))) (w_inbox w) + n) (handle_single_command D cmd w)"
    using handle_single_command_refines [OF laws, of w cmd a] ok s False by (simp add: added_bytes_Cons [of _ _ cmd "w_inbox w"] add.assoc)
  then show ?thesis
    using h by (auto simp: handles_def intro!: exI [of _ "[cmd]"])
qed

section \<open>Properties\<close>

text \<open>
  C18: natural batching is invisible. On a directory without faults, a wake-up of the writer task
  takes some commands from the front of the inbox and leaves the log, and has sent the replies,
  that handling those commands one by one against the abstract log would: appends get consecutive
  offsets in arrival order, a read sees the appends before it, whatever the batch limits are.
\<close>

theorem natural_batching:
  assumes "codec_laws D" and "list_all (command_ok D (cfg_compression (log_cfg (w_log w)))) (cmd # w_inbox w)"
    and "serving D w a (added_bytes D (cfg_compression (log_cfg (w_log w))) (cmd # w_inbox w))"
  shows "\<exists>taken w'. process_with_batching D cmd w = (Ok (), w') \<and> cmd # w_inbox w = taken @ w_inbox w' \<and> taken \<noteq> [] \<and>
           w_replies w' = w_replies w @ fst (spec_commands taken a) \<and>
           (\<exists>d. log_models D (w_log w') (w_os w') (snd (spec_commands taken a)) d)"
  using process_with_batching_refines [OF assms(1,2), of a 0] assms(3) by (fastforce simp: serving_def)

text \<open>A partition on an empty directory, for evaluating the statements.\<close>

definition demo_commands :: "partition_command list" where
  "demo_commands = [Append demo_record 1, Append demo_record 2, ReadAt 0 3]"

lemma demo_writer:
  obtains w where "codec_laws demo_deps" "list_all (command_ok demo_deps (cfg_compression (log_cfg (w_log w)))) demo_commands"
    "serving demo_deps w \<lparr>al_first = 0, al_records = []\<rparr> (added_bytes demo_deps (cfg_compression (log_cfg (w_log w))) demo_commands)"
    "w_inbox w = tl demo_commands" "w_replies w = []" "log_cfg (w_log w) = demo_cfg"
proof -
  obtain l os where c: "log_create demo_cfg demo_os = (Ok l, os)" "log_inv demo_deps l os 0 [[]] 0" "log_cfg l = demo_cfg"
    "os_faults os = []" "os_read_limit os = os_read_limit demo_os"
    by (rule log_create_inv [of demo_os demo_cfg demo_deps]) (simp_all add: demo_os_def)
  define w where "w = \<lparr>w_log = l, w_os = os, w_hwm = 0, w_inbox = tl demo_commands, w_fail_next = None, w_replies = []\<rparr>"
  have comp: "cfg_compression (log_cfg (w_log w)) = NoCompression"
    using c(3) by (simp add: w_def demo_cfg_def default_log_config_def)
  have bytes: "added_bytes demo_deps NoCompression demo_commands = 58"
    by (simp add: added_bytes_def demo_commands_def length_demo_encoded)
  have repr: "log_repr demo_deps l os 0 [[]]"
    using c(2) by (simp add: log_inv_def)
  then have "next_offset l = 0"
    by (simp add: log_repr_def)
  then have "log_room l os 58"
    unfolding log_room_iff [OF repr] using c(5) by (simp add: demo_os_def)
  moreover have "\<exists>d. log_models demo_deps l os \<lparr>al_first = 0, al_records = []\<rparr> d"
    using log_modelsI [OF c(2)] by (auto simp: abs_log_def)
  ultimately have "serving demo_deps w \<lparr>al_first = 0, al_records = []\<rparr> 58"
    using c(3,4) by (simp add: serving_def w_def demo_cfg_def)
  moreover have "list_all (command_ok demo_deps NoCompression) demo_commands"
    using demo_encodable(1) by (simp add: demo_commands_def command_ok_def)
  ultimately show thesis
    using that [of w] demo_codec_laws comp bytes c(3) by (simp add: w_def)
qed

lemma natural_batching_witness:
  "\<exists>w taken w'. w_inbox w = tl demo_commands \<and> process_with_batching demo_deps (hd demo_commands) w = (Ok (), w') \<and>
     demo_commands = taken @ w_inbox w' \<and> taken \<noteq> [] \<and>
     w_replies w' = fst (spec_commands taken \<lparr>al_first = 0, al_records = []\<rparr>)"
proof (rule demo_writer)
  fix w
  assume w: "codec_laws demo_deps" "list_all (command_ok demo_deps (cfg_compression (log_cfg (w_log w)))) demo_commands"
    "serving demo_deps w \<lparr>al_first = 0, al_records = []\<rparr> (added_bytes demo_deps (cfg_compression (log_cfg (w_log w))) demo_commands)"
    "w_inbox w = tl demo_commands" "w_replies w = []"
  have cmds: "hd demo_commands # w_inbox w = demo_commands"
    using w(4) by (simp add: demo_commands_def)
  from natural_batching [of demo_deps w "hd demo_commands" "\<lparr>al_first = 0, al_records = []\<rparr>", unfolded cmds, OF w(1-3)] w(4,5)
  show ?thesis
    by auto
qed

text \<open>
  Shutdown is a durability boundary for a partition. When the inbox is closed and empty the
  task exits after syncing its log: without faults the final state is \<^verbatim>\<open>Finished\<close> and every
  record the partition holds, thus every record it ever acknowledged, is durable.
\<close>

lemma shutdown_durable:
  assumes "p_status p = Running" and "os_faults (w_os (p_writer p)) = []" and "log_models D (w_log (p_writer p)) (w_os (p_writer p)) a d"
  shows "p_status (writer_exit p) = Finished \<and>
         log_models D (w_log (p_writer (writer_exit p))) (w_os (p_writer (writer_exit p))) a (al_next a) \<and>
         w_replies (p_writer (writer_exit p)) = w_replies (p_writer p)"
proof -
  obtain fss' fs m where inv: "log_inv D (w_log (p_writer p)) (w_os (p_writer p)) (al_first a) (fss' @ [fs]) m"
    and a: "a = abs_log (al_first a) (fss' @ [fs])"
    by (rule log_models_cases [OF assms(3)])
  obtain os' where s: "log_sync (w_log (p_writer p), w_os (p_writer p)) = (Ok (), w_log (p_writer p), os')"
    "log_inv D (w_log (p_writer p)) os' (al_first a) (fss' @ [fs]) (length fs)"
    by (rule log_sync_inv [OF assms(2) inv])
  have "al_next (abs_log (al_first a) (fss' @ [fs])) = durable_end (al_first a) (fss' @ [fs]) (length fs)"
    by (simp add: durable_end_def al_next_def abs_log_def)
  then have "log_models D (w_log (p_writer p)) os' a (al_next a)"
    using log_modelsI [OF s(2)] a by metis
  with s assms(1) show ?thesis
    by (simp add: writer_exit_def set_writer_def on_log_def Let_def)
qed

lemma shutdown_durable_witness:
  "\<exists>p a. p_status p = Running \<and> al_records a = [demo_record] \<and> p_status (writer_exit p) = Finished \<and>
     log_models demo_deps (w_log (p_writer (writer_exit p))) (w_os (p_writer (writer_exit p))) a 1"
proof (rule demo_log)
  fix l os l' os' d
  assume *: "os_faults os' = []" "log_models demo_deps l' os' \<lparr>al_first = 0, al_records = [demo_record]\<rparr> d"
  define p where "p = \<lparr>p_writer = \<lparr>w_log = l', w_os = os', w_hwm = 1, w_inbox = [], w_fail_next = None, w_replies = []\<rparr>,
    p_status = Running, p_closed = True, p_sent = []\<rparr>"
  have "p_status p = Running" "os_faults (w_os (p_writer p)) = []"
    "log_models demo_deps (w_log (p_writer p)) (w_os (p_writer p)) \<lparr>al_first = 0, al_records = [demo_record]\<rparr> d"
    using * by (simp_all add: p_def)
  from shutdown_durable [OF this] this(1) show ?thesis
    by (intro exI [of _ p] exI [of _ "\<lparr>al_first = 0, al_records = [demo_record]\<rparr>"]) (simp add: al_next_def)
qed

section \<open>A concrete partition\<close>

lemma demo_partition:
  obtains p p' os' where "partition_open demo_deps demo_cfg demo_os = (Ok p, os')" "(partition_step demo_deps)\<^sup>*\<^sup>* p p'"
    "w_inbox (p_writer p') = [Append demo_record 1]" "p_status p' = Running" "high_water_mark p = 0" "p_sent p' = [1]" "w_replies (p_writer p') = []"
proof -
  obtain l os where c: "log_create demo_cfg demo_os = (Ok l, os)" "log_inv demo_deps l os 0 [[]] 0"
    by (rule log_create_inv [of demo_os demo_cfg demo_deps]) (simp_all add: demo_os_def)
  have "next_offset l = 0"
    using c(2) by (simp add: log_inv_def log_repr_def)
  have "log_open demo_deps demo_cfg demo_os = (Ok l, os)"
    using c(1) by (simp add: log_open_def create_dir_all_def discover_segment_offsets_def read_dir_def io_simps demo_os_def)
  then obtain p where p: "partition_open demo_deps demo_cfg demo_os = (Ok p, os)" "p_status p = Running" "\<not> p_closed p"
    "w_inbox (p_writer p) = []" "p_sent p = []" "high_water_mark p = 0" "w_replies (p_writer p) = []"
    using \<open>next_offset l = 0\<close> by (simp add: partition_open_def high_water_mark_def)
  let ?p' = "p\<lparr>p_writer := (p_writer p)\<lparr>w_inbox := w_inbox (p_writer p) @ [Append demo_record 1]\<rparr>, p_sent := p_sent p @ reply_to (Append demo_record 1)\<rparr>"
  have "partition_step demo_deps p ?p'"
    using p by (intro partition_step.client_send) (simp_all add: INBOX_CAPACITY_def)
  then show thesis
    using that [OF p(1), of ?p'] p by auto
qed

lemma hwm_acks_witness:
  "\<exists>p p' os'. partition_open demo_deps demo_cfg demo_os = (Ok p, os') \<and> (partition_step demo_deps)\<^sup>*\<^sup>* p p' \<and>
     acks (w_replies (p_writer p')) = [0 ..< high_water_mark p']"
proof (rule demo_partition)
  fix p p' os'
  assume *: "partition_open demo_deps demo_cfg demo_os = (Ok p, os')" "(partition_step demo_deps)\<^sup>*\<^sup>* p p'" "high_water_mark p = 0"
  from hwm_acks [OF this(1,2)] * show ?thesis by auto
qed

lemma replies_in_order_witness:
  "\<exists>p p' os'. partition_open demo_deps demo_cfg demo_os = (Ok p, os') \<and> (partition_step demo_deps)\<^sup>*\<^sup>* p p' \<and> p_sent p' = [1] \<and>
     map fst (w_replies (p_writer p')) @ [1] = p_sent p'"
proof (rule demo_partition)
  fix p p' os'
  assume *: "partition_open demo_deps demo_cfg demo_os = (Ok p, os')" "(partition_step demo_deps)\<^sup>*\<^sup>* p p'"
    "w_inbox (p_writer p') = [Append demo_record 1]" "p_status p' = Running" "p_sent p' = [1]"
  from replies_in_order [OF this(1,2)] * show ?thesis by auto
qed

lemma every_call_returns_witness:
  "\<exists>p. w_inbox (p_writer p) = [Append demo_record 1] \<and> await_reply p 1 = None \<and> (\<exists>outcome. await_reply (run_inbox demo_deps p) 1 = Some outcome)"
proof (rule demo_partition)
  fix p p' os'
  assume *: "partition_open demo_deps demo_cfg demo_os = (Ok p, os')" "(partition_step demo_deps)\<^sup>*\<^sup>* p p'"
    "w_inbox (p_writer p') = [Append demo_record 1]" "p_status p' = Running" "p_sent p' = [1]" "w_replies (p_writer p') = []"
  then have "await_reply p' 1 = None"
    by (simp add: await_reply_def)
  with every_call_returns [OF *(1,2), of 1] *(3,5) show ?thesis
    by auto
qed

lemma await_stable_witness:
  "\<exists>p p'. (partition_step demo_deps)\<^sup>*\<^sup>* p p' \<and> p \<noteq> p' \<and> await_reply p' 7 = Some (Inr (PartitionPanicked ''boom''))"
proof (rule demo_partition)
  fix q q' :: kpartition and os' :: os
  define p where "p = q\<lparr>p_status := Panicked ''boom'', p_closed := False, p_writer := (p_writer q)\<lparr>w_replies := []\<rparr>\<rparr>"
  have step: "(partition_step demo_deps)\<^sup>*\<^sup>* p (p\<lparr>p_closed := True\<rparr>)"
    by (intro r_into_rtranclp partition_step.close_inbox)
  have "await_reply p 7 = Some (Inr (PartitionPanicked ''boom''))"
    by (simp add: await_reply_def p_def)
  from await_stable [OF step this] step show ?thesis
    by (intro exI [of _ p] exI [of _ "p\<lparr>p_closed := True\<rparr>"]) (auto simp: p_def dest: arg_cong [where f = p_closed])
qed

end
