(* ===== verification/Kafko_Service.thy ===== *)
theory Kafko_Service
  imports Kafko_PartitionSpec
begin

text \<open>
  A partition as producers and consumers use it: calls that return, against the abstract log. The
  interface is the locale \<open>partition_service\<close>; producers and consumers are verified against it,
  and the partition of \<open>Kafko_Partition\<close> is an instance.
\<close>

section \<open>Calls on a live partition\<close>

text \<open>
  \<open>live D p a n\<close>: the writer task runs, its inbox is empty, it serves the abstract log \<open>a\<close> and
  has room for \<open>n\<close> more bytes; channels in use were handed out before.
\<close>

definition live :: "deps \<Rightarrow> kpartition \<Rightarrow> alog \<Rightarrow> nat \<Rightarrow> bool" where
  "live D p a n \<longleftrightarrow>
     p_status p = Running \<and> \<not> p_closed p \<and> w_inbox (p_writer p) = [] \<and> serving D (p_writer p) a n \<and>
     set (map fst (w_replies (p_writer p))) \<subseteq> set (p_sent p)"

abbreviation part_codec :: "kpartition \<Rightarrow> compression" where
  "part_codec p \<equiv> cfg_compression (log_cfg (w_log (p_writer p)))"

lemma foldl_max_ge: "x \<in> set xs \<Longrightarrow> x \<le> foldl max y xs" "y \<le> foldl max y xs" for x y :: nat
proof (induction xs arbitrary: y)
  case (Cons z zs)
  { case 1 then show ?case using Cons.IH(1) [of "max y z"] Cons.IH(2) [of "max y z"] by auto }
  { case 2 then show ?case using Cons.IH(2) [of "max y z"] by auto }
qed auto

lemma fresh_channel_notin: "fresh_channel p \<notin> set (p_sent p)"
  using foldl_max_ge(1) [of "fresh_channel p" "p_sent p" 0] by (auto simp: fresh_channel_def)

lemma map_of_fresh: "i \<notin> set (map fst xs) \<Longrightarrow> map_of (xs @ [(i, r)]) i = Some r"
  by (induction xs) auto

text \<open>One command handled by an idle writer task.\<close>

lemma run_inbox_one:
  assumes "p_status p = Running" and "w_inbox (p_writer p) = []"
    and "process_with_batching D cmd (p_writer p) = (Ok (), w')" and "w_inbox w' = []"
  shows "run_inbox D (enqueue cmd p) = (enqueue cmd p)\<lparr>p_writer := w'\<rparr>"
proof -
  define w where "w = p_writer p"
  have "(w\<lparr>w_inbox := [cmd]\<rparr>)\<lparr>w_inbox := []\<rparr> = w"
    using assms(2) by (simp add: w_def)
  then have "process_with_batching D cmd ((w\<lparr>w_inbox := [cmd]\<rparr>)\<lparr>w_inbox := []\<rparr>) = (Ok (), w')"
    using assms(3) by (simp only: w_def)
  then have "writer_wakeup D (enqueue cmd p) = (enqueue cmd p)\<lparr>p_writer := w'\<rparr>"
    using assms(2) by (simp add: writer_wakeup_def enqueue_def set_writer_def w_def)
  moreover have "p_status (enqueue cmd p) = Running" "w_inbox (p_writer (enqueue cmd p)) \<noteq> []"
    using assms(1) by (simp_all add: enqueue_def)
  ultimately show ?thesis
    using assms(4) by (simp add: run_inbox.simps [of D "enqueue cmd p"] run_inbox.simps [of D "(enqueue cmd p)\<lparr>p_writer := w'\<rparr>"])
qed

lemma partition_call_live:
  assumes laws: "codec_laws D" and live: "live D p a (added_bytes D (part_codec p) [cmd (fresh_channel p)] + n)"
    and ok: "command_ok D (part_codec p) (cmd (fresh_channel p))"
    and spec: "spec_command (cmd (fresh_channel p)) a = ([(fresh_channel p, r)], a')"
    and reply: "reply_to (cmd (fresh_channel p)) = [fresh_channel p]"
  shows "\<exists>p'. partition_call D cmd p = (Some (Inl r), p') \<and> live D p' a' n \<and> log_cfg (w_log (p_writer p')) = log_cfg (w_log (p_writer p))"
proof -
  define i where "i = fresh_channel p"
  define w where "w = p_writer p"
  have w: "w_inbox w = []" "serving D w a (added_bytes D (cfg_compression (log_cfg (w_log w))) [cmd i] + n)"
    "p_status p = Running" "\<not> p_closed p" "set (map fst (w_replies w)) \<subseteq> set (p_sent p)"
    using live by (auto simp: live_def w_def i_def)
  from process_with_batching_refines [OF laws, of w "cmd i" a n] w ok obtain taken w' where
    p: "process_with_batching D (cmd i) w = (Ok (), w')" "[cmd i] = taken @ w_inbox w'" "taken \<noteq> []"
      "w_replies w' = w_replies w @ fst (spec_commands taken a)" "log_cfg (w_log w') = log_cfg (w_log w)"
      "serving D w' (snd (spec_commands taken a)) (added_bytes D (cfg_compression (log_cfg (w_log w))) (w_inbox w') + n)"
    by (auto simp: w_def i_def)
  from p(2,3) have tk: "taken = [cmd i]" "w_inbox w' = []"
    by (cases taken; auto)+
  have sp: "spec_command (cmd i) a = ([(i, r)], a')"
    using spec by (simp add: i_def)
  define p1 where "p1 = enqueue (cmd i) p"
  define p2 where "p2 = p1\<lparr>p_writer := w'\<rparr>"
  have run: "run_inbox D p1 = p2"
    using run_inbox_one [of p D "cmd i" w'] w(1,3) p(1) tk(2) by (simp add: p1_def p2_def w_def)
  have "i \<notin> set (map fst (w_replies w))"
    using w(5) fresh_channel_notin [of p] by (auto simp: i_def)
  then have "await_reply p2 i = Some (Inl r)"
    using p(4) tk(1) sp map_of_fresh [of i "w_replies w" r] by (simp add: await_reply_def p2_def)
  moreover have "live D p2 a' n"
    using w p(4-6) tk sp reply by (auto simp: live_def p2_def p1_def enqueue_def i_def)
  ultimately show ?thesis
    using run w(3,4) p(5) by (auto simp: partition_call_def Let_def i_def [symmetric] p1_def p2_def w_def)
qed

section \<open>Failures\<close>

lemma fail_next_live:
  assumes "live D p a n"
  shows "fail_next_append_for_test D kind p = (Ok (), p\<lparr>p_writer := (p_writer p)\<lparr>w_fail_next := Some kind\<rparr>\<rparr>)"
proof -
  have "p_status p = Running" "\<not> p_closed p" "w_inbox (p_writer p) = []"
    using assms by (auto simp: live_def)
  then show ?thesis
    using run_inbox_one [of p D "FailNextAppend kind" "(p_writer p)\<lparr>w_fail_next := Some kind\<rparr>"]
    by (simp add: fail_next_append_for_test_def inbox_send_def process_with_batching_def enqueue_def)
qed

lemma process_with_batching_single:
  assumes "w_inbox w = []"
  shows "process_with_batching D (Append r i) w = flush_append_batch D [r] [i] w"
proof -
  have "drain mr mb [r] [i] b [] = ([r], [i], None, [])" for mr mb b
    by (simp add: drain.simps)
  moreover have "flush_append_batch D [r] [i] (w\<lparr>w_inbox := []\<rparr>) = flush_append_batch D [r] [i] w"
    by (rule arg_cong [where f = "flush_append_batch D [r] [i]"]) (use assms in simp)
  ultimately show ?thesis
    using assms by (auto simp: process_with_batching_def and_then_def split: prod.split res.split)
qed

lemma partition_append_failing:
  assumes "live D p a n" and "q = p\<lparr>p_writer := (p_writer p)\<lparr>w_fail_next := Some kind\<rparr>\<rparr>"
  shows "\<exists>p'. partition_append D r q = (Err (injected_error kind), p') \<and> live D p' a n \<and>
           log_cfg (w_log (p_writer p')) = log_cfg (w_log (p_writer p)) \<and> high_water_mark p' = high_water_mark p"
proof -
  define i where "i = fresh_channel q"
  define w' where "w' = (p_writer p)\<lparr>w_fail_next := None, w_replies := w_replies (p_writer p) @ [(i, AppendReply (Err (injected_error kind)))]\<rparr>"
  define p' where "p' = (enqueue (Append r i) q)\<lparr>p_writer := w'\<rparr>"
  have p: "p_status p = Running" "\<not> p_closed p" "w_inbox (p_writer p) = []" "set (map fst (w_replies (p_writer p))) \<subseteq> set (p_sent p)"
    using assms(1) by (auto simp: live_def)
  have "process_with_batching D (Append r i) (p_writer q) = (Ok (), w')"
    using p(3) by (subst process_with_batching_single) (simp_all add: assms(2) flush_append_batch_def w'_def)
  then have run: "run_inbox D (enqueue (Append r i) q) = p'"
    using run_inbox_one [of q D "Append r i" w'] p(1,3) by (simp add: assms(2) w'_def p'_def)
  have "i \<notin> set (map fst (w_replies (p_writer p)))"
    using p(4) fresh_channel_notin [of q] by (auto simp: i_def assms(2))
  then have "await_reply p' i = Some (Inl (AppendReply (Err (injected_error kind))))"
    using map_of_fresh [of i "w_replies (p_writer p)"] by (simp add: await_reply_def p'_def w'_def)
  moreover have "live D p' a n"
    using assms(1) by (auto simp: live_def serving_def p'_def w'_def enqueue_def assms(2))
  moreover have "p_status q = Running" "\<not> p_closed q"
    using p(1,2) by (simp_all add: assms(2))
  moreover have "log_cfg (w_log (p_writer p')) = log_cfg (w_log (p_writer p))" "high_water_mark p' = high_water_mark p"
    by (simp_all add: p'_def w'_def high_water_mark_def)
  ultimately show ?thesis
    using run by (simp add: partition_append_def partition_call_def Let_def i_def [symmetric])
qed

text \<open>
  A failed append does not take the partition down. When the writer's next append fails with an
  I/O error, the caller gets that error, nothing is stored and the high-water mark stays; the append
  after it gets the offset the failed one would have had.
\<close>

lemma append_failure_recovers:
  assumes "codec_laws D" and "live D p a (length (encoded D (part_codec p) r) + n)" and "encodable D (part_codec p) r"
  shows "\<exists>p1 p2 p3. fail_next_append_for_test D kind p = (Ok (), p1) \<and>
           partition_append D failing p1 = (Err (injected_error kind), p2) \<and> high_water_mark p2 = high_water_mark p \<and>
           partition_append D r p2 = (Ok (al_next a), p3) \<and> live D p3 (al_append [r] a) n"
proof -
  let ?m = "length (encoded D (part_codec p) r) + n"
  obtain p2 where p2: "partition_append D failing (p\<lparr>p_writer := (p_writer p)\<lparr>w_fail_next := Some kind\<rparr>\<rparr>) = (Err (injected_error kind), p2)"
    "live D p2 a ?m" "log_cfg (w_log (p_writer p2)) = log_cfg (w_log (p_writer p))" "high_water_mark p2 = high_water_mark p"
    using partition_append_failing [OF assms(2) refl] by blast
  from partition_call_live [OF assms(1), of p2 a "Append r" n "AppendReply (Ok (al_next a))" "al_append [r] a"] p2 assms(3)
  obtain p3 where "partition_append D r p2 = (Ok (al_next a), p3)" "live D p3 (al_append [r] a) n"
    by (auto simp: added_bytes_def command_ok_def partition_append_def)
  with p2 fail_next_live [OF assms(2)] show ?thesis
    by blast
qed

text \<open>
  A panic is reported. Once the writer task has panicked, every call returns the panic's payload
  and the partition does not change any more.
\<close>

lemma poisoned_partition_reports:
  assumes "live D p a n" and "e = PartitionPanicked ''intentional panic from poison command (test-only)''"
  shows "\<exists>p'. poison_for_test D p = (Ok (), p') \<and> w_log (p_writer p') = w_log (p_writer p) \<and> w_os (p_writer p') = w_os (p_writer p) \<and>
           partition_append D r p' = (Err e, p') \<and> partition_append_batch D (r # rs) p' = (Err e, p') \<and>
           partition_read D offset p' = (Err e, p') \<and> partition_sync D p' = (Err e, p') \<and> poison_for_test D p' = (Err Closed, p')"
proof -
  define p' where "p' = p\<lparr>p_status := Panicked ''intentional panic from poison command (test-only)''\<rparr>"
  have p: "p_status p = Running" "\<not> p_closed p" "w_inbox (p_writer p) = []"
    using assms(1) by (auto simp: live_def)
  have "(p_writer p)\<lparr>w_inbox := []\<rparr> = p_writer p"
    using p(3) by simp
  then have "writer_wakeup D (enqueue Poison p) = p'"
    using p by (simp add: writer_wakeup_def enqueue_def process_with_batching_def set_writer_def p'_def)
  moreover have "p_status (enqueue Poison p) = Running" "w_inbox (p_writer (enqueue Poison p)) \<noteq> []"
    using p by (simp_all add: enqueue_def)
  moreover have "run_inbox D p' = p'"
    by (subst run_inbox.simps) (simp add: p'_def)
  ultimately have "run_inbox D (enqueue Poison p) = p'"
    by (simp add: run_inbox.simps [of D "enqueue Poison p"])
  then have "poison_for_test D p = (Ok (), p')"
    using p by (simp add: poison_for_test_def inbox_send_def)
  then show ?thesis
    using p by (auto simp: assms(2) p'_def partition_append_def partition_append_batch_def partition_read_def partition_sync_def
        partition_call_def reply_error_def poison_for_test_def inbox_send_def)
qed

section \<open>The interface\<close>

text \<open>\<open>repr n p a\<close>: the partition \<open>p\<close> holds the abstract log \<open>a\<close> and \<open>n\<close> more units fit.\<close>

locale partition_service =
  fixes append_one :: "kafko_record \<Rightarrow> 'p \<Rightarrow> nat res \<times> 'p"
    and append_many :: "kafko_record list \<Rightarrow> 'p \<Rightarrow> nat list res \<times> 'p"
    and read_at :: "nat \<Rightarrow> 'p \<Rightarrow> kafko_record option res \<times> 'p"
    and repr :: "nat \<Rightarrow> 'p \<Rightarrow> alog \<Rightarrow> bool"
    and good :: "kafko_record \<Rightarrow> bool"
    and cost :: "kafko_record \<Rightarrow> nat"
  assumes append_one_ok: "repr (cost r + n) p a \<Longrightarrow> good r \<Longrightarrow>
      \<exists>p'. append_one r p = (Ok (al_next a), p') \<and> repr n p' (al_append [r] a)"
    and append_many_ok: "repr (sum_list (map cost rs) + n) p a \<Longrightarrow> list_all good rs \<Longrightarrow>
      \<exists>p'. append_many rs p = (Ok [al_next a ..< al_next a + length rs], p') \<and> repr n p' (al_append rs a)"
    and read_at_ok: "repr n p a \<Longrightarrow> \<exists>p'. read_at offset p = (Ok (al_read offset a), p') \<and> repr n p' a"
    and repr_mono: "repr n p a \<Longrightarrow> m \<le> n \<Longrightarrow> repr m p a"

definition part_repr :: "deps \<Rightarrow> compression \<Rightarrow> nat \<Rightarrow> kpartition \<Rightarrow> alog \<Rightarrow> bool" where
  "part_repr D c n p a \<longleftrightarrow> codec_laws D \<and> part_codec p = c \<and> live D p a n"

lemma added_bytes_records:
  "added_bytes D c [Append r i] = length (encoded D c r)"
  "added_bytes D c [AppendBatch rs i] = sum_list (map (\<lambda>r. length (encoded D c r)) rs)"
  "added_bytes D c [ReadAt offset i] = 0" "added_bytes D c [Sync i] = 0"
  by (simp_all add: added_bytes_def length_concat comp_def)

interpretation part: partition_service "partition_append D" "partition_append_batch D" "partition_read D"
  "part_repr D c" "encodable D c" "\<lambda>r. length (encoded D c r)" for D c
proof
  fix r rs n m p a offset
  show "\<exists>p'. partition_append D r p = (Ok (al_next a), p') \<and> part_repr D c n p' (al_append [r] a)"
    if "part_repr D c (length (encoded D c r) + n) p a" "encodable D c r"
    using that partition_call_live [of D p a "Append r" n "AppendReply (Ok (al_next a))" "al_append [r] a"]
    by (auto simp: part_repr_def added_bytes_records command_ok_def partition_append_def)
  show "\<exists>p'. partition_append_batch D rs p = (Ok [al_next a ..< al_next a + length rs], p') \<and> part_repr D c n p' (al_append rs a)"
    if "part_repr D c (sum_list (map (\<lambda>r. length (encoded D c r)) rs) + n) p a" "list_all (encodable D c) rs"
  proof (cases "rs = []")
    case True
    with that show ?thesis
      by (simp add: partition_append_batch_def al_append_def)
  next
    case False
    with that partition_call_live [of D p a "AppendBatch rs" n "BatchReply (Ok [al_next a ..< al_next a + length rs])" "al_append rs a"] show ?thesis
      by (auto simp: part_repr_def added_bytes_records command_ok_def partition_append_batch_def)
  qed
  show "\<exists>p'. partition_read D offset p = (Ok (al_read offset a), p') \<and> part_repr D c n p' a" if "part_repr D c n p a"
    using that partition_call_live [of D p a "ReadAt offset" n "ReadReply (Ok (al_read offset a))" a]
    by (auto simp: part_repr_def added_bytes_records command_ok_def partition_read_def)
  show "part_repr D c m p a" if "part_repr D c n p a" "m \<le> n"
    using that serving_mono by (auto simp: part_repr_def live_def)
qed

section \<open>An empty partition, for evaluating the statements\<close>

lemma demo_live:
  obtains p where "live demo_deps p \<lparr>al_first = 0, al_records = []\<rparr> 58" "part_codec p = NoCompression"
proof (rule demo_writer)
  fix w
  assume w: "serving demo_deps w \<lparr>al_first = 0, al_records = []\<rparr> (added_bytes demo_deps (cfg_compression (log_cfg (w_log w))) demo_commands)"
    "w_replies w = []" "log_cfg (w_log w) = demo_cfg"
  define p where "p = \<lparr>p_writer = w\<lparr>w_inbox := []\<rparr>, p_status = Running, p_closed = False, p_sent = []\<rparr>"
  have c: "cfg_compression (log_cfg (w_log w)) = NoCompression"
    using w(3) by (simp add: demo_cfg_def default_log_config_def)
  have "added_bytes demo_deps NoCompression demo_commands = 58"
    by (simp add: added_bytes_def demo_commands_def length_demo_encoded)
  with w c have "live demo_deps p \<lparr>al_first = 0, al_records = []\<rparr> 58"
    by (simp add: live_def p_def serving_def)
  moreover have "part_codec p = NoCompression"
    unfolding p_def using c by simp
  ultimately show thesis
    by (rule that)
qed

lemma append_failure_recovers_witness:
  "\<exists>p p1 p2 p3. fail_next_append_for_test demo_deps StorageFull p = (Ok (), p1) \<and>
     partition_append demo_deps demo_record p1 = (Err (Io (IoError StorageFull ''no storage space'')), p2) \<and>
     partition_append demo_deps demo_record p2 = (Ok 0, p3)"
proof (rule demo_live)
  fix p
  assume p: "live demo_deps p \<lparr>al_first = 0, al_records = []\<rparr> 58" "part_codec p = NoCompression"
  then have "live demo_deps p \<lparr>al_first = 0, al_records = []\<rparr> (length (encoded demo_deps (part_codec p) demo_record) + 29)"
    "encodable demo_deps (part_codec p) demo_record"
    using demo_encodable(1) by (simp_all add: length_demo_encoded)
  from append_failure_recovers [OF demo_codec_laws this, of StorageFull demo_record] show ?thesis
    by (auto simp: injected_error_def al_next_def)
qed

lemma poisoned_partition_reports_witness:
  "\<exists>p p'. poison_for_test demo_deps p = (Ok (), p') \<and>
     partition_append demo_deps demo_record p' = (Err (PartitionPanicked ''intentional panic from poison command (test-only)''), p')"
proof (rule demo_live)
  fix p
  assume "live demo_deps p \<lparr>al_first = 0, al_records = []\<rparr> 58"
  from poisoned_partition_reports [OF this refl, of demo_record] show ?thesis
    by blast
qed

end
