(* ===== verification/Kafko_Topic.thy ===== *)
theory Kafko_Topic
  imports Kafko_Service
begin

unbundle bit_operations_syntax

text \<open>
  \<^verbatim>\<open>src/crates/kafko/src/topic.rs\<close>: a topic owns its partitions, one subdirectory each, and
  routes records to them by a hash of the key or round robin. A topic directory is a list of
  subdirectories, each an \<open>os\<close> of its own, and of plain files.
\<close>

section \<open>The topic directory\<close>

record topic_dir =
  td_subdirs :: "(string \<times> os) list"
  td_files :: "string list"
  td_faults :: "io_outcome list"
  td_fresh :: os

text \<open>A subdirectory that is opened for the first time is \<open>td_fresh\<close>, a directory without files.\<close>

definition subdir :: "topic_dir \<Rightarrow> string \<Rightarrow> os" where
  "subdir td name = (case map_of (td_subdirs td) name of Some os \<Rightarrow> os | None \<Rightarrow> td_fresh td)"

definition set_subdir :: "string \<Rightarrow> os \<Rightarrow> topic_dir \<Rightarrow> topic_dir" where
  "set_subdir name os td = td\<lparr>td_subdirs := AList.update name os (td_subdirs td)\<rparr>"

text \<open>
  What a client of a subdirectory that starts with \<^verbatim>\<open>create_dir_all\<close> leaves behind: the
  subdirectory is there afterwards if it was before or the call succeeded.
\<close>

definition put_subdir :: "string \<Rightarrow> topic_dir \<Rightarrow> os \<Rightarrow> topic_dir" where
  "put_subdir name td os =
     (if map_of (td_subdirs td) name = None \<and> fst (create_dir_all (subdir td name)) \<noteq> Ok () then td else set_subdir name os td)"

text \<open>\<^verbatim>\<open>read_dir\<close> on the topic directory: each entry with whether it is a directory.\<close>

definition td_read_dir :: "topic_dir \<Rightarrow> (string \<times> bool) list res \<times> topic_dir" where
  "td_read_dir td =
     (case td_faults td of
        Fail kind n # fs \<Rightarrow> (Err (os_error kind), td\<lparr>td_faults := fs\<rparr>)
      | fs \<Rightarrow> (Ok (map (\<lambda>(name, os). (name, True)) (td_subdirs td) @ map (\<lambda>name. (name, False)) (td_files td)),
                td\<lparr>td_faults := tl fs\<rparr>))"

definition discover_partition_indices :: "topic_dir \<Rightarrow> nat list res \<times> topic_dir" where
  "discover_partition_indices td =
     and_then (td_read_dir td) (\<lambda>entries td.
       (Ok (List.map_filter (\<lambda>(name, is_dir). if is_dir then parse_dec (2 ^ 32) name else None) entries), td))"

section \<open>Topics\<close>

record topic =
  t_name :: string
  t_partitions :: "kpartition list"
  t_config :: log_config
  t_round_robin :: u64

definition from_parts :: "string \<Rightarrow> kpartition list \<Rightarrow> log_config \<Rightarrow> topic" where
  "from_parts name partitions config =
     \<lparr>t_name = name, t_partitions = partitions, t_config = config, t_round_robin = 0\<rparr>"

text \<open>The loop that opens the partitions \<open>0, 1, \<dots>\<close>, each in the subdirectory of its number.\<close>

fun open_partitions :: "deps \<Rightarrow> log_config \<Rightarrow> nat list \<Rightarrow> topic_dir \<Rightarrow> kpartition list res \<times> topic_dir" where
  "open_partitions D config [] td = (Ok [], td)"
| "open_partitions D config (i # is) td =
     and_then (in_state (put_subdir (nat_to_dec i) td) (partition_open D config (subdir td (nat_to_dec i)))) (\<lambda>p td.
     and_then (open_partitions D config is td) (\<lambda>ps td. (Ok (p # ps), td)))"

definition topic_create :: "deps \<Rightarrow> string \<Rightarrow> u32 \<Rightarrow> log_config \<Rightarrow> topic_dir \<Rightarrow> topic res \<times> topic_dir" where
  "topic_create D name partition_count config td =
     (if partition_count = 0 then (Err (InvalidPartitionCount 0), td)
      else and_then (open_partitions D config [0 ..< unat partition_count] td) (\<lambda>partitions td.
        (Ok (from_parts name partitions config), td)))"

definition no_partitions_detail :: string where
  "no_partitions_detail =
     ''no partition subdirectories found (a data directory written by kafko <= 0.2 is not compatible with the partitioned 0.3 layout)''"

definition not_contiguous_detail :: "nat \<Rightarrow> nat \<Rightarrow> string" where
  "not_contiguous_detail expected actual =
     ''partition indices are not contiguous from 0 (expected '' @ nat_to_dec expected @ '', found '' @ nat_to_dec actual @ '')''"

fun check_contiguous :: "string \<Rightarrow> nat \<Rightarrow> nat list \<Rightarrow> unit res" where
  "check_contiguous name expected [] = Ok ()"
| "check_contiguous name expected (actual # rest) =
     (if expected mod 2 ^ 32 \<noteq> actual then Err (InvalidTopicLayout name (not_contiguous_detail expected actual))
      else check_contiguous name (expected + 1) rest)"

definition topic_open :: "deps \<Rightarrow> string \<Rightarrow> log_config \<Rightarrow> topic_dir \<Rightarrow> topic res \<times> topic_dir" where
  "topic_open D name config td =
     and_then (discover_partition_indices td) (\<lambda>found td.
       let indices = sort found in
       if indices = [] then (Err (InvalidTopicLayout name no_partitions_detail), td)
       else and_then (check_contiguous name 0 indices, td) (\<lambda>_ td.
         and_then (open_partitions D config indices td) (\<lambda>partitions td.
           (Ok (from_parts name partitions config), td))))"

definition partition_count :: "topic \<Rightarrow> u32" where
  "partition_count t = of_nat (length (t_partitions t))"

definition topic_partition :: "topic \<Rightarrow> u32 \<Rightarrow> kpartition option" where
  "topic_partition t index =
     (if unat index < length (t_partitions t) then Some (t_partitions t ! unat index) else None)"

section \<open>Routing\<close>

definition OFFSET_BASIS :: u64 where
  "OFFSET_BASIS = 0xcbf29ce484222325"

definition PRIME :: u64 where
  "PRIME = 0x00000100000001b3"

definition fnv1a_step :: "u64 \<Rightarrow> u8 \<Rightarrow> u64" where
  "fnv1a_step hash b = (hash XOR ucast b) * PRIME"

definition fnv1a_64 :: "bytes \<Rightarrow> u64" where
  "fnv1a_64 bs = foldl fnv1a_step OFFSET_BASIS bs"

text \<open>The remainder of the source panics on a divisor of zero.\<close>

definition u64_rem :: "u64 \<Rightarrow> u64 \<Rightarrow> u64 res" where
  "u64_rem a b =
     (if b = 0 then Panic ''attempt to calculate the remainder with a divisor of zero'' else Ok (a mod b))"

definition partition_index :: "bytes \<Rightarrow> u32 \<Rightarrow> u32 res" where
  "partition_index k count = res_bind (u64_rem (fnv1a_64 k) (ucast count)) (\<lambda>r. Ok (ucast r))"

definition partition_for_key :: "topic \<Rightarrow> bytes \<Rightarrow> u32 res" where
  "partition_for_key t k = partition_index k (partition_count t)"

definition next_round_robin :: "topic \<Rightarrow> u32 res \<times> topic" where
  "next_round_robin t =
     (let n = t_round_robin t
      in (res_bind (u64_rem n (ucast (partition_count t))) (\<lambda>r. Ok (ucast r)), t\<lparr>t_round_robin := n + 1\<rparr>))"

section \<open>Shutting down\<close>

text \<open>
  \<open>shared i\<close>: some other owner holds a reference to partition \<open>i\<close>, so that
  \<^verbatim>\<open>Arc::try_unwrap\<close> fails and the partition is left running.
\<close>

definition topic_shutdown :: "deps \<Rightarrow> (nat \<Rightarrow> bool) \<Rightarrow> topic \<Rightarrow> topic" where
  "topic_shutdown D shared t =
     t\<lparr>t_partitions := map (\<lambda>i. if shared i then t_partitions t ! i else partition_shutdown D (t_partitions t ! i))
         [0 ..< length (t_partitions t)]\<rparr>"

text \<open>
  \<open>topic_files t td\<close>: the topic directory with what the writer tasks of \<open>t\<close> have made of their
  subdirectories.
\<close>

definition topic_files :: "topic \<Rightarrow> topic_dir \<Rightarrow> topic_dir" where
  "topic_files t td =
     foldl (\<lambda>td i. set_subdir (nat_to_dec i) (w_os (p_writer (t_partitions t ! i))) td) td [0 ..< length (t_partitions t)]"


section \<open>Routing, proved\<close>

lemma unat_ucast_u32 [simp]: "unat (ucast (w :: u32) :: u64) = unat w"
  using unat_u32_less [of w] by (simp add: unsigned_ucast_eq take_bit_nat_eq_self)

lemma unat_ucast_u64_small: "unat (w :: u64) < 2 ^ 32 \<Longrightarrow> unat (ucast w :: u32) = unat w"
  by (simp add: unsigned_ucast_eq take_bit_nat_eq_self)

lemma u64_rem_u32:
  assumes "n \<noteq> (0 :: u32)"
  shows "\<exists>r :: u32. res_bind (u64_rem a (ucast n)) (\<lambda>r. Ok (ucast r)) = Ok r \<and> unat r = unat a mod unat n"
proof -
  have "unat (a mod ucast n :: u64) = unat a mod unat n"
    by (simp add: unat_mod_distrib)
  moreover have "unat a mod unat n < 2 ^ 32"
    using assms unat_u32_less [of n] by (meson less_trans mod_less_divisor unat_gt_0)
  moreover have "(ucast n :: u64) \<noteq> 0"
    using assms by (metis unat_ucast_u32 unat_eq_0)
  ultimately show ?thesis
    by (simp add: u64_rem_def unat_ucast_u64_small)
qed

lemma partition_index_Ok:
  assumes "count \<noteq> 0"
  shows "\<exists>r. partition_index k count = Ok r \<and> unat r = unat (fnv1a_64 k) mod unat count"
  using u64_rem_u32 [OF assms] by (simp add: partition_index_def)

lemma next_round_robin_Ok:
  assumes "partition_count t \<noteq> 0"
  shows "\<exists>r. next_round_robin t = (Ok r, t\<lparr>t_round_robin := t_round_robin t + 1\<rparr>) \<and>
           unat r = unat (t_round_robin t) mod unat (partition_count t)"
  using u64_rem_u32 [OF assms] by (auto simp: next_round_robin_def Let_def)

text \<open>Multiplying by the odd prime and the exclusive or with a byte both lose nothing.\<close>

lemma PRIME_inverse: "PRIME * 0xce965057aff6957b = 1"
  by (simp add: PRIME_def)

lemma fnv1a_step_inj:
  assumes "fnv1a_step h b = fnv1a_step h' b'"
  shows "h XOR ucast b = h' XOR ucast b'"
proof -
  have "(x * PRIME) * 0xce965057aff6957b = x" for x
    unfolding mult.assoc PRIME_inverse by simp
  then show ?thesis
    using assms unfolding fnv1a_step_def by metis
qed

lemma foldl_fnv1a_inj: "foldl fnv1a_step h bs = foldl fnv1a_step h' bs \<Longrightarrow> h = h'"
proof (induction bs arbitrary: h h')
  case (Cons b bs)
  then have "fnv1a_step h b = fnv1a_step h' b" by simp
  from fnv1a_step_inj [OF this] have "(h XOR ucast b) XOR ucast b = (h' XOR ucast b) XOR ucast b" by simp
  then show ?case by (simp add: xor.assoc)
qed simp


section \<open>Opening the partitions of a topic\<close>

lemma nat_to_dec_inj: "nat_to_dec m = nat_to_dec n \<longleftrightarrow> m = n"
  using dec_val_nat_to_dec by metis

lemma parse_dec_nat_to_dec: "n < bound \<Longrightarrow> parse_dec bound (nat_to_dec n) = Some n"
  using parse_dec_digits [OF nat_to_dec_digits nat_to_dec_not_Nil, of n bound] by (simp add: dec_val_nat_to_dec)

lemma subdir_set_subdir [simp]: "subdir (set_subdir m os td) name = (if name = m then os else subdir td name)"
  by (simp add: subdir_def set_subdir_def update_conv' split: option.splits)

lemma set_subdir_frame [simp]:
  "td_files (set_subdir m os td) = td_files td" "td_faults (set_subdir m os td) = td_faults td"
  "td_fresh (set_subdir m os td) = td_fresh td"
  "fst ` set (td_subdirs (set_subdir m os td)) = insert m (fst ` set (td_subdirs td))"
  by (simp_all add: set_subdir_def dom_update)

lemma distinct_set_subdir [simp]:
  "distinct (map fst (td_subdirs td)) \<Longrightarrow> distinct (map fst (td_subdirs (set_subdir m os td)))"
  by (simp add: distinct_update set_subdir_def)

lemma partition_open_created:
  assumes "partition_open D cfg (subdir td name) = (Ok p, os)"
  shows "put_subdir name td os = set_subdir name os td"
proof -
  have "fst (create_dir_all (subdir td name)) = Ok ()"
    using assms by (auto simp: partition_open_def log_open_def and_then_eq_Ok)
  then show ?thesis
    by (simp add: put_subdir_def)
qed

text \<open>Opening partitions in distinct subdirectories that can each be opened.\<close>

lemma open_partitions_ok:
  assumes "distinct is" and "\<And>i. i \<in> set is \<Longrightarrow> \<exists>p os. partition_open D cfg (subdir td (nat_to_dec i)) = (Ok p, os) \<and> P i p os"
  shows "\<exists>ps td'. open_partitions D cfg is td = (Ok ps, td') \<and> list_all2 (\<lambda>i p. P i p (subdir td' (nat_to_dec i))) is ps \<and>
           (\<forall>name. name \<notin> nat_to_dec ` set is \<longrightarrow> subdir td' name = subdir td name) \<and>
           fst ` set (td_subdirs td') = nat_to_dec ` set is \<union> fst ` set (td_subdirs td) \<and>
           (distinct (map fst (td_subdirs td)) \<longrightarrow> distinct (map fst (td_subdirs td'))) \<and>
           td_faults td' = td_faults td \<and> td_files td' = td_files td"
  using assms
proof (induction "is" arbitrary: td)
  case (Cons i "is")
  obtain p os where p: "partition_open D cfg (subdir td (nat_to_dec i)) = (Ok p, os)" "P i p os"
    using Cons.prems(2) [of i] by auto
  let ?td = "set_subdir (nat_to_dec i) os td"
  have "\<exists>p os. partition_open D cfg (subdir ?td (nat_to_dec j)) = (Ok p, os) \<and> P j p os" if "j \<in> set is" for j
    using that Cons.prems by (auto simp: nat_to_dec_inj)
  with Cons.IH [of ?td] Cons.prems(1) obtain ps td' where ps: "open_partitions D cfg is ?td = (Ok ps, td')"
    "list_all2 (\<lambda>i p. P i p (subdir td' (nat_to_dec i))) is ps"
    "\<forall>name. name \<notin> nat_to_dec ` set is \<longrightarrow> subdir td' name = subdir ?td name"
    "fst ` set (td_subdirs td') = nat_to_dec ` set is \<union> fst ` set (td_subdirs ?td)"
    "distinct (map fst (td_subdirs ?td)) \<longrightarrow> distinct (map fst (td_subdirs td'))"
    "td_faults td' = td_faults ?td" "td_files td' = td_files ?td"
    by auto
  moreover have "nat_to_dec i \<notin> nat_to_dec ` set is"
    using Cons.prems(1) by (auto simp: nat_to_dec_inj)
  ultimately show ?case
    using p partition_open_created [OF p(1)] by auto
qed auto

lemma partition_open_fresh:
  assumes "os_faults os = []" and "os_files os = []" and "n \<le> os_read_limit os" and "segment_size_threshold cfg + n \<le> 2 ^ 32"
  shows "\<exists>p os'. partition_open D cfg os = (Ok p, os') \<and> live D p \<lparr>al_first = 0, al_records = []\<rparr> n \<and>
           log_cfg (w_log (p_writer p)) = cfg \<and> high_water_mark p = 0 \<and> w_os (p_writer p) = os'"
proof -
  obtain l os' where c: "log_create cfg os = (Ok l, os')" "log_inv D l os' 0 [[]] 0" "log_cfg l = cfg"
    "os_faults os' = []" "os_read_limit os' = os_read_limit os"
    by (rule log_create_inv [OF assms(1,2)])
  have repr: "log_repr D l os' 0 [[]]" "next_offset l = 0"
    using c(2) by (auto simp: log_inv_def log_repr_def)
  have "n \<le> 2 ^ 32" "n < 2 ^ 64"
    using assms(4) by simp_all
  then have "log_room l os' n"
    unfolding log_room_iff [OF repr(1)] using repr(2) assms(3) c(5) by simp
  moreover have "log_models D l os' \<lparr>al_first = 0, al_records = []\<rparr> 0"
    using log_modelsI [OF c(2)] by (simp add: abs_log_def durable_end_def)
  moreover have "log_open D cfg os = (Ok l, os')"
    using c(1) assms(1,2) by (simp add: log_open_def create_dir_all_def discover_segment_offsets_def read_dir_def io_simps)
  ultimately show ?thesis
    using c assms(4) repr(2) by (auto simp: partition_open_def live_def serving_def high_water_mark_def)
qed

text \<open>Shutting a partition down, losing power, and opening it again.\<close>

lemma partition_shutdown_live:
  assumes "live D p a n"
  shows "\<exists>fss' fs. log_inv D (w_log (p_writer (partition_shutdown D p))) (w_os (p_writer (partition_shutdown D p))) (al_first a) (fss' @ [fs]) (length fs) \<and>
           a = abs_log (al_first a) (fss' @ [fs]) \<and> p_status (partition_shutdown D p) = Finished \<and>
           log_room (w_log (p_writer (partition_shutdown D p))) (w_os (p_writer (partition_shutdown D p))) n"
proof -
  obtain d where w: "p_status p = Running" "w_inbox (p_writer p) = []" "os_faults (w_os (p_writer p)) = []"
    "log_models D (w_log (p_writer p)) (w_os (p_writer p)) a d" "log_room (w_log (p_writer p)) (w_os (p_writer p)) n"
    using assms by (auto simp: live_def serving_def)
  obtain fss' fs m where inv: "log_inv D (w_log (p_writer p)) (w_os (p_writer p)) (al_first a) (fss' @ [fs]) m"
    and a: "a = abs_log (al_first a) (fss' @ [fs])"
    by (rule log_models_cases [OF w(4)])
  obtain os' where s: "log_sync (w_log (p_writer p), w_os (p_writer p)) = (Ok (), w_log (p_writer p), os')"
    "log_inv D (w_log (p_writer p)) os' (al_first a) (fss' @ [fs]) (length fs)" "os_read_limit os' = os_read_limit (w_os (p_writer p))"
    by (rule log_sync_inv [OF w(3) inv]) blast
  have "partition_shutdown D p = writer_exit (p\<lparr>p_closed := True\<rparr>)"
    using w(1,2) by (simp add: partition_shutdown_def run_inbox.simps [of D "p\<lparr>p_closed := True\<rparr>"])
  with s w(1) have "p_status (partition_shutdown D p) = Finished" "w_log (p_writer (partition_shutdown D p)) = w_log (p_writer p)"
    "w_os (p_writer (partition_shutdown D p)) = os'"
    by (simp_all add: writer_exit_def on_log_def set_writer_def)
  moreover have "log_room (w_log (p_writer p)) os' n"
    using w(5) s(3) by (simp add: log_room_def)
  ultimately show ?thesis
    using s(2) a by auto
qed

lemma shutdown_reopen:
  assumes "live D p a n" and "power_loss (w_os (p_writer (partition_shutdown D p))) os'" and "os_faults os' = []"
    and "os_read_limit os' = os_read_limit (w_os (p_writer (partition_shutdown D p)))" and "segment_size_threshold cfg + n \<le> 2 ^ 32"
  shows "\<exists>q os''. partition_open D cfg os' = (Ok q, os'') \<and> live D q a n \<and> log_cfg (w_log (p_writer q)) = cfg \<and>
           high_water_mark q = al_next a \<and> w_os (p_writer q) = os''"
proof -
  let ?w = "p_writer (partition_shutdown D p)"
  obtain fss' fs where inv: "log_inv D (w_log ?w) (w_os ?w) (al_first a) (fss' @ [fs]) (length fs)"
    and a: "a = abs_log (al_first a) (fss' @ [fs])" and room: "log_room (w_log ?w) (w_os ?w) n"
    using partition_shutdown_live [OF assms(1)] by blast
  have repr: "log_repr D (w_log ?w) (w_os ?w) (al_first a) (fss' @ [fs])"
    using inv by (simp add: log_inv_def)
  note sizes = room [unfolded log_room_iff [OF repr]]
  have lim: "next_offset (w_log ?w) < 2 ^ 64" "length (wire fs) \<le> os_read_limit os'" "length (wire fs) \<le> 2 ^ 32"
    using sizes assms(4) by auto
  obtain m l' os'' where m: "length fs \<le> m" "m \<le> length fs" "log_open D cfg os' = (Ok l', os'')" "log_cfg l' = cfg"
    "log_inv D l' os'' (al_first a) (fss' @ [take m fs]) m" "os_faults os'' = []" "os_read_limit os'' = os_read_limit os'"
    by (rule log_open_after_power_loss [OF inv assms(2,3) lim]) blast
  then have inv': "log_inv D l' os'' (al_first a) (fss' @ [fs]) m"
    by simp
  then have repr': "log_repr D l' os'' (al_first a) (fss' @ [fs])"
    by (simp add: log_inv_def)
  have nxt: "next_offset l' = al_next a" "next_offset l' = next_offset (w_log ?w)"
    using repr repr' by (auto simp: log_repr_def) (subst a, simp add: al_next_def abs_log_def)
  have "log_room l' os'' n"
    unfolding log_room_iff [OF repr'] using sizes nxt(2) m(7) assms(4) by simp
  moreover have "\<exists>d. log_models D l' os'' a d"
    using log_modelsI [OF inv'] a by metis
  ultimately show ?thesis
    using m(3,4,6) nxt(1) assms(5) by (auto simp: partition_open_def live_def serving_def high_water_mark_def)
qed

end
