(* ===== verification/Kafko_TopicProps.thy ===== *)
theory Kafko_TopicProps
  imports Kafko_Topic "HOL-Library.Multiset"
begin

text \<open>
  What topics guarantee: routing is total, stable and balanced; a topic created on an empty
  directory has empty partitions; a topic that was shut down is the same after a power loss and
  a new open; a directory whose partitions are not numbered \<open>0, 1, \<dots>\<close> is refused.
\<close>

section \<open>Live topics\<close>

text \<open>\<open>topic_live D t as n\<close>: the partitions of \<open>t\<close> run, hold the logs \<open>as\<close> and have room for \<open>n\<close> more bytes each.\<close>

definition topic_live :: "deps \<Rightarrow> topic \<Rightarrow> alog list \<Rightarrow> nat \<Rightarrow> bool" where
  "topic_live D t as n \<longleftrightarrow>
     list_all2 (part_repr D (cfg_compression (t_config t)) n) (t_partitions t) as \<and> as \<noteq> [] \<and> length as < 2 ^ 32"

lemma topic_liveD:
  assumes "topic_live D t as n"
  shows "length (t_partitions t) = length as" "partition_count t \<noteq> 0" "unat (partition_count t) = length as"
    "as \<noteq> []" "length as < 2 ^ 32"
proof -
  show len: "length (t_partitions t) = length as" "as \<noteq> []" "length as < 2 ^ 32"
    using assms by (auto simp: topic_live_def dest: list_all2_lengthD)
  then show c: "unat (partition_count t) = length as"
    unfolding partition_count_def by (subst unat_u32_of_nat) simp_all
  then show "partition_count t \<noteq> 0"
    using len(2) by (metis length_0_conv unat_0)
qed

section \<open>Discovering partitions\<close>

definition numbered :: "topic_dir \<Rightarrow> nat list" where
  "numbered td = List.map_filter (parse_dec (2 ^ 32)) (map fst (td_subdirs td))"

lemma discover_partition_indices_ok:
  "td_faults td = [] \<Longrightarrow> discover_partition_indices td = (Ok (numbered td), td)"
proof -
  have "List.map_filter (\<lambda>(name, is_dir). if is_dir then parse_dec (2 ^ 32) name else None)
      (map (\<lambda>(name, os). (name, True)) (td_subdirs td) @ map (\<lambda>name. (name, False)) (td_files td)) = numbered td"
    by (simp add: numbered_def List.map_filter_def comp_def case_prod_unfold filter_map)
  moreover assume "td_faults td = []"
  moreover from this have "td\<lparr>td_faults := []\<rparr> = td" by simp
  ultimately show ?thesis
    by (simp add: discover_partition_indices_def td_read_dir_def)
qed

lemma check_contiguous_iff:
  "k + length xs \<le> 2 ^ 32 \<Longrightarrow> check_contiguous name k xs = Ok () \<longleftrightarrow> xs = [k ..< k + length xs]"
proof (induction xs arbitrary: k)
  case (Cons x xs)
  have "[k ..< k + length (x # xs)] = k # [Suc k ..< Suc k + length xs]"
    by (simp add: upt_conv_Cons del: upt_Suc)
  with Cons.IH [of "Suc k"] Cons.prems show ?case
    by (auto simp del: upt_Suc)
qed simp

lemma check_contiguous_cases:
  "check_contiguous name k xs = Ok () \<or> (\<exists>detail. check_contiguous name k xs = Err (InvalidTopicLayout name detail))"
  by (induction name k xs rule: check_contiguous.induct) auto

lemma sort_numbered:
  assumes "distinct (map fst (td_subdirs td))" and "fst ` set (td_subdirs td) = nat_to_dec ` {..< n} \<union> S"
    and "\<forall>name \<in> S. parse_dec (2 ^ 32) name = None" and "n \<le> 2 ^ 32"
  shows "sort (numbered td) = [0 ..< n]"
proof -
  have dec: "parse_dec (2 ^ 32) (nat_to_dec i) = Some i" if "i < n" for i
    using that assms(4) by (intro parse_dec_nat_to_dec) simp
  have names: "\<exists>i < n. x = nat_to_dec i" if "x \<in> set (map fst (td_subdirs td))" "parse_dec (2 ^ 32) x = Some y" for x y
    using that assms(2,3) by auto
  have "set (numbered td) = {..< n}"
  proof (intro equalityI subsetI)
    fix i
    assume "i \<in> set (numbered td)"
    then obtain x where x: "x \<in> set (map fst (td_subdirs td))" "parse_dec (2 ^ 32) x = Some i"
      unfolding numbered_def set_map_filter by blast
    from names [OF x] dec x(2) show "i \<in> {..< n}" by fastforce
  next
    fix i
    assume "i \<in> {..< n}"
    moreover from this have "nat_to_dec i \<in> set (map fst (td_subdirs td))"
      using assms(2) by simp
    ultimately show "i \<in> set (numbered td)"
      unfolding numbered_def set_map_filter using dec by blast
  qed
  moreover have "distinct (numbered td)"
    unfolding numbered_def by (rule distinct_map_filterI [OF assms(1)]) (metis dec names option.inject)
  ultimately show ?thesis
    by (intro sorted_distinct_set_unique) (auto simp: atLeast0LessThan)
qed

section \<open>Properties\<close>

text \<open>
  A directory is opened as a topic exactly when the numbers its subdirectories parse to are
  0, 1, \<dots>, without gaps or repetitions; any other layout is refused as
  \<^verbatim>\<open>InvalidTopicLayout\<close>, and nothing is written to the directory.
\<close>

lemma topic_open_layout:
  assumes "td_faults td = []" and "length (numbered td) \<le> 2 ^ 32"
  shows "if numbered td \<noteq> [] \<and> sort (numbered td) = [0 ..< length (numbered td)]
         then topic_open D name cfg td =
                and_then (open_partitions D cfg [0 ..< length (numbered td)] td) (\<lambda>ps td. (Ok (from_parts name ps cfg), td))
         else \<exists>detail. topic_open D name cfg td = (Err (InvalidTopicLayout name detail), td)"
proof -
  note disc = discover_partition_indices_ok [OF assms(1)]
  have "sort (numbered td) = [] \<longleftrightarrow> numbered td = []"
    by (metis length_0_conv length_sort)
  moreover have "check_contiguous name 0 (sort (numbered td)) = Ok () \<longleftrightarrow> sort (numbered td) = [0 ..< length (numbered td)]"
    using check_contiguous_iff [of 0 "sort (numbered td)" name] assms(2) by simp
  moreover have "\<exists>detail. check_contiguous name 0 (sort (numbered td)) = Err (InvalidTopicLayout name detail)"
    if "check_contiguous name 0 (sort (numbered td)) \<noteq> Ok ()"
    using that check_contiguous_cases by blast
  ultimately show ?thesis
    by (auto simp: topic_open_def disc Let_def)
qed

lemma topic_open_layout_witness:
  "\<exists>detail. topic_open demo_deps ''t'' demo_cfg
     \<lparr>td_subdirs = [(''0'', demo_os), (''2'', demo_os), (''offsets'', demo_os)], td_files = [], td_faults = [], td_fresh = demo_os\<rparr> =
     (Err (InvalidTopicLayout ''t'' detail),
      \<lparr>td_subdirs = [(''0'', demo_os), (''2'', demo_os), (''offsets'', demo_os)], td_files = [], td_faults = [], td_fresh = demo_os\<rparr>)"
proof -
  let ?td = "\<lparr>td_subdirs = [(''0'', demo_os), (''2'', demo_os), (''offsets'', demo_os)], td_files = [], td_faults = [], td_fresh = demo_os\<rparr>"
  have "numbered ?td = [0, 2]"
    by (simp add: numbered_def List.map_filter_def parse_dec_def dec_val_def is_digit_def)
  with topic_open_layout [of ?td demo_deps "''t''" demo_cfg] show ?thesis
    by (simp add: upt_rec)
qed

text \<open>
  Routing by key. A key always has a partition, one that exists, and which one depends on
  nothing but the bytes of the key and the number of partitions.
\<close>

lemma key_routing:
  assumes "pcount \<noteq> 0"
  shows "\<exists>r. partition_index k pcount = Ok r \<and> r < pcount \<and> unat r = unat (fnv1a_64 k) mod unat pcount"
proof -
  obtain r where r: "partition_index k pcount = Ok r" "unat r = unat (fnv1a_64 k) mod unat pcount"
    using partition_index_Ok [OF assms] by blast
  moreover from this have "unat r < unat pcount"
    using assms by (simp add: unat_gt_0)
  ultimately show ?thesis
    by (auto simp: word_less_nat_alt)
qed

lemma key_routing_witness: "\<exists>r. partition_index [97] 8 = Ok r \<and> r < 8 \<and> unat r = 4"
proof -
  have "fnv1a_64 [97] = 0xaf63dc4c8601ec8c"
    by (simp add: fnv1a_64_def fnv1a_step_def OFFSET_BASIS_def PRIME_def)
  with key_routing [of 8 "[97]"] show ?thesis
    by simp
qed

text \<open>
  The hash tells keys apart that differ in a single byte, at any position and with anything
  before and after it.
\<close>

lemma fnv1a_one_byte:
  assumes "b \<noteq> c"
  shows "fnv1a_64 (xs @ b # ys) \<noteq> fnv1a_64 (xs @ c # ys)"
proof
  let ?h = "foldl fnv1a_step OFFSET_BASIS xs"
  assume "fnv1a_64 (xs @ b # ys) = fnv1a_64 (xs @ c # ys)"
  then have "foldl fnv1a_step (fnv1a_step ?h b) ys = foldl fnv1a_step (fnv1a_step ?h c) ys"
    by (simp add: fnv1a_64_def)
  then have "?h XOR ucast b = ?h XOR ucast c"
    by (intro fnv1a_step_inj [OF foldl_fnv1a_inj])
  then have "?h XOR (?h XOR ucast b) = ?h XOR (?h XOR ucast c)"
    by simp
  then have "(ucast b :: u64) = ucast c"
    by (simp flip: xor.assoc)
  moreover have "(ucast (ucast x :: u64) :: u8) = x" for x :: u8
    by (rule bit_word_eqI) (simp add: bit_ucast_iff)
  ultimately show False
    using assms by metis
qed

lemma fnv1a_one_byte_witness: "fnv1a_64 [107, 49] \<noteq> fnv1a_64 [107, 50]"
  using fnv1a_one_byte [of 49 50 "[107]" "[]"] by simp

text \<open>\<open>m\<close> keyless sends in a row: the partitions they go to, and the topic afterwards.\<close>

primrec round_robins :: "nat \<Rightarrow> topic \<Rightarrow> u32 res list \<times> topic" where
  "round_robins 0 t = ([], t)"
| "round_robins (Suc m) t =
     (case next_round_robin t of (r, t1) \<Rightarrow> (case round_robins m t1 of (rs, t2) \<Rightarrow> (r # rs, t2)))"

lemma round_robins_eq:
  assumes "partition_count t \<noteq> 0" and "unat (t_round_robin t) + m < 2 ^ 64"
  shows "fst (round_robins m t) = map (\<lambda>i. Ok (of_nat (i mod unat (partition_count t)))) [unat (t_round_robin t) ..< unat (t_round_robin t) + m]"
  using assms
proof (induction m arbitrary: t)
  case (Suc m)
  let ?t = "t\<lparr>t_round_robin := t_round_robin t + 1\<rparr>"
  obtain r where r: "next_round_robin t = (Ok r, ?t)" "unat r = unat (t_round_robin t) mod unat (partition_count t)"
    using next_round_robin_Ok [OF Suc.prems(1)] by blast
  have "t_round_robin t = of_nat (unat (t_round_robin t))" by simp
  then have "t_round_robin t + 1 = of_nat (unat (t_round_robin t) + 1)" by simp
  then have u: "unat (t_round_robin t + 1) = unat (t_round_robin t) + 1"
    using Suc.prems(2) unat_u64_of_nat [of "unat (t_round_robin t) + 1"] by (simp add: add.commute)
  have "r = of_nat (unat (t_round_robin t) mod unat (partition_count t))"
    unfolding r(2) [symmetric] by simp
  moreover have "fst (round_robins m ?t) =
      map (\<lambda>i. Ok (of_nat (i mod unat (partition_count t)))) [Suc (unat (t_round_robin t)) ..< Suc (unat (t_round_robin t)) + m]"
    using Suc.IH [of ?t] Suc.prems u by (simp add: partition_count_def)
  ultimately show ?case
    using r(1) by (cases "round_robins m ?t") (simp add: upt_conv_Cons del: upt_Suc)
qed simp

lemma mod_window:
  assumes "0 < n"
  shows "mset (map (\<lambda>i. i mod n) [k ..< k + n]) = mset [0 ..< (n :: nat)]"
proof (induction k)
  case 0
  have "map (\<lambda>i. i mod n) [0 ..< n] = [0 ..< n]"
    by (intro map_idI) simp
  then show ?case by simp
next
  case (Suc k)
  have "[Suc k ..< Suc k + n] = [Suc k ..< k + n] @ [k + n]"
    using assms by simp
  moreover have "[k ..< k + n] = k # [Suc k ..< k + n]"
    using assms by (simp add: upt_conv_Cons)
  ultimately show ?case
    using Suc by (simp del: upt_Suc)
qed

text \<open>
  Keyless sends are spread evenly. Of any as many sends in a row as the topic has partitions,
  each partition gets exactly one (as long as the 64-bit cursor does not wrap within them).
\<close>

lemma round_robin_balanced:
  assumes "partition_count t \<noteq> 0" and "unat (t_round_robin t) + unat (partition_count t) < 2 ^ 64"
  shows "mset (fst (round_robins (unat (partition_count t)) t)) = mset (map (\<lambda>i. Ok (of_nat i)) [0 ..< unat (partition_count t)])"
proof -
  let ?n = "unat (partition_count t)" and ?k = "unat (t_round_robin t)"
  have "fst (round_robins ?n t) = map (Ok \<circ> of_nat) (map (\<lambda>i. i mod ?n) [?k ..< ?k + ?n])"
    using round_robins_eq [OF assms] by (simp add: comp_def)
  moreover have "mset (map (\<lambda>i. i mod ?n) [?k ..< ?k + ?n]) = mset [0 ..< ?n]"
    using assms(1) by (intro mod_window) (simp add: unat_gt_0)
  ultimately show ?thesis
    by (metis (no_types, lifting) mset_map comp_def map_eq_conv)
qed

lemma round_robin_balanced_witness:
  "\<exists>t. partition_count t = 3 \<and> t_round_robin t = 7 \<and> mset (fst (round_robins 3 t)) = {#Ok 0, Ok 1, Ok 2#}"
proof -
  define t :: topic where "t = \<lparr>t_name = ''t'', t_partitions = replicate 3 undefined, t_config = demo_cfg, t_round_robin = 7\<rparr>"
  have t: "partition_count t = 3" "t_round_robin t = 7"
    by (simp_all add: t_def partition_count_def)
  with round_robin_balanced [of t] have "mset (fst (round_robins 3 t)) = mset (map (\<lambda>i. Ok (of_nat i)) [0 ..< 3])"
    by simp
  also have "\<dots> = {#Ok 0, Ok 1, Ok 2#}"
    by (simp add: upt_rec)
  finally show ?thesis
    using t by blast
qed

section \<open>Creating a topic and opening it again\<close>

lemma topic_create_live:
  assumes "codec_laws D" and "td_subdirs td = []" and "os_files (td_fresh td) = []" and "os_faults (td_fresh td) = []"
    and "n \<le> os_read_limit (td_fresh td)" and "segment_size_threshold cfg + n \<le> 2 ^ 32" and "pcount \<noteq> 0"
  shows "\<exists>t td'. topic_create D name pcount cfg td = (Ok t, td') \<and>
           topic_live D t (replicate (unat pcount) \<lparr>al_first = 0, al_records = []\<rparr>) n \<and>
           map high_water_mark (t_partitions t) = replicate (unat pcount) 0 \<and> partition_count t = pcount \<and>
           t_config t = cfg \<and> t_name t = name \<and> sort (numbered td') = [0 ..< unat pcount] \<and>
           (\<forall>i < unat pcount. subdir td' (nat_to_dec i) = w_os (p_writer (t_partitions t ! i)))"
proof -
  let ?a = "\<lparr>al_first = 0, al_records = []\<rparr> :: alog"
  let ?P = "\<lambda>i :: nat. \<lambda>p os. live D p ?a n \<and> log_cfg (w_log (p_writer p)) = cfg \<and> high_water_mark p = 0 \<and> w_os (p_writer p) = os"
  have "\<exists>p os. partition_open D cfg (subdir td (nat_to_dec i)) = (Ok p, os) \<and> ?P i p os" for i
    using partition_open_fresh [OF assms(4,3,5,6), of D] assms(2) by (simp add: subdir_def)
  then obtain ps td' where o: "open_partitions D cfg [0 ..< unat pcount] td = (Ok ps, td')"
    and ps: "list_all2 (\<lambda>i p. ?P i p (subdir td' (nat_to_dec i))) [0 ..< unat pcount] ps"
    and td': "fst ` set (td_subdirs td') = nat_to_dec ` set [0 ..< unat pcount] \<union> fst ` set (td_subdirs td)" "distinct (map fst (td_subdirs td'))"
    using open_partitions_ok [of "[0 ..< unat pcount]" D cfg td ?P] assms(2) by auto
  have len: "length ps = unat pcount"
    using ps by (auto dest: list_all2_lengthD)
  have p: "?P i (ps ! i) (subdir td' (nat_to_dec i))" if "i < unat pcount" for i
    using list_all2_nthD [OF ps, of i] that by simp
  have "list_all2 (part_repr D (cfg_compression cfg) n) ps (replicate (unat pcount) ?a)"
    using p len assms(1) by (auto simp: list_all2_conv_all_nth part_repr_def)
  moreover have "map high_water_mark ps = replicate (unat pcount) 0"
    using p len by (auto intro: nth_equalityI)
  moreover have "sort (numbered td') = [0 ..< unat pcount]"
    using td' assms(2) unat_u32_less [of pcount] by (intro sort_numbered [where S = "{}"]) (auto simp: atLeast0LessThan)
  moreover have "partition_count (from_parts name ps cfg) = pcount"
    by (simp add: partition_count_def from_parts_def len)
  ultimately show ?thesis
    using assms(7) o p unat_u32_less [of pcount]
    by (auto simp: topic_create_def topic_live_def from_parts_def unat_gt_0 unat_eq_0)
qed

text \<open>
  Creating a topic. On a directory without partitions \<^verbatim>\<open>Topic::create\<close> gives a topic with
  the requested number of partitions, all running and empty, at high-water mark 0; the directory
  then has exactly the layout \<^verbatim>\<open>Topic::open\<close> accepts. A request for zero partitions is refused.
\<close>

lemma topic_create_fresh:
  assumes "codec_laws D" and "td_subdirs td = []" and "os_files (td_fresh td) = []" and "os_faults (td_fresh td) = []"
    and "n \<le> os_read_limit (td_fresh td)" and "segment_size_threshold cfg + n \<le> 2 ^ 32"
  shows "if pcount = 0 then topic_create D name pcount cfg td = (Err (InvalidPartitionCount 0), td)
         else \<exists>t td'. topic_create D name pcount cfg td = (Ok t, td') \<and>
           topic_live D t (replicate (unat pcount) \<lparr>al_first = 0, al_records = []\<rparr>) n \<and>
           map high_water_mark (t_partitions t) = replicate (unat pcount) 0 \<and> partition_count t = pcount \<and>
           t_config t = cfg \<and> t_name t = name \<and> sort (numbered td') = [0 ..< unat pcount] \<and>
           (\<forall>i < unat pcount. subdir td' (nat_to_dec i) = w_os (p_writer (t_partitions t ! i)))"
  using topic_create_live [OF assms, of pcount name] by (simp add: topic_create_def)

text \<open>An empty topic directory, for evaluating the statements.\<close>

definition demo_td :: topic_dir where
  "demo_td = \<lparr>td_subdirs = [], td_files = [], td_faults = [], td_fresh = demo_os\<rparr>"

lemma demo_fresh:
  "td_subdirs demo_td = []" "os_files (td_fresh demo_td) = []" "os_faults (td_fresh demo_td) = []"
  "1000 \<le> os_read_limit (td_fresh demo_td)" "segment_size_threshold demo_cfg + 1000 \<le> 2 ^ 32"
  by (simp_all add: demo_td_def demo_os_def demo_cfg_def default_log_config_def)

lemma topic_create_fresh_witness:
  "\<exists>t td'. topic_create demo_deps ''t'' 3 demo_cfg demo_td = (Ok t, td') \<and> partition_count t = 3 \<and>
     map high_water_mark (t_partitions t) = [0, 0, 0] \<and> sort (numbered td') = [0, 1, 2]"
proof -
  have u: "unat (3 :: u32) = 3" by simp
  have "replicate 3 (0 :: nat) = [0, 0, 0]" "[0 ..< 3] = [0, 1, 2 :: nat]"
    by (simp_all add: numeral_3_eq_3 upt_rec)
  with topic_create_fresh [OF demo_codec_laws demo_fresh, of 3 "''t''", unfolded u] show ?thesis
    by auto
qed

lemma demo_topic:
  obtains t td where "topic_create demo_deps ''t'' 2 demo_cfg demo_td = (Ok t, td)" "t_config t = demo_cfg" "partition_count t = 2"
    "topic_live demo_deps t [\<lparr>al_first = 0, al_records = []\<rparr>, \<lparr>al_first = 0, al_records = []\<rparr>] 1000" "map high_water_mark (t_partitions t) = [0, 0]"
proof -
  have u: "unat (2 :: u32) = 2" "(2 :: u32) \<noteq> 0" by simp_all
  have r: "replicate 2 x = [x, x]" for x :: 'a
    by (simp add: numeral_2_eq_2)
  from topic_create_live [OF demo_codec_laws demo_fresh u(2), of "''t''", unfolded u(1) r] show thesis
    by (elim exE conjE) (rule that)
qed

text \<open>
  What a power loss leaves of a topic's directory: every partition's subdirectory after the loss,
  and no other subdirectory with a number for a name.
\<close>

definition topic_power_loss :: "topic \<Rightarrow> topic_dir \<Rightarrow> bool" where
  "topic_power_loss t td \<longleftrightarrow>
     td_faults td = [] \<and> sort (numbered td) = [0 ..< length (t_partitions t)] \<and>
     (\<forall>i < length (t_partitions t). power_loss (w_os (p_writer (t_partitions t ! i))) (subdir td (nat_to_dec i)) \<and>
        os_faults (subdir td (nat_to_dec i)) = [] \<and>
        os_read_limit (subdir td (nat_to_dec i)) = os_read_limit (w_os (p_writer (t_partitions t ! i))))"

lemma topic_reopen:
  assumes "topic_live D t as n" and "topic_power_loss (topic_shutdown D (\<lambda>i. False) t) td" and "segment_size_threshold cfg + n \<le> 2 ^ 32"
  shows "\<exists>t' td'. topic_open D name cfg td = (Ok t', td') \<and> topic_live D t' as n \<and>
           map high_water_mark (t_partitions t') = map al_next as \<and> t_name t' = name"
proof -
  let ?n = "length as"
  note len = topic_liveD [OF assms(1)]
  let ?P = "\<lambda>i p os. live D p (as ! i) n \<and> log_cfg (w_log (p_writer p)) = cfg \<and> high_water_mark p = al_next (as ! i) \<and> w_os (p_writer p) = os"
  have parts: "part_repr D (cfg_compression (t_config t)) n (t_partitions t ! i) (as ! i)" if "i < ?n" for i
    using assms(1) that by (auto simp: topic_live_def list_all2_conv_all_nth)
  have loss: "td_faults td = []" "sort (numbered td) = [0 ..< ?n]"
    "\<And>i. i < ?n \<Longrightarrow> power_loss (w_os (p_writer (partition_shutdown D (t_partitions t ! i)))) (subdir td (nat_to_dec i)) \<and>
        os_faults (subdir td (nat_to_dec i)) = [] \<and>
        os_read_limit (subdir td (nat_to_dec i)) = os_read_limit (w_os (p_writer (partition_shutdown D (t_partitions t ! i))))"
    using assms(2) len(1) by (auto simp: topic_power_loss_def topic_shutdown_def)
  have "\<exists>p os. partition_open D cfg (subdir td (nat_to_dec i)) = (Ok p, os) \<and> ?P i p os" if "i \<in> set [0 ..< ?n]" for i
    using shutdown_reopen [of D "t_partitions t ! i" "as ! i" n "subdir td (nat_to_dec i)" cfg] parts [of i] loss(3) [of i] assms(3) that
    by (auto simp: part_repr_def)
  then obtain ps td' where o: "open_partitions D cfg [0 ..< ?n] td = (Ok ps, td')"
    and ps: "list_all2 (\<lambda>i p. ?P i p (subdir td' (nat_to_dec i))) [0 ..< ?n] ps"
    using open_partitions_ok [of "[0 ..< ?n]" D cfg td ?P] by auto
  have p: "length ps = ?n" "\<And>i. i < ?n \<Longrightarrow> ?P i (ps ! i) (subdir td' (nat_to_dec i))"
    using ps by (auto simp: list_all2_conv_all_nth)
  have "check_contiguous name 0 [0 ..< ?n] = Ok ()"
    using check_contiguous_iff [of 0 "[0 ..< ?n]" name] len(5) by simp
  then have "topic_open D name cfg td = (Ok (from_parts name ps cfg), td')"
    using loss(1,2) o len(4) by (simp add: topic_open_def discover_partition_indices_ok)
  moreover have "list_all2 (part_repr D (cfg_compression cfg) n) ps as"
    using p parts by (auto simp: list_all2_conv_all_nth part_repr_def)
  moreover have "map high_water_mark ps = map al_next as"
    using p by (auto intro: nth_equalityI)
  ultimately show ?thesis
    using len by (auto simp: topic_live_def from_parts_def)
qed

text \<open>
  Shutting a topic down is a durability point. After \<^verbatim>\<open>Topic::shutdown\<close> and a power loss,
  \<^verbatim>\<open>Topic::open\<close> finds every partition again with exactly the records it had, at the same
  offsets, and the partitions are ready to serve.
\<close>

lemma topic_restart:
  assumes "topic_live D t as n" and "topic_power_loss (topic_shutdown D (\<lambda>i. False) t) td" and "segment_size_threshold cfg + n \<le> 2 ^ 32"
  shows "\<exists>t' td'. topic_open D name cfg td = (Ok t', td') \<and> topic_live D t' as n \<and>
           map high_water_mark (t_partitions t') = map al_next as \<and> t_name t' = name"
  by (rule topic_reopen [OF assms])

text \<open>What is left when everything not yet durable is lost.\<close>

definition topic_remains :: "topic \<Rightarrow> topic_dir" where
  "topic_remains t =
     \<lparr>td_subdirs = map (\<lambda>i. (nat_to_dec i, (lose_cache (w_os (p_writer (t_partitions t ! i))))\<lparr>os_faults := []\<rparr>)) [0 ..< length (t_partitions t)],
      td_files = [], td_faults = [], td_fresh = demo_os\<rparr>"

lemma topic_power_loss_remains:
  assumes "length (t_partitions t) < 2 ^ 32"
  shows "topic_power_loss t (topic_remains t)"
proof -
  let ?os = "\<lambda>i. (lose_cache (w_os (p_writer (t_partitions t ! i))))\<lparr>os_faults := []\<rparr>"
  have sub: "subdir (topic_remains t) (nat_to_dec i) = ?os i" if "i < length (t_partitions t)" for i
  proof -
    have "map_of (map (\<lambda>i. (nat_to_dec i, ?os i)) [0 ..< length (t_partitions t)]) (nat_to_dec i) = Some (?os i)"
      using that by (intro map_of_is_SomeI) (auto simp: distinct_map comp_def inj_on_def nat_to_dec_inj)
    then show ?thesis
      by (simp add: subdir_def topic_remains_def)
  qed
  have "power_loss os ((lose_cache os)\<lparr>os_faults := []\<rparr>)" "os_read_limit ((lose_cache os)\<lparr>os_faults := []\<rparr>) = os_read_limit os" for os
    using power_loss_lose_cache [of os] by (simp_all add: power_loss_def lose_cache_def)
  moreover have "sort (numbered (topic_remains t)) = [0 ..< length (t_partitions t)]"
    using assms by (intro sort_numbered [where S = "{}"])
      (auto simp: topic_remains_def comp_def distinct_map inj_on_def nat_to_dec_inj image_image atLeast0LessThan)
  ultimately show ?thesis
    using sub by (simp add: topic_power_loss_def) (simp add: topic_remains_def)
qed

lemma topic_restart_witness:
  "\<exists>t td t' td'. topic_create demo_deps ''t'' 2 demo_cfg demo_td = (Ok t, td) \<and>
     topic_open demo_deps ''t'' demo_cfg (topic_remains (topic_shutdown demo_deps (\<lambda>i. False) t)) = (Ok t', td') \<and>
     map high_water_mark (t_partitions t') = [0, 0]"
proof (rule demo_topic)
  fix t td
  assume t: "topic_create demo_deps ''t'' 2 demo_cfg demo_td = (Ok t, td)"
    "topic_live demo_deps t [\<lparr>al_first = 0, al_records = []\<rparr>, \<lparr>al_first = 0, al_records = []\<rparr>] 1000"
  have "topic_power_loss (topic_shutdown demo_deps (\<lambda>i. False) t) (topic_remains (topic_shutdown demo_deps (\<lambda>i. False) t))"
    using topic_liveD(1) [OF t(2)] by (intro topic_power_loss_remains) (simp add: topic_shutdown_def)
  from topic_restart [OF t(2) this demo_fresh(5), of "''t''"] t(1) show ?thesis
    by (auto simp: al_next_def)
qed

text \<open>
  Creating a topic over a directory that already has its partitions is the same as opening
  it: whatever records are left there (of a topic whose removal failed half way, for instance) are
  the new topic's records. The documentation of \<^verbatim>\<open>Topic::create\<close> promises a fresh topic.
\<close>

lemma topic_create_over_existing:
  assumes "td_faults td = []" and "pcount \<noteq> 0" and "sort (numbered td) = [0 ..< unat pcount]"
  shows "topic_create D name pcount cfg td = topic_open D name cfg td"
proof -
  have "check_contiguous name 0 [0 ..< unat pcount] = Ok ()"
    using check_contiguous_iff [of 0 "[0 ..< unat pcount]" name] unat_u32_less [of pcount] by simp
  with assms show ?thesis
    by (simp add: topic_open_def topic_create_def discover_partition_indices_ok unat_gt_0 unat_eq_0)
qed

lemma topic_create_over_existing_witness:
  "topic_create demo_deps ''t'' 1 demo_cfg (demo_td\<lparr>td_subdirs := [(''0'', demo_os)]\<rparr>) =
     topic_open demo_deps ''t'' demo_cfg (demo_td\<lparr>td_subdirs := [(''0'', demo_os)]\<rparr>)"
proof -
  have "numbered (demo_td\<lparr>td_subdirs := [(''0'', demo_os)]\<rparr>) = [0]"
    by (simp add: numbered_def List.map_filter_def parse_dec_def dec_val_def is_digit_def)
  then show ?thesis
    by (intro topic_create_over_existing) (simp_all add: demo_td_def)
qed

end
