(* ===== verification/Kafko_Producer.thy ===== *)
theory Kafko_Producer
  imports Kafko_TopicProps
begin

text \<open>
  \<^verbatim>\<open>src/crates/kafko/src/producer.rs\<close> and \<^verbatim>\<open>position.rs\<close>: handles that append records to a
  topic. A producer has no state of its own; its operations act on the topic it shares. The time
  \<^verbatim>\<open>SystemTime::now\<close> gives is an argument, in milliseconds since the epoch.
\<close>

section \<open>Positions and routing\<close>

record record_position =
  pos_partition :: u32
  pos_offset :: nat

definition position_new :: "u32 \<Rightarrow> nat \<Rightarrow> record_position" where
  "position_new p offset = \<lparr>pos_partition = p, pos_offset = offset\<rparr>"

definition timestamp_now :: "int \<Rightarrow> i64" where
  "timestamp_now now = (if now < 0 then 0 else word_of_int now)"

definition route :: "bytes option \<Rightarrow> topic \<Rightarrow> u32 res \<times> topic" where
  "route k t = (case k of Some k \<Rightarrow> (partition_for_key t k, t) | None \<Rightarrow> next_round_robin t)"

section \<open>Single sends\<close>

definition append_to :: "deps \<Rightarrow> u32 \<Rightarrow> kafko_record \<Rightarrow> topic \<Rightarrow> record_position res \<times> topic" where
  "append_to D p r t =
     (case topic_partition t p of
        None \<Rightarrow> (Err (InvalidPartitionCount p), t)
      | Some target \<Rightarrow>
          and_then (in_state (\<lambda>q. t\<lparr>t_partitions := (t_partitions t)[unat p := q]\<rparr>) (partition_append D r target))
            (\<lambda>offset t. (Ok (position_new p offset), t)))"

definition send :: "deps \<Rightarrow> int \<Rightarrow> bytes option \<Rightarrow> bytes \<Rightarrow> topic \<Rightarrow> record_position res \<times> topic" where
  "send D now k v t = and_then (route k t) (\<lambda>p t. append_to D p (record_new (timestamp_now now) k v) t)"

definition send_to :: "deps \<Rightarrow> int \<Rightarrow> u32 \<Rightarrow> bytes option \<Rightarrow> bytes \<Rightarrow> topic \<Rightarrow> record_position res \<times> topic" where
  "send_to D now p k v t = append_to D p (record_new (timestamp_now now) k v) t"

definition send_record :: "deps \<Rightarrow> kafko_record \<Rightarrow> topic \<Rightarrow> record_position res \<times> topic" where
  "send_record D r t = and_then (route (key r) t) (\<lambda>p t. append_to D p r t)"

section \<open>Batches\<close>

text \<open>The first loop of \<^verbatim>\<open>append_batch_routed\<close>: each record with its input index goes to the bucket of its partition.\<close>

fun bucket_loop ::
  "nat \<Rightarrow> kafko_record list \<Rightarrow> (nat \<times> kafko_record) list list \<Rightarrow> topic \<Rightarrow> (nat \<times> kafko_record) list list res \<times> topic" where
  "bucket_loop idx [] buckets t = (Ok buckets, t)"
| "bucket_loop idx (r # rs) buckets t =
     and_then (route (key r) t) (\<lambda>p t.
       if unat p < length buckets
       then bucket_loop (idx + 1) rs (buckets[unat p := buckets ! unat p @ [(idx, r)]]) t
       else (Panic ''index out of bounds'', t))"

text \<open>The second loop: one append per bucket, its offsets scattered to the input indices.\<close>

fun scatter :: "u32 \<Rightarrow> (nat \<times> nat) list \<Rightarrow> record_position list \<Rightarrow> record_position list res" where
  "scatter p [] positions = Ok positions"
| "scatter p ((input_idx, offset) # rest) positions =
     (if input_idx < length positions then scatter p rest (positions[input_idx := position_new p offset])
      else Panic ''index out of bounds'')"

fun append_buckets ::
  "(kafko_record list \<Rightarrow> 'p \<Rightarrow> nat list res \<times> 'p) \<Rightarrow> nat \<Rightarrow> (nat \<times> kafko_record) list list \<Rightarrow> record_position list \<Rightarrow> 'p list \<Rightarrow>
   record_position list res \<times> 'p list" where
  "append_buckets app p [] positions ps = (Ok positions, ps)"
| "append_buckets app p (bucket # buckets) positions ps =
     (if bucket = [] then append_buckets app (p + 1) buckets positions ps
      else let indices = map fst bucket; recs = map snd bucket in
        if length ps \<le> p then (Panic ''bucket index is always a valid partition'', ps)
        else and_then (in_state (\<lambda>q. ps[p := q]) (app recs (ps ! p))) (\<lambda>offsets ps.
             and_then (scatter (of_nat p) (zip indices offsets) positions, ps) (\<lambda>positions ps.
               append_buckets app (p + 1) buckets positions ps)))"

definition append_batch_routed :: "deps \<Rightarrow> kafko_record list \<Rightarrow> topic \<Rightarrow> record_position list res \<times> topic" where
  "append_batch_routed D records t =
     and_then (bucket_loop 0 records (replicate (unat (partition_count t)) []) t) (\<lambda>buckets t.
       in_state (\<lambda>ps. t\<lparr>t_partitions := ps\<rparr>)
         (append_buckets (partition_append_batch D) 0 buckets (replicate (length records) (position_new 0 0)) (t_partitions t)))"

definition send_batch :: "deps \<Rightarrow> int \<Rightarrow> (bytes option \<times> bytes) list \<Rightarrow> topic \<Rightarrow> record_position list res \<times> topic" where
  "send_batch D now items t =
     (if items = [] then (Ok [], t)
      else let timestamp = timestamp_now now
           in append_batch_routed D (map (\<lambda>(k, v). record_new timestamp k v) items) t)"

definition send_batch_records :: "deps \<Rightarrow> kafko_record list \<Rightarrow> topic \<Rightarrow> record_position list res \<times> topic" where
  "send_batch_records D records t = (if records = [] then (Ok [], t) else append_batch_routed D records t)"

section \<open>Where records go\<close>

text \<open>
  The partition a record goes to, as a function of the number of partitions and the round-robin
  cursor; \<open>routes\<close> for a list of records, each keyless one moving the cursor.
\<close>

definition route_of :: "nat \<Rightarrow> u64 \<Rightarrow> bytes option \<Rightarrow> nat" where
  "route_of n rr k = (case k of Some k \<Rightarrow> unat (fnv1a_64 k) mod n | None \<Rightarrow> unat rr mod n)"

definition advance :: "u64 \<Rightarrow> bytes option \<Rightarrow> u64" where
  "advance rr k = (if k = None then rr + 1 else rr)"

fun routes :: "nat \<Rightarrow> u64 \<Rightarrow> bytes option list \<Rightarrow> nat list" where
  "routes n rr [] = []"
| "routes n rr (k # ks) = route_of n rr k # routes n (advance rr k) ks"

lemma route_of_less: "0 < n \<Longrightarrow> route_of n rr k < n"
  by (simp add: route_of_def split: option.splits)

lemma length_routes [simp]: "length (routes n rr ks) = length ks"
  by (induction ks arbitrary: rr) auto

lemma routes_less: "0 < n \<Longrightarrow> i < length ks \<Longrightarrow> routes n rr ks ! i < n"
  by (induction ks arbitrary: rr i) (auto simp: nth_Cons route_of_less split: nat.splits)

lemma routes_key: "i < length ks \<Longrightarrow> ks ! i = Some k \<Longrightarrow> routes n rr ks ! i = unat (fnv1a_64 k) mod n"
  by (induction ks arbitrary: rr i) (auto simp: nth_Cons route_of_def split: nat.splits)

lemma route_ok:
  assumes "partition_count t \<noteq> 0"
  shows "\<exists>p. route k t = (Ok p, t\<lparr>t_round_robin := advance (t_round_robin t) k\<rparr>) \<and>
           unat p = route_of (unat (partition_count t)) (t_round_robin t) k"
proof (cases k)
  case None
  with next_round_robin_Ok [OF assms] show ?thesis
    by (auto simp: route_def route_of_def advance_def)
next
  case (Some k')
  with partition_index_Ok [OF assms, of k'] show ?thesis
    by (auto simp: route_def route_of_def advance_def partition_for_key_def)
qed

section \<open>Batches, proved\<close>

text \<open>The elements of \<open>xs\<close> that are routed to partition \<open>j\<close>, in order.\<close>

definition routed :: "nat \<Rightarrow> nat list \<Rightarrow> 'a list \<Rightarrow> 'a list" where
  "routed j ps xs = map snd (filter (\<lambda>(p, x). p = j) (zip ps xs))"

lemma routed_simps [simp]:
  "routed j [] xs = []" "routed j ps [] = []"
  "routed j (p # ps) (x # xs) = (if p = j then x # routed j ps xs else routed j ps xs)"
  by (simp_all add: routed_def)

lemma routed_append: "length ps = length xs \<Longrightarrow> routed j (ps @ qs) (xs @ ys) = routed j ps xs @ routed j qs ys"
  by (simp add: routed_def)

lemma routed_map: "routed j ps (map f xs) = map f (routed j ps xs)"
  by (induction ps xs rule: list_induct2') auto

lemma set_routed: "set (routed j ps xs) \<subseteq> set xs"
  by (induction ps xs rule: list_induct2') auto

lemma routed_nth:
  assumes "i < length xs" and "length ps = length xs" and "ps ! i = j"
  shows "length (routed j (take i ps) (take i xs)) < length (routed j ps xs)"
    "routed j ps xs ! length (routed j (take i ps) (take i xs)) = xs ! i"
proof -
  have e: "take i ps @ j # drop (Suc i) ps = ps" "take i xs @ xs ! i # drop (Suc i) xs = xs"
    using assms id_take_nth_drop [of i ps] id_take_nth_drop [of i xs] by simp_all
  have "routed j (take i ps @ j # drop (Suc i) ps) (take i xs @ xs ! i # drop (Suc i) xs) =
      routed j (take i ps) (take i xs) @ xs ! i # routed j (drop (Suc i) ps) (drop (Suc i) xs)"
    using assms by (subst routed_append) simp_all
  then have "routed j ps xs = routed j (take i ps) (take i xs) @ xs ! i # routed j (drop (Suc i) ps) (drop (Suc i) xs)"
    unfolding e .
  then show "length (routed j (take i ps) (take i xs)) < length (routed j ps xs)"
    "routed j ps xs ! length (routed j (take i ps) (take i xs)) = xs ! i"
    by simp_all
qed

lemma routed_rank_less:
  assumes "i < i'" and "i' < length xs" and "length ps = length xs" and "ps ! i = j"
  shows "length (routed j (take i ps) (take i xs)) < length (routed j (take i' ps) (take i' xs))"
  using routed_nth(1) [of i "take i' xs" "take i' ps" j] assms by (simp add: min_def)

lemma length_routed_cong: "length xs = length ys \<Longrightarrow> length (routed j ps xs) = length (routed j ps ys)"
  by (induction xs ys arbitrary: ps rule: list_induct2) (simp, case_tac ps, auto)

lemma sum_routed_le: "sum_list (map f (routed j ps xs)) \<le> sum_list (map f xs)" for f :: "'a \<Rightarrow> nat"
  by (induction ps xs rule: list_induct2') auto

lemma routed_disjoint: "length ps = length xs \<Longrightarrow> distinct xs \<Longrightarrow> j \<noteq> k \<Longrightarrow> set (routed j ps xs) \<inter> set (routed k ps xs) = {}"
  by (induction ps xs rule: list_induct2) (auto dest: set_routed [THEN subsetD])

lemma distinct_routed: "distinct xs \<Longrightarrow> distinct (routed j ps xs)"
  by (induction ps xs rule: list_induct2') (auto dest: set_routed [THEN subsetD])

lemma distinct_concat_routed:
  "length ps = length xs \<Longrightarrow> distinct xs \<Longrightarrow> distinct (concat (map (\<lambda>j. routed j ps xs) [0 ..< n]))"
proof (induction n)
  case (Suc n)
  have "set (routed j ps xs) \<inter> set (routed n ps xs) = {}" if "j < n" for j
    using routed_disjoint [OF Suc.prems] that by simp
  then show ?case
    using Suc distinct_routed by fastforce
qed simp

lemma bucket_loop_ok:
  assumes "partition_count t \<noteq> 0" and "length buckets = unat (partition_count t)"
  shows "bucket_loop idx rs buckets t =
           (Ok (map (\<lambda>j. buckets ! j @ routed j (routes (unat (partition_count t)) (t_round_robin t) (map key rs)) (enumerate idx rs))
                [0 ..< length buckets]),
            t\<lparr>t_round_robin := foldl advance (t_round_robin t) (map key rs)\<rparr>)"
  using assms
proof (induction rs arbitrary: idx buckets t)
  case Nil
  then show ?case using map_nth [of buckets] by simp
next
  case (Cons r rs)
  let ?n = "unat (partition_count t)"
  let ?t = "t\<lparr>t_round_robin := advance (t_round_robin t) (key r)\<rparr>"
  obtain p where p: "route (key r) t = (Ok p, ?t)" "unat p = route_of ?n (t_round_robin t) (key r)"
    using route_ok [OF Cons.prems(1)] by blast
  have "unat p < ?n"
    using p(2) Cons.prems(1) by (simp add: route_of_less unat_gt_0)
  with Cons.IH [of ?t "buckets[unat p := buckets ! unat p @ [(idx, r)]]" "Suc idx"] Cons.prems p show ?case
    by (auto simp: partition_count_def)
qed

lemma scatter_ok:
  assumes "\<forall>x \<in> set xs. fst x < length positions" and "distinct (map fst xs)"
  shows "\<exists>positions'. scatter p xs positions = Ok positions' \<and> length positions' = length positions \<and>
           (\<forall>k < length xs. positions' ! fst (xs ! k) = position_new p (snd (xs ! k))) \<and>
           (\<forall>i. i \<notin> fst ` set xs \<longrightarrow> positions' ! i = positions ! i)"
  using assms
proof (induction xs arbitrary: positions)
  case (Cons x xs)
  obtain i offset where x: "x = (i, offset)" by (cases x)
  obtain positions' where p: "scatter p xs (positions[i := position_new p offset]) = Ok positions'" "length positions' = length positions"
    "\<forall>k < length xs. positions' ! fst (xs ! k) = position_new p (snd (xs ! k))"
    "\<forall>j. j \<notin> fst ` set xs \<longrightarrow> positions' ! j = positions[i := position_new p offset] ! j"
    using Cons.IH [of "positions[i := position_new p offset]"] Cons.prems by auto
  moreover have "positions' ! i = position_new p offset"
    using p(4) Cons.prems x by auto
  ultimately show ?case
    using Cons.prems x by (auto simp: nth_Cons split: nat.splits)
qed simp

context partition_service
begin

lemma append_buckets_ok:
  assumes "length ps = p + length buckets" and "length as = length ps"
    and "\<forall>j < length buckets. repr (sum_list (map cost (map snd (buckets ! j))) + n) (ps ! (p + j)) (as ! (p + j)) \<and> list_all good (map snd (buckets ! j))"
    and "\<forall>x \<in> set (concat buckets). fst x < length positions" and "distinct (map fst (concat buckets))"
  shows "\<exists>positions' ps'. append_buckets append_many p buckets positions ps = (Ok positions', ps') \<and>
           length positions' = length positions \<and> length ps' = length ps \<and> (\<forall>i < p. ps' ! i = ps ! i) \<and>
           (\<forall>j < length buckets. repr n (ps' ! (p + j)) (al_append (map snd (buckets ! j)) (as ! (p + j)))) \<and>
           (\<forall>j < length buckets. \<forall>k < length (buckets ! j).
              positions' ! fst (buckets ! j ! k) = position_new (of_nat (p + j)) (al_next (as ! (p + j)) + k)) \<and>
           (\<forall>i. i \<notin> fst ` set (concat buckets) \<longrightarrow> positions' ! i = positions ! i)"
  using assms
proof (induction buckets arbitrary: p positions ps)
  case (Cons b bs)
  have head: "repr (sum_list (map cost (map snd b)) + n) (ps ! p) (as ! p)" "list_all good (map snd b)"
    using Cons.prems(3) by force+
  obtain q where q: "append_many (map snd b) (ps ! p) = (Ok [al_next (as ! p) ..< al_next (as ! p) + length b], q)"
    "repr n q (al_append (map snd b) (as ! p))"
    using append_many_ok [OF head] by auto
  have xs: "\<forall>x \<in> set (zip (map fst b) [al_next (as ! p) ..< al_next (as ! p) + length b]). fst x < length positions"
    using Cons.prems(4) by (auto dest!: set_zip_leftD)
  have ds: "distinct (map fst b)" "distinct (map fst (concat bs))" "fst ` set b \<inter> fst ` set (concat bs) = {}"
    using Cons.prems(5) by auto
  obtain positions1 ps1 where step: "append_buckets append_many p (b # bs) positions ps = append_buckets append_many (Suc p) bs positions1 ps1"
    and ps1: "length ps1 = length ps" "repr n (ps1 ! p) (al_append (map snd b) (as ! p))" "\<forall>i. i \<noteq> p \<longrightarrow> ps1 ! i = ps ! i"
    and p1: "length positions1 = length positions" "\<forall>k < length b. positions1 ! fst (b ! k) = position_new (of_nat p) (al_next (as ! p) + k)"
      "\<forall>i. i \<notin> fst ` set b \<longrightarrow> positions1 ! i = positions ! i"
  proof (cases "b = []")
    case True
    with that [of positions ps] head(1) show ?thesis
      by (simp add: al_append_def)
  next
    case False
    obtain positions1 where "scatter (of_nat p) (zip (map fst b) [al_next (as ! p) ..< al_next (as ! p) + length b]) positions = Ok positions1"
      "length positions1 = length positions"
      "\<forall>k < length b. positions1 ! fst (b ! k) = position_new (of_nat p) (al_next (as ! p) + k)"
      "\<forall>i. i \<notin> fst ` set b \<longrightarrow> positions1 ! i = positions ! i"
      using scatter_ok [OF xs, of "of_nat p"] ds(1) by (auto simp: image_set simp del: set_map)
    with that [of positions1 "ps[p := q]"] q False Cons.prems(1) show ?thesis
      by simp
  qed
  have "\<forall>j < length bs. repr (sum_list (map cost (map snd (bs ! j))) + n) (ps1 ! (Suc p + j)) (as ! (Suc p + j)) \<and> list_all good (map snd (bs ! j))"
    using Cons.prems(3) ps1(3) by force
  with Cons.IH [of ps1 "Suc p" positions1] Cons.prems ps1(1) p1(1) ds(2) obtain positions' ps' where
    tl: "append_buckets append_many (Suc p) bs positions1 ps1 = (Ok positions', ps')" "length positions' = length positions"
      "length ps' = length ps" "\<forall>i < Suc p. ps' ! i = ps1 ! i"
      "\<forall>j < length bs. repr n (ps' ! (Suc p + j)) (al_append (map snd (bs ! j)) (as ! (Suc p + j)))"
      "\<forall>j < length bs. \<forall>k < length (bs ! j). positions' ! fst (bs ! j ! k) = position_new (of_nat (Suc p + j)) (al_next (as ! (Suc p + j)) + k)"
      "\<forall>i. i \<notin> fst ` set (concat bs) \<longrightarrow> positions' ! i = positions1 ! i"
    by auto
  have "positions' ! fst (b ! k) = position_new (of_nat p) (al_next (as ! p) + k)" if "k < length b" for k
    using that tl(7) ds(3) p1(2) nth_mem [OF that] by (metis disjoint_iff imageI)
  then have "\<forall>k < length ((b # bs) ! j). positions' ! fst ((b # bs) ! j ! k) = position_new (of_nat (p + j)) (al_next (as ! (p + j)) + k)"
    if "j < length (b # bs)" for j
    using that tl(6) by (cases j) simp_all
  moreover have "repr n (ps' ! (p + j)) (al_append (map snd ((b # bs) ! j)) (as ! (p + j)))" if "j < length (b # bs)" for j
    using that tl(4,5) ps1(2) by (cases j) simp_all
  moreover have "\<forall>i < p. ps' ! i = ps ! i" "\<forall>i. i \<notin> fst ` set (concat (b # bs)) \<longrightarrow> positions' ! i = positions ! i"
    using tl(4,7) ps1(3) p1(3) by (auto simp: image_Un)
  ultimately show ?case
    using step tl(1-3) by auto
qed auto

lemma append_routed_ok:
  assumes "length rts = length rs" and "\<forall>i < length rs. rts ! i < length ps" and "length as = length ps"
    and "\<forall>j < length ps. repr (sum_list (map cost rs) + n) (ps ! j) (as ! j)" and "list_all good rs"
  shows "\<exists>positions ps'. append_buckets append_many 0 (map (\<lambda>j. routed j rts (enumerate 0 rs)) [0 ..< length ps]) (replicate (length rs) x) ps = (Ok positions, ps') \<and>
           length positions = length rs \<and> length ps' = length ps \<and> (\<forall>j < length ps. repr n (ps' ! j) (al_append (routed j rts rs) (as ! j))) \<and>
           (\<forall>i < length rs. positions ! i =
              position_new (of_nat (rts ! i)) (al_next (as ! (rts ! i)) + length (routed (rts ! i) (take i rts) (take i rs))))"
proof -
  let ?B = "map (\<lambda>j. routed j rts (enumerate 0 rs)) [0 ..< length ps]"
  have fsts: "map fst (routed j rts (enumerate 0 rs)) = routed j rts [0 ..< length rs]"
    and snds: "map snd (routed j rts (enumerate 0 rs)) = routed j rts rs" for j
    by (simp_all flip: routed_map add: map_fst_enumerate map_snd_enumerate)
  have 1: "\<forall>j < length ?B. repr (sum_list (map cost (map snd (?B ! j))) + n) (ps ! (0 + j)) (as ! (0 + j)) \<and> list_all good (map snd (?B ! j))"
  proof (intro allI impI conjI)
    fix j
    assume "j < length ?B"
    then have B: "j < length ps" "map snd (?B ! j) = routed j rts rs"
      by (simp_all add: snds)
    show "repr (sum_list (map cost (map snd (?B ! j))) + n) (ps ! (0 + j)) (as ! (0 + j))"
      using repr_mono [OF assms(4) [rule_format, OF B(1)]] sum_routed_le [of cost j rts rs] unfolding B(2) by simp
    show "list_all good (map snd (?B ! j))"
      using assms(5) set_routed [of j rts rs] unfolding B(2) by (auto simp: list_all_iff)
  qed
  have 2: "distinct (map fst (concat ?B))"
    using distinct_concat_routed [of rts "[0 ..< length rs]" "length ps"] assms(1) by (simp add: map_concat comp_def fsts)
  have 3: "\<forall>y \<in> set (concat ?B). fst y < length (replicate (length rs) x)"
    by (auto dest!: set_routed [THEN subsetD] simp: in_set_enumerate_eq)
  have rank: "k = length (routed j (take i rts) (take i rs)) \<Longrightarrow> k < length (routed j rts (enumerate 0 rs)) \<and> fst (routed j rts (enumerate 0 rs) ! k) = i"
    if "i < length rs" "rts ! i = j" for i j k
  proof -
    assume k: "k = length (routed j (take i rts) (take i rs))"
    have "length (routed j (take i rts) (take i [0 ..< length rs])) = k"
      using k by (simp add: length_routed_cong [of "take i [0 ..< length rs]" "take i rs"])
    with routed_nth [of i "[0 ..< length rs]" rts j] that assms(1) have "k < length (routed j rts [0 ..< length rs])" "routed j rts [0 ..< length rs] ! k = i"
      by simp_all
    then show ?thesis
      unfolding fsts [symmetric] by simp
  qed
  from append_buckets_ok [OF _ assms(3) 1 3 2] obtain positions ps' where
    r: "append_buckets append_many 0 ?B (replicate (length rs) x) ps = (Ok positions, ps')" "length positions = length rs" "length ps' = length ps"
      "\<forall>j < length ps. repr n (ps' ! j) (al_append (routed j rts rs) (as ! j))"
      "\<forall>j < length ps. \<forall>k < length (routed j rts (enumerate 0 rs)). positions ! fst (routed j rts (enumerate 0 rs) ! k) = position_new (of_nat j) (al_next (as ! j) + k)"
    by (auto simp: snds simp del: map_map)
  moreover have "positions ! i = position_new (of_nat (rts ! i)) (al_next (as ! (rts ! i)) + length (routed (rts ! i) (take i rts) (take i rs)))"
    if "i < length rs" for i
    using r(5) rank [OF that refl refl] assms(2) that by metis
  ultimately show ?thesis
    by blast
qed

end

end
