(* ===== verification/Kafko_ProducerProps.thy ===== *)
theory Kafko_ProducerProps
  imports Kafko_Producer
begin

text \<open>
  What producers guarantee on a live topic: where a record goes and at which offset, that a batch
  is its records sent one by one, and that every position returned can be read back.
\<close>

section \<open>Properties\<close>

abbreviation topic_routes :: "topic \<Rightarrow> kafko_record list \<Rightarrow> nat list" where
  "topic_routes t rs \<equiv> routes (length (t_partitions t)) (t_round_robin t) (map key rs)"

abbreviation topic_good :: "deps \<Rightarrow> topic \<Rightarrow> kafko_record \<Rightarrow> bool" where
  "topic_good D t \<equiv> encodable D (cfg_compression (t_config t))"

abbreviation topic_bytes :: "deps \<Rightarrow> topic \<Rightarrow> kafko_record list \<Rightarrow> nat" where
  "topic_bytes D t rs \<equiv> sum_list (map (\<lambda>r. length (encoded D (cfg_compression (t_config t)) r)) rs)"

text \<open>
  The logs after a batch, and the position of its \<open>i\<close>-th record: its partition, and the offset
  after everything that was in the partition and the records before it in the batch that go
  there too.
\<close>

definition batch_logs :: "nat list \<Rightarrow> kafko_record list \<Rightarrow> alog list \<Rightarrow> alog list" where
  "batch_logs rts rs as = map (\<lambda>j. al_append (routed j rts rs) (as ! j)) [0 ..< length as]"

definition batch_position :: "nat list \<Rightarrow> alog list \<Rightarrow> nat \<Rightarrow> record_position" where
  "batch_position rts as i =
     position_new (of_nat (rts ! i)) (al_next (as ! (rts ! i)) + length (filter (\<lambda>p. p = rts ! i) (take i rts)))"

lemma length_routed: "length ps = length xs \<Longrightarrow> length (routed j ps xs) = length (filter (\<lambda>p. p = j) ps)"
  by (induction ps xs rule: list_induct2) auto

lemma append_batch_routed_ok:
  assumes "topic_live D t as (topic_bytes D t rs + n)" and "list_all (topic_good D t) rs"
  shows "\<exists>t'. append_batch_routed D rs t = (Ok (map (batch_position (topic_routes t rs) as) [0 ..< length rs]), t') \<and>
           topic_live D t' (batch_logs (topic_routes t rs) rs as) n \<and>
           t_round_robin t' = foldl advance (t_round_robin t) (map key rs) \<and> t_config t' = t_config t \<and> t_name t' = t_name t"
proof -
  note len = topic_liveD [OF assms(1)]
  let ?c = "cfg_compression (t_config t)"
  let ?t = "t\<lparr>t_round_robin := foldl advance (t_round_robin t) (map key rs)\<rparr>"
  let ?rts = "topic_routes t rs"
  have buckets: "bucket_loop 0 rs (replicate (length as) []) t = (Ok (map (\<lambda>j. routed j ?rts (enumerate 0 rs)) [0 ..< length as]), ?t)"
    using bucket_loop_ok [OF len(2), of "replicate (length as) []" 0 rs] len(1,3) by simp
  have room: "\<forall>j < length (t_partitions t). part_repr D ?c (topic_bytes D t rs + n) (t_partitions t ! j) (as ! j)"
    using assms(1) by (auto simp: topic_live_def list_all2_conv_all_nth)
  have routes: "\<forall>i < length rs. ?rts ! i < length (t_partitions t)"
    using len(1,4) by (simp add: routes_less)
  have part_len: "length as = length (t_partitions t)"
    using len(1) by simp
  obtain positions ps' where b: "append_buckets (partition_append_batch D) 0 (map (\<lambda>j. routed j ?rts (enumerate 0 rs)) [0 ..< length as])
      (replicate (length rs) (position_new 0 0)) (t_partitions t) = (Ok positions, ps')" "length positions = length rs" "length ps' = length as"
    "\<forall>j < length as. part_repr D ?c n (ps' ! j) (al_append (routed j ?rts rs) (as ! j))"
    "\<forall>i < length rs. positions ! i = position_new (of_nat (?rts ! i)) (al_next (as ! (?rts ! i)) + length (routed (?rts ! i) (take i ?rts) (take i rs)))"
    using part.append_routed_ok [OF _ routes part_len room assms(2), of "position_new 0 0"] len(1) by auto
  have "append_batch_routed D rs t = (Ok positions, ?t\<lparr>t_partitions := ps'\<rparr>)"
    using len(3) buckets b(1) by (simp add: append_batch_routed_def)
  moreover have "positions = map (batch_position ?rts as) [0 ..< length rs]"
    using b(2,5) by (intro nth_equalityI) (simp_all add: batch_position_def length_routed)
  moreover have "topic_live D (?t\<lparr>t_partitions := ps'\<rparr>) (batch_logs ?rts rs as) n"
    using b(3,4) len(4,5) by (simp add: topic_live_def batch_logs_def list_all2_conv_all_nth)
  ultimately show ?thesis
    by simp
qed

text \<open>
  Batches. A batch sent to a live topic appends to each partition exactly the records that
  are routed to it, in input order, and the positions returned, in input order, are the places
  where the records are. An empty batch does nothing.
\<close>

lemma send_batch_refines:
  assumes "topic_live D t as (topic_bytes D t rs + n)" and "list_all (topic_good D t) rs"
  shows "\<exists>t'. send_batch_records D rs t = (Ok (map (batch_position (topic_routes t rs) as) [0 ..< length rs]), t') \<and>
           topic_live D t' (batch_logs (topic_routes t rs) rs as) n \<and> t_round_robin t' = foldl advance (t_round_robin t) (map key rs)"
proof (cases "rs = []")
  case True
  have "batch_logs [] [] as = as"
    by (simp add: batch_logs_def al_append_def map_nth)
  with True assms show ?thesis
    by (simp add: send_batch_records_def)
next
  case False
  with append_batch_routed_ok [OF assms] show ?thesis
    by (auto simp: send_batch_records_def)
qed

text \<open>
  C9: what a batch wrote can be read back. Reading any of the positions that a batch returned, in
  the partition it names, gives the record that was at that place in the input; and of two records
  of the batch in the same partition, the later one has the larger offset.
\<close>

theorem send_batch_reads_back:
  assumes "topic_live D t as (topic_bytes D t rs + n)" and "list_all (topic_good D t) rs"
  shows "\<exists>positions t'. append_batch_routed D rs t = (Ok positions, t') \<and> length positions = length rs \<and>
           (\<forall>i < length rs. \<exists>q q'. topic_partition t' (pos_partition (positions ! i)) = Some q \<and>
              partition_read D (pos_offset (positions ! i)) q = (Ok (Some (rs ! i)), q')) \<and>
           (\<forall>i < length rs. \<forall>j < i. pos_partition (positions ! j) = pos_partition (positions ! i) \<longrightarrow>
              pos_offset (positions ! j) < pos_offset (positions ! i))"
proof -
  note len = topic_liveD [OF assms(1)]
  let ?rts = "topic_routes t rs"
  obtain t' where t': "append_batch_routed D rs t = (Ok (map (batch_position ?rts as) [0 ..< length rs]), t')"
    "topic_live D t' (batch_logs ?rts rs as) n" "t_config t' = t_config t"
    using append_batch_routed_ok [OF assms] by blast
  have less: "?rts ! i < length as" if "i < length rs" for i
    using that routes_less [of "length as" i "map key rs"] len(1,4) by simp
  have unat: "unat (of_nat (?rts ! i) :: u32) = ?rts ! i" if "i < length rs" for i
    using less [OF that] len(5) by (intro unat_u32_of_nat) simp
  have "\<exists>q q'. topic_partition t' (of_nat (?rts ! i)) = Some q \<and> partition_read D (pos_offset (batch_position ?rts as i)) q = (Ok (Some (rs ! i)), q')"
    if i: "i < length rs" for i
  proof -
    let ?j = "?rts ! i" and ?k = "length (routed (?rts ! i) (take i ?rts) (take i rs))"
    have "part_repr D (cfg_compression (t_config t)) n (t_partitions t' ! ?j) (batch_logs ?rts rs as ! ?j)"
      using t'(2,3) less [OF i] by (auto simp: topic_live_def list_all2_conv_all_nth) (simp add: batch_logs_def)
    then have repr: "part_repr D (cfg_compression (t_config t)) n (t_partitions t' ! ?j) (al_append (routed ?j ?rts rs) (as ! ?j))"
      using less [OF i] by (simp add: batch_logs_def)
    moreover have "al_read (al_next (as ! ?j) + ?k) (al_append (routed ?j ?rts rs) (as ! ?j)) = Some (rs ! i)"
      using routed_nth [of i rs ?rts ?j] i by (simp add: al_read_def al_next_def al_append_def nth_append)
    moreover have "pos_offset (batch_position ?rts as i) = al_next (as ! ?j) + ?k"
      using i by (simp add: batch_position_def position_new_def length_routed)
    ultimately obtain q' where "partition_read D (pos_offset (batch_position ?rts as i)) (t_partitions t' ! ?j) = (Ok (Some (rs ! i)), q')"
      using part.read_at_ok [OF repr, of "al_next (as ! ?j) + ?k"] by auto
    moreover have "topic_partition t' (of_nat ?j) = Some (t_partitions t' ! ?j)"
      using less [OF i] unat [OF i] topic_liveD(1) [OF t'(2)] by (simp add: topic_partition_def batch_logs_def)
    ultimately show ?thesis
      by blast
  qed
  moreover have "pos_offset (batch_position ?rts as j) < pos_offset (batch_position ?rts as i)"
    if "i < length rs" "j < i" "(of_nat (?rts ! j) :: u32) = of_nat (?rts ! i)" for i j
  proof -
    have "?rts ! j = ?rts ! i"
      using unat [of i] unat [of j] that by simp
    with routed_rank_less [of j i rs ?rts "?rts ! i"] that show ?thesis
      by (simp add: batch_position_def position_new_def length_routed)
  qed
  ultimately show ?thesis
    using t'(1) by (intro exI [of _ "map (batch_position ?rts as) [0 ..< length rs]"] exI [of _ t'])
      (simp add: batch_position_def position_new_def)
qed

section \<open>Single sends, proved\<close>

lemma append_to_ok:
  assumes "topic_live D t as (length (encoded D (cfg_compression (t_config t)) r) + n)" and "topic_good D t r" and "unat p < length as"
  shows "\<exists>t'. append_to D p r t = (Ok (position_new p (al_next (as ! unat p))), t') \<and>
           topic_live D t' (as[unat p := al_append [r] (as ! unat p)]) n \<and>
           t_round_robin t' = t_round_robin t \<and> t_config t' = t_config t"
proof -
  note len = topic_liveD [OF assms(1)]
  let ?c = "cfg_compression (t_config t)"
  have live: "part_repr D ?c (length (encoded D ?c r) + n) (t_partitions t ! j) (as ! j)" if "j < length as" for j
    using assms(1) that by (auto simp: topic_live_def list_all2_conv_all_nth)
  obtain q where q: "partition_append D r (t_partitions t ! unat p) = (Ok (al_next (as ! unat p)), q)" "part_repr D ?c n q (al_append [r] (as ! unat p))"
    using part.append_one_ok [OF live [OF assms(3)] assms(2)] by blast
  have "part_repr D ?c n (t_partitions t ! j) (as ! j)" if "j < length as" for j
    using part.repr_mono [OF live [OF that]] by simp
  then have "topic_live D (t\<lparr>t_partitions := (t_partitions t)[unat p := q]\<rparr>) (as[unat p := al_append [r] (as ! unat p)]) n"
    using q(2) len assms(3) by (simp add: topic_live_def list_all2_conv_all_nth nth_list_update)
  with q(1) assms(3) len(1) show ?thesis
    by (simp add: append_to_def topic_partition_def)
qed

lemma send_record_ok:
  assumes "topic_live D t as (length (encoded D (cfg_compression (t_config t)) r) + n)" and "topic_good D t r"
    and "p = route_of (length as) (t_round_robin t) (key r)"
  shows "\<exists>t'. send_record D r t = (Ok (position_new (of_nat p) (al_next (as ! p))), t') \<and>
           topic_live D t' (as[p := al_append [r] (as ! p)]) n \<and>
           t_round_robin t' = advance (t_round_robin t) (key r) \<and> t_config t' = t_config t"
proof -
  note len = topic_liveD [OF assms(1)]
  let ?t = "t\<lparr>t_round_robin := advance (t_round_robin t) (key r)\<rparr>"
  obtain u where u: "route (key r) t = (Ok u, ?t)" "unat u = p"
    using route_ok [OF len(2), of "key r"] len(3) assms(3) by auto
  have "p < length as"
    using len(4) assms(3) by (simp add: route_of_less)
  moreover have "topic_live D ?t as (length (encoded D (cfg_compression (t_config ?t)) r) + n)"
    using assms(1) by (simp add: topic_live_def)
  ultimately obtain t' where "append_to D u r ?t = (Ok (position_new u (al_next (as ! p))), t')"
    "topic_live D t' (as[p := al_append [r] (as ! p)]) n"
    "t_round_robin t' = advance (t_round_robin t) (key r)" "t_config t' = t_config t"
    using append_to_ok [of D ?t as r n u] assms(2) u(2) by auto
  moreover have "u = of_nat p"
    using u(2) by auto
  ultimately show ?thesis
    using u(1) by (auto simp: send_record_def)
qed

text \<open>
  A send. On a live topic \<^verbatim>\<open>send\<close> stamps the record with the time of the call, appends
  it to the partition its key hashes to, or the next one in turn when it has no key, at the end of
  that partition and nowhere else, and returns that position.
\<close>

lemma send_refines:
  assumes "topic_live D t as (length (encoded D (cfg_compression (t_config t)) r) + n)" and "topic_good D t r"
    and "r = record_new (timestamp_now now) k v" and "p = route_of (length as) (t_round_robin t) k"
  shows "\<exists>t'. send D now k v t = (Ok (position_new (of_nat p) (al_next (as ! p))), t') \<and>
           topic_live D t' (as[p := al_append [r] (as ! p)]) n \<and> t_round_robin t' = advance (t_round_robin t) k"
proof -
  have "key r = k"
    by (simp add: assms(3) record_new_def)
  moreover from this have "send D now k v t = send_record D r t"
    by (simp add: send_def send_record_def assms(3))
  ultimately show ?thesis
    using send_record_ok [OF assms(1,2), of p] assms(4) by auto
qed

text \<open>
  Explicit partitions. \<^verbatim>\<open>send_to\<close> appends to the partition it is given, whatever the key,
  and does not move the round-robin cursor; a partition the topic does not have is an error and
  nothing is written.
\<close>

lemma send_to_refines:
  assumes "topic_live D t as (length (encoded D (cfg_compression (t_config t)) r) + n)" and "topic_good D t r"
    and "r = record_new (timestamp_now now) k v"
  shows "if unat p < length as
         then \<exists>t'. send_to D now p k v t = (Ok (position_new p (al_next (as ! unat p))), t') \<and>
                topic_live D t' (as[unat p := al_append [r] (as ! unat p)]) n \<and> t_round_robin t' = t_round_robin t
         else send_to D now p k v t = (Err (InvalidPartitionCount p), t)"
proof (cases "unat p < length as")
  case True
  with append_to_ok [OF assms(1,2)] show ?thesis
    by (auto simp: send_to_def assms(3))
next
  case False
  with topic_liveD(1) [OF assms(1)] show ?thesis
    by (simp add: send_to_def append_to_def topic_partition_def)
qed

text \<open>The records of a batch sent one at a time.\<close>

fun send_all :: "deps \<Rightarrow> kafko_record list \<Rightarrow> topic \<Rightarrow> record_position list res \<times> topic" where
  "send_all D [] t = (Ok [], t)"
| "send_all D (r # rs) t =
     and_then (send_record D r t) (\<lambda>p t. and_then (send_all D rs t) (\<lambda>ps t. (Ok (p # ps), t)))"

lemma batch_position_Cons:
  assumes "p < length as"
  shows "batch_position (p # rts) as 0 = position_new (of_nat p) (al_next (as ! p))"
    and "rts ! i < length as \<Longrightarrow> batch_position (p # rts) as (Suc i) = batch_position rts (as[p := al_append [r] (as ! p)]) i"
  using assms by (auto simp: batch_position_def nth_list_update al_next_def al_append_def)

lemma batch_logs_Cons:
  "p < length as \<Longrightarrow> batch_logs (p # rts) (r # rs) as = batch_logs rts rs (as[p := al_append [r] (as ! p)])"
  by (auto simp: batch_logs_def al_append_def nth_list_update)

lemma send_all_ok:
  assumes "topic_live D t as (topic_bytes D t rs + n)" and "list_all (topic_good D t) rs"
  shows "\<exists>t'. send_all D rs t = (Ok (map (batch_position (topic_routes t rs) as) [0 ..< length rs]), t') \<and>
           topic_live D t' (batch_logs (topic_routes t rs) rs as) n"
  using assms
proof (induction rs arbitrary: t as)
  case Nil
  then show ?case
    by (simp add: batch_logs_def al_append_def map_nth)
next
  case (Cons r rs)
  note len = topic_liveD [OF Cons.prems(1)]
  define p where "p = route_of (length as) (t_round_robin t) (key r)"
  let ?as = "as[p := al_append [r] (as ! p)]"
  have p: "p < length as"
    using len(4) by (simp add: p_def route_of_less)
  have "topic_live D t as (length (encoded D (cfg_compression (t_config t)) r) + (topic_bytes D t rs + n))"
    using Cons.prems(1) by (simp add: add.assoc)
  from send_record_ok [OF this _ p_def] Cons.prems(2) obtain t1 where
    t1: "send_record D r t = (Ok (position_new (of_nat p) (al_next (as ! p))), t1)" "topic_live D t1 ?as (topic_bytes D t rs + n)"
    and cfg: "t_config t1 = t_config t" "t_round_robin t1 = advance (t_round_robin t) (key r)"
    by auto
  have rts: "topic_routes t (r # rs) = p # topic_routes t1 rs"
    using len(1) topic_liveD(1) [OF t1(2)] by (simp add: cfg p_def)
  obtain t2 where t2: "send_all D rs t1 = (Ok (map (batch_position (topic_routes t1 rs) ?as) [0 ..< length rs]), t2)"
    "topic_live D t2 (batch_logs (topic_routes t1 rs) rs ?as) n"
    using Cons.IH [of t1 ?as] t1(2) Cons.prems(2) cfg(1) by auto
  have "map (batch_position (p # topic_routes t1 rs) as) [0 ..< length (r # rs)] =
      position_new (of_nat p) (al_next (as ! p)) # map (batch_position (topic_routes t1 rs) ?as) [0 ..< length rs]"
    using batch_position_Cons(1) [OF p] batch_position_Cons(2) [OF p] topic_liveD(1,4) [OF t1(2)]
    by (simp add: upt_conv_Cons map_Suc_upt [symmetric] routes_less comp_def del: upt_Suc)
  with t1(1) t2 rts batch_logs_Cons [OF p] show ?case
    by (simp del: upt_Suc)
qed

text \<open>
  C14: a batch is as good as its records sent one by one. Grouping records by partition and
  scattering the offsets back changes nothing a client can see: the positions are those of the
  same records sent singly in order, and so are the logs of all partitions afterwards.
\<close>

theorem batch_equals_single_sends:
  assumes "topic_live D t as (topic_bytes D t rs + n)" and "list_all (topic_good D t) rs"
  shows "\<exists>positions t1 t2 as'. send_batch_records D rs t = (Ok positions, t1) \<and> send_all D rs t = (Ok positions, t2) \<and>
           topic_live D t1 as' n \<and> topic_live D t2 as' n"
proof (cases "rs = []")
  case True
  with assms(1) show ?thesis
    by (auto simp: send_batch_records_def)
next
  case False
  with append_batch_routed_ok [OF assms] send_all_ok [OF assms] show ?thesis
    by (fastforce simp: send_batch_records_def)
qed

section \<open>A topic to evaluate the statements on\<close>

lemma topic_live_mono: "topic_live D t as n \<Longrightarrow> m \<le> n \<Longrightarrow> topic_live D t as m"
  using part.repr_mono unfolding topic_live_def by (metis (no_types, lifting) list_all2_mono)

abbreviation demo_logs :: "alog list" where
  "demo_logs \<equiv> [\<lparr>al_first = 0, al_records = []\<rparr>, \<lparr>al_first = 0, al_records = []\<rparr>]"

lemma demo_batch:
  obtains t td where "topic_create demo_deps ''t'' 2 demo_cfg demo_td = (Ok t, td)"
    "topic_live demo_deps t demo_logs (topic_bytes demo_deps t [demo_record, demo_record] + 0)"
    "list_all (topic_good demo_deps t) [demo_record, demo_record]"
    "topic_live demo_deps t demo_logs (length (encoded demo_deps (cfg_compression (t_config t)) demo_record) + 0)"
    "topic_good demo_deps t demo_record"
proof (rule demo_topic)
  fix t td
  assume t: "topic_create demo_deps ''t'' 2 demo_cfg demo_td = (Ok t, td)" "t_config t = demo_cfg" "topic_live demo_deps t demo_logs 1000"
  then have c: "cfg_compression (t_config t) = NoCompression"
    by (simp add: demo_cfg_def default_log_config_def)
  show thesis
    using that [OF t(1)] topic_live_mono [OF t(3)] demo_encodable by (simp add: c length_demo_encoded)
qed

lemma send_batch_refines_witness:
  "\<exists>t td t'. topic_create demo_deps ''t'' 2 demo_cfg demo_td = (Ok t, td) \<and>
     send_batch_records demo_deps [demo_record, demo_record] t =
       (Ok (map (batch_position (topic_routes t [demo_record, demo_record]) demo_logs) [0 ..< 2]), t')"
proof (rule demo_batch)
  fix t td
  assume t: "topic_create demo_deps ''t'' 2 demo_cfg demo_td = (Ok t, td)"
    "topic_live demo_deps t demo_logs (topic_bytes demo_deps t [demo_record, demo_record] + 0)"
    "list_all (topic_good demo_deps t) [demo_record, demo_record]"
  from send_batch_refines [OF t(2,3)] t(1) show ?thesis
    by (auto simp: numeral_2_eq_2)
qed

lemma send_batch_reads_back_witness:
  "\<exists>t td positions t'. topic_create demo_deps ''t'' 2 demo_cfg demo_td = (Ok t, td) \<and>
     append_batch_routed demo_deps [demo_record, demo_record] t = (Ok positions, t') \<and> length positions = 2 \<and>
     (\<exists>q q'. topic_partition t' (pos_partition (positions ! 1)) = Some q \<and>
        partition_read demo_deps (pos_offset (positions ! 1)) q = (Ok (Some demo_record), q'))"
proof (rule demo_batch)
  fix t td
  assume t: "topic_create demo_deps ''t'' 2 demo_cfg demo_td = (Ok t, td)"
    "topic_live demo_deps t demo_logs (topic_bytes demo_deps t [demo_record, demo_record] + 0)"
    "list_all (topic_good demo_deps t) [demo_record, demo_record]"
  from send_batch_reads_back [OF t(2,3)] obtain positions t' where
    p: "append_batch_routed demo_deps [demo_record, demo_record] t = (Ok positions, t')" "length positions = 2"
      "\<forall>i < 2. \<exists>q q'. topic_partition t' (pos_partition (positions ! i)) = Some q \<and>
        partition_read demo_deps (pos_offset (positions ! i)) q = (Ok (Some ([demo_record, demo_record] ! i)), q')"
    by auto
  from p(3) [rule_format, of 1] p(1,2) t(1) show ?thesis
    by auto
qed

lemma batch_equals_single_sends_witness:
  "\<exists>t td positions t1 t2. topic_create demo_deps ''t'' 2 demo_cfg demo_td = (Ok t, td) \<and>
     send_batch_records demo_deps [demo_record, demo_record] t = (Ok positions, t1) \<and>
     send_all demo_deps [demo_record, demo_record] t = (Ok positions, t2)"
proof (rule demo_batch)
  fix t td
  assume t: "topic_create demo_deps ''t'' 2 demo_cfg demo_td = (Ok t, td)"
    "topic_live demo_deps t demo_logs (topic_bytes demo_deps t [demo_record, demo_record] + 0)"
    "list_all (topic_good demo_deps t) [demo_record, demo_record]"
  from batch_equals_single_sends [OF t(2,3)] t(1) show ?thesis
    by blast
qed

lemma send_refines_witness:
  "\<exists>t td p t'. topic_create demo_deps ''t'' 2 demo_cfg demo_td = (Ok t, td) \<and> p < 2 \<and>
     send demo_deps 1 (key demo_record) (val demo_record) t = (Ok (position_new (of_nat p) 0), t')"
proof (rule demo_batch)
  fix t td
  assume t: "topic_create demo_deps ''t'' 2 demo_cfg demo_td = (Ok t, td)"
    "topic_live demo_deps t demo_logs (length (encoded demo_deps (cfg_compression (t_config t)) demo_record) + 0)"
    "topic_good demo_deps t demo_record"
  define p where "p = route_of (length demo_logs) (t_round_robin t) (key demo_record)"
  have r: "demo_record = record_new (timestamp_now 1) (key demo_record) (val demo_record)"
    by (simp add: demo_record_def record_new_def timestamp_now_def)
  have p: "p < 2"
    using route_of_less [of "length demo_logs"] by (simp add: p_def numeral_2_eq_2)
  then have "al_next (demo_logs ! p) = 0"
    by (auto simp: less_2_cases_iff al_next_def)
  with send_refines [OF t(2,3) r p_def] t(1) p show ?thesis
    by auto
qed

lemma send_to_refines_witness:
  "\<exists>t td t'. topic_create demo_deps ''t'' 2 demo_cfg demo_td = (Ok t, td) \<and>
     send_to demo_deps 1 1 (key demo_record) (val demo_record) t = (Ok (position_new 1 0), t') \<and>
     send_to demo_deps 1 5 (key demo_record) (val demo_record) t = (Err (InvalidPartitionCount 5), t)"
proof (rule demo_batch)
  fix t td
  assume t: "topic_create demo_deps ''t'' 2 demo_cfg demo_td = (Ok t, td)"
    "topic_live demo_deps t demo_logs (length (encoded demo_deps (cfg_compression (t_config t)) demo_record) + 0)"
    "topic_good demo_deps t demo_record"
  have r: "demo_record = record_new (timestamp_now 1) (key demo_record) (val demo_record)"
    by (simp add: demo_record_def record_new_def timestamp_now_def)
  from send_to_refines [OF t(2,3) r, of 1] send_to_refines [OF t(2,3) r, of 5] t(1) show ?thesis
    by (auto simp: al_next_def)
qed

end
