(* ===== verification/Kafko_Offsets.thy ===== *)
theory Kafko_Offsets
  imports Kafko_Os Kafko_Compression
begin

text \<open>
  \<^verbatim>\<open>src/crates/kafko/src/offset_store.rs\<close>: the committed offsets of one consumer group of a
  topic. The directory \<open>os\<close> is the topic's offsets directory, a file name is the group name.
  Offsets are kept at 64 bits, partition numbers in the file at 32.
\<close>

section \<open>State and operations\<close>

record offset_store =
  store_file_path :: string
  store_temp_path :: string
  store_group :: string
  committed :: "u64 list"

definition TEMP_SUFFIX :: string where
  "TEMP_SUFFIX = ''.tmp''"

definition is_alphanumeric :: "char \<Rightarrow> bool" where
  "is_alphanumeric c \<longleftrightarrow>
     is_digit c \<or> (65 \<le> (of_char c :: nat) \<and> (of_char c :: nat) \<le> 90) \<or> (97 \<le> (of_char c :: nat) \<and> (of_char c :: nat) \<le> 122)"

definition validate_group_name :: "string \<Rightarrow> unit res" where
  "validate_group_name grp =
     (if grp = [] \<or> grp = ''.'' \<or> grp = ''..'' \<or>
         \<not> list_all (\<lambda>b. is_alphanumeric b \<or> b = CHR ''.'' \<or> b = CHR ''_'' \<or> b = CHR ''-'') grp
      then Err (InvalidGroupName grp) else Ok ())"

fun offsets_entries :: "nat \<Rightarrow> u64 list \<Rightarrow> bytes" where
  "offsets_entries part [] = []"
| "offsets_entries part (offset # offsets) =
     u32_to_le_bytes (of_nat part) @ u64_to_le_bytes offset @ offsets_entries (part + 1) offsets"

definition offsets_encode :: "deps \<Rightarrow> u64 list \<Rightarrow> bytes" where
  "offsets_encode D offsets =
     (let body = u32_to_le_bytes (of_nat (length offsets)) @ offsets_entries 0 offsets
      in u32_to_le_bytes (crc32_hash D body) @ body)"

text \<open>A slice \<^verbatim>\<open>bytes[a..a + n]\<close> panics when it reaches past the end.\<close>

definition slice_at :: "bytes \<Rightarrow> nat \<Rightarrow> nat \<Rightarrow> bytes res" where
  "slice_at bs a n = (if length bs < a + n then Panic ''range end index out of range'' else Ok (take n (drop a bs)))"

fun decode_entries :: "bytes \<Rightarrow> nat \<Rightarrow> nat list \<Rightarrow> u64 list \<Rightarrow> u64 list res" where
  "decode_entries body partition_count [] result = Ok result"
| "decode_entries body partition_count (i # is) result =
     res_bind (slice_at body (4 + i * 12) 4) (\<lambda>p.
     res_bind (slice_at body (4 + i * 12 + 4) 8) (\<lambda>ob.
       let part = unat (u32_from_le_bytes p); offset = u64_from_le_bytes ob
       in decode_entries body partition_count is
            (if part < partition_count then result[part := offset] else result)))"

definition offsets_decode :: "deps \<Rightarrow> bytes \<Rightarrow> nat \<Rightarrow> u64 list res" where
  "offsets_decode D bs partition_count =
     (let result = replicate partition_count 0 in
      if length bs < 8 then Ok result
      else res_bind (slice_at bs 0 4) (\<lambda>c.
        let crc = u32_from_le_bytes c; body = drop 4 bs in
        if crc32_hash D body \<noteq> crc then Ok result
        else res_bind (slice_at body 0 4) (\<lambda>n.
          let count = unat (u32_from_le_bytes n) in
          if length body < 4 + count * 12 then Ok result
          else decode_entries body partition_count [0 ..< count] result)))"

definition store_open :: "deps \<Rightarrow> string \<Rightarrow> nat \<Rightarrow> os \<Rightarrow> offset_store res \<times> os" where
  "store_open D grp partition_count os =
     and_then (validate_group_name grp, os) (\<lambda>_ os.
     and_then (create_dir_all os) (\<lambda>_ os.
       let file_path = grp; temp_path = grp @ TEMP_SUFFIX in
       and_then
         (case fs_read file_path os of
            (Ok bs, os) \<Rightarrow> (offsets_decode D bs partition_count, os)
          | (Err (Io e), os) \<Rightarrow>
              if io_error_kind e = NotFound then (Ok (replicate partition_count 0), os) else (Err (Io e), os)
          | (Err e, os) \<Rightarrow> (Err e, os)
          | (Panic m, os) \<Rightarrow> (Panic m, os))
         (\<lambda>c os. (Ok \<lparr>store_file_path = file_path, store_temp_path = temp_path, store_group = grp, committed = c\<rparr>, os))))"

definition store_commit :: "deps \<Rightarrow> u64 list \<Rightarrow> offset_store \<times> os \<Rightarrow> unit res \<times> offset_store \<times> os" where
  "store_commit D offsets = (\<lambda>(st, os).
     let encoded = offsets_encode D offsets in
     and_then (in_state (\<lambda>os. (st, os)) (file_create (store_temp_path st) os)) (\<lambda>f (st, os).
     and_then (in_state (\<lambda>(h, os). (st, os)) (file_write_all encoded (f, os))) (\<lambda>_ (st, os).
     and_then (in_state (\<lambda>os. (st, os)) (file_sync_data (store_temp_path st) os)) (\<lambda>_ (st, os).
     and_then (in_state (\<lambda>os. (st, os)) (file_rename (store_temp_path st) (store_file_path st) os)) (\<lambda>_ (st, os).
       (Ok (), st\<lparr>committed := offsets\<rparr>, os))))))"

section \<open>The file format\<close>

lemma length_offsets_entries: "length (offsets_entries p offsets) = 12 * length offsets"
  by (induction offsets arbitrary: p) auto

lemma drop_offsets_entries:
  "i < length offsets \<Longrightarrow>
   drop (i * 12) (offsets_entries p offsets) =
     u32_to_le_bytes (of_nat (p + i)) @ u64_to_le_bytes (offsets ! i) @ offsets_entries (p + Suc i) (drop (Suc i) offsets)"
proof (induction offsets arbitrary: p i)
  case (Cons x offsets)
  show ?case
  proof (cases i)
    case (Suc j)
    have "drop (i * 12) (offsets_entries p (x # offsets)) = drop (j * 12) (offsets_entries (p + 1) offsets)"
      using Suc by simp
    with Cons.IH [of j "p + 1"] Cons.prems Suc show ?thesis
      by simp
  qed simp
qed simp

definition stored :: "u64 list \<Rightarrow> nat \<Rightarrow> u64 list" where
  "stored offsets n = take n offsets @ replicate (n - length offsets) 0"

lemma decode_entries_encoded:
  assumes "body = u32_to_le_bytes (of_nat (length offsets)) @ offsets_entries 0 offsets"
    and "length offsets < 2 ^ 32" and "set is \<subseteq> {..< length offsets}"
  shows "decode_entries body n is result = Ok (foldl (\<lambda>r i. if i < n then r[i := offsets ! i] else r) result is)"
  using assms(3)
proof (induction "is" arbitrary: result)
  case (Cons i "is")
  then have i: "i < length offsets" by simp
  have len: "length body = 4 + 12 * length offsets"
    by (simp add: assms(1) length_offsets_entries)
  have at: "drop (4 + i * 12) body = u32_to_le_bytes (of_nat i) @ u64_to_le_bytes (offsets ! i) @ offsets_entries (Suc i) (drop (Suc i) offsets)"
    using drop_offsets_entries [OF i, of 0] by (simp add: assms(1))
  have "slice_at body (4 + i * 12) 4 = Ok (u32_to_le_bytes (of_nat i))"
    using i len unfolding slice_at_def at by (simp add: le32.take_put)
  moreover have "slice_at body (4 + i * 12 + 4) 8 = Ok (u64_to_le_bytes (offsets ! i))"
  proof -
    have "drop (4 + i * 12 + 4) body = drop 4 (drop (4 + i * 12) body)"
      by (simp add: add.commute)
    then have "take 8 (drop (4 + i * 12 + 4) body) = u64_to_le_bytes (offsets ! i)"
      unfolding at by simp
    with i len show ?thesis
      by (simp add: slice_at_def)
  qed
  moreover have "unat (of_nat i :: u32) = i"
    using i assms(2) by (intro unat_u32_of_nat) simp
  ultimately show ?case
    using Cons by simp
qed simp

lemma foldl_updates:
  "length (foldl (\<lambda>r i. if i < n then r[i := f i] else r) r [0 ..< k]) = length r"
  "length r = n \<Longrightarrow> j < n \<Longrightarrow> foldl (\<lambda>r i. if i < n then r[i := f i] else r) r [0 ..< k] ! j = (if j < k then f j else r ! j)"
  by (induction k) (auto simp: nth_list_update)

lemma offsets_decode_encode:
  assumes "length offsets < 2 ^ 32"
  shows "offsets_decode D (offsets_encode D offsets) n = Ok (stored offsets n)"
proof -
  define body where "body = u32_to_le_bytes (of_nat (length offsets)) @ offsets_entries 0 offsets"
  have count: "unat (of_nat (length offsets) :: u32) = length offsets"
    using assms by (rule unat_u32_of_nat)
  have "offsets_decode D (offsets_encode D offsets) n = decode_entries body n [0 ..< length offsets] (replicate n 0)"
    using count by (simp add: offsets_decode_def offsets_encode_def Let_def slice_at_def body_def length_offsets_entries)
  also have "\<dots> = Ok (foldl (\<lambda>r i. if i < n then r[i := offsets ! i] else r) (replicate n 0) [0 ..< length offsets])"
    by (rule decode_entries_encoded [OF body_def assms]) auto
  also have "foldl (\<lambda>r i. if i < n then r[i := offsets ! i] else r) (replicate n 0) [0 ..< length offsets] = stored offsets n"
    by (rule nth_equalityI) (auto simp: foldl_updates stored_def nth_append)
  finally show ?thesis .
qed

lemma decode_entries_total:
  assumes "\<forall>i \<in> set is. 4 + (i + 1) * 12 \<le> length body"
  shows "\<exists>r. decode_entries body n is result = Ok r \<and> length r = length result"
  using assms
proof (induction "is" arbitrary: result)
  case (Cons i "is")
  then have "slice_at body (4 + i * 12) 4 = Ok (take 4 (drop (4 + i * 12) body))"
    "slice_at body (4 + i * 12 + 4) 8 = Ok (take 8 (drop (4 + i * 12 + 4) body))"
    by (simp_all add: slice_at_def)
  with Cons.IH [of "if unat (u32_from_le_bytes (take 4 (drop (4 + i * 12) body))) < n
      then result[unat (u32_from_le_bytes (take 4 (drop (4 + i * 12) body))) := u64_from_le_bytes (take 8 (drop (4 + i * 12 + 4) body))]
      else result"] Cons.prems show ?case
    by (auto simp: Let_def split: if_splits)
qed simp

lemma offsets_decode_Ok: "\<exists>r. offsets_decode D bs n = Ok r \<and> length r = n"
proof (cases "length bs < 8")
  case True
  then show ?thesis by (simp add: offsets_decode_def)
next
  case False
  then have "slice_at bs 0 4 = Ok (take 4 bs)" "slice_at (drop 4 bs) 0 4 = Ok (take 4 (drop 4 bs))"
    by (simp_all add: slice_at_def)
  moreover have "\<exists>r. decode_entries (drop 4 bs) n [0 ..< k] (replicate n 0) = Ok r \<and> length r = n"
    if "4 + k * 12 \<le> length (drop 4 bs)" for k
    using decode_entries_total [of "[0 ..< k]" "drop 4 bs" n "replicate n 0"] that by fastforce
  ultimately show ?thesis
    using False by (auto simp: offsets_decode_def Let_def not_less)
qed

section \<open>Committing\<close>

text \<open>What a consumer that opens the store next would be given.\<close>

definition reload :: "deps \<Rightarrow> nat \<Rightarrow> string \<Rightarrow> os \<Rightarrow> u64 list res" where
  "reload D n name os = (case os_content os name of None \<Rightarrow> Ok (replicate n 0) | Some bs \<Rightarrow> offsets_decode D bs n)"

lemma store_open_reload:
  assumes "os_faults os = []" and "validate_group_name g = Ok ()"
  shows "store_open D g n os =
           and_then (reload D n g os, os) (\<lambda>c os.
             (Ok \<lparr>store_file_path = g, store_temp_path = g @ TEMP_SUFFIX, store_group = g, committed = c\<rparr>, os))"
  using assms
  by (cases "os_content os g")
    (auto simp: store_open_def reload_def create_dir_all_def io_simps Let_def fs_read_def with_file_def os_content_def os_error_def)

definition store_ok :: "offset_store \<Rightarrow> bool" where
  "store_ok st \<longleftrightarrow> store_file_path st = store_group st \<and> store_temp_path st = store_group st @ TEMP_SUFFIX"

lemma os_file_next_outcome [simp]: "next_outcome os = (x, os') \<Longrightarrow> os_file os' = os_file os"
  by (auto simp: next_outcome_def fun_eq_iff split: list.splits)

lemma file_create_cases:
  obtains h os' where "file_create name os = (Ok h, os')" "h = \<lparr>h_name = name, h_pos = 0\<rparr>"
    "os_content os' name = Some []" "\<And>m. m \<noteq> name \<Longrightarrow> os_file os' m = os_file os m"
  | e os' where "file_create name os = (Err e, os')" "os_file os' = os_file os"
proof (cases "next_outcome os")
  case (Pair x os')
  with that show thesis
    by (cases x) (auto simp: file_create_def syscall_def os_content_def)
qed

lemma file_write_all_cases:
  assumes "os_content os (h_name h) = Some c" and "h_pos h = length c"
  obtains h' os' where "file_write_all bs (h, os) = (Ok (), h', os')" "os_content os' (h_name h) = Some (c @ bs)"
    "\<And>m. m \<noteq> h_name h \<Longrightarrow> os_file os' m = os_file os m"
  | e h' os' where "file_write_all bs (h, os) = (Err e, h', os')" "\<And>m. m \<noteq> h_name h \<Longrightarrow> os_file os' m = os_file os m"
proof (cases "bs = []")
  case True
  with assms that(1) show thesis by (auto simp: file_write_all_def)
next
  case False
  obtain x os' where x: "next_outcome os = (x, os')" by (cases "next_outcome os")
  then have c: "os_content os' (h_name h) = Some c" and same: "os_file os' = os_file os"
    using assms(1) by (simp_all add: os_content_def)
  have other: "os_file (store_bytes (h_name h) p b os') m = os_file os m" if "m \<noteq> h_name h" for p b m
    using only_touchesD(1) [OF only_touches_store_bytes [of "h_name h" os' p b], of m] that same by simp
  show thesis
  proof (cases x)
    case Succeed
    with that(1) False x c assms(2) other show thesis
      by (simp add: file_write_all_def os_content_store_bytes)
  next
    case (Fail kind n)
    with that(2) False x other show thesis
      by (simp add: file_write_all_def)
  qed
qed

lemma file_sync_data_cases:
  assumes "os_content os name = Some c"
  obtains os' f where "file_sync_data name os = (Ok (), os')" "os_file os' name = Some f" "file_content f = c" "file_durable f = c"
    "\<And>m. m \<noteq> name \<Longrightarrow> os_file os' m = os_file os m"
  | e os' where "file_sync_data name os = (Err e, os')" "os_file os' = os_file os"
proof (cases "next_outcome os")
  case (Pair x os')
  with that assms show thesis
    by (cases x) (auto simp: file_sync_data_def syscall_def os_content_def)
qed

lemma file_rename_cases:
  assumes "os_file os old = Some f" and "old \<noteq> new"
  obtains os' where "file_rename old new os = (Ok (), os')" "os_file os' new = Some f" "os_file os' old = None"
    "\<And>m. m \<noteq> old \<Longrightarrow> m \<noteq> new \<Longrightarrow> os_file os' m = os_file os m"
  | e os' where "file_rename old new os = (Err e, os')" "os_file os' = os_file os"
proof (cases "next_outcome os")
  case (Pair x os')
  with that assms show thesis
    by (cases x) (auto simp: file_rename_def syscall_def)
qed

text \<open>
  Whatever system call fails and however much of the temporary file was written, the group's file
  is either as it was or the whole new one.
\<close>

lemma store_commit_cases:
  assumes "store_ok st"
  obtains (Done) os' f where "store_commit D offsets (st, os) = (Ok (), st\<lparr>committed := offsets\<rparr>, os')"
      "os_file os' (store_group st) = Some f" "file_content f = offsets_encode D offsets" "file_durable f = offsets_encode D offsets"
      "os_file os' (store_group st @ TEMP_SUFFIX) = None"
      "\<And>m. m \<noteq> store_group st \<Longrightarrow> m \<noteq> store_group st @ TEMP_SUFFIX \<Longrightarrow> os_file os' m = os_file os m"
    | (Failed) e os' where "store_commit D offsets (st, os) = (Err e, st, os')"
      "\<And>m. m \<noteq> store_group st @ TEMP_SUFFIX \<Longrightarrow> os_file os' m = os_file os m"
proof -
  let ?tmp = "store_group st @ TEMP_SUFFIX" and ?new = "offsets_encode D offsets"
  have paths: "store_temp_path st = ?tmp" "store_file_path st = store_group st" "?tmp \<noteq> store_group st"
    using assms by (auto simp: store_ok_def TEMP_SUFFIX_def)
  show thesis
  proof (cases rule: file_create_cases [of ?tmp os])
    case (2 e os1)
    with Failed [of e os1] paths show thesis
      by (simp add: store_commit_def Let_def)
  next
    case (1 h os1)
    note create = this
    have h: "os_content os1 (h_name h) = Some []" "h_pos h = length ([] :: bytes)" "h_name h = ?tmp"
      using create by simp_all
    show thesis
    proof (cases rule: file_write_all_cases [OF h(1,2), of ?new])
      case (2 e h2 os2)
      with Failed [of e os2] create(1,4) paths h(3) show thesis
        by (simp add: store_commit_def Let_def)
    next
      case (1 h2 os2)
      note wrote = this
      have c: "os_content os2 ?tmp = Some ?new"
        using wrote(2) h(3) by simp
      show thesis
      proof (cases rule: file_sync_data_cases [OF c])
        case (2 e os3)
        with Failed [of e os3] create(1,4) wrote paths h(3) show thesis
          by (simp add: store_commit_def Let_def)
      next
        case (1 os3 f)
        note sync = this
        show thesis
        proof (cases rule: file_rename_cases [OF sync(2) paths(3)])
          case (1 os4)
          with Done [of os4 f] create(1,4) wrote sync paths h(3) show thesis
            by (simp add: store_commit_def Let_def)
        next
          case (2 e os4)
          with Failed [of e os4] create(1,4) wrote sync paths h(3) show thesis
            by (simp add: store_commit_def Let_def)
        qed
      qed
    qed
  qed
qed

section \<open>Checkpoints\<close>

text \<open>
  What a consumer relies on: a store that can be saved and loaded, where a failed save changes
  nothing. Whatever saves succeed and fail, the next load then sees the last success.
\<close>

primrec saves :: "('v \<Rightarrow> 's \<Rightarrow> unit res \<times> 's) \<Rightarrow> 'v list \<Rightarrow> 's \<Rightarrow> (bool \<times> 'v) list \<times> 's" where
  "saves save [] s = ([], s)"
| "saves save (v # vs) s =
     (case save v s of (x, s1) \<Rightarrow> (case saves save vs s1 of (rs, s2) \<Rightarrow> ((x = Ok (), v) # rs, s2)))"

definition last_saved :: "'v \<Rightarrow> (bool \<times> 'v) list \<Rightarrow> 'v" where
  "last_saved v0 rs = foldl (\<lambda>acc (good, v). if good then v else acc) v0 rs"

locale checkpoint =
  fixes save :: "'v \<Rightarrow> 's \<Rightarrow> unit res \<times> 's"
    and load :: "'s \<Rightarrow> 'v"
    and valid :: "'v \<Rightarrow> bool" and ok :: "'s \<Rightarrow> bool"
  assumes save_ok: "ok s \<Longrightarrow> valid v \<Longrightarrow> save v s = (Ok (), s') \<Longrightarrow> load s' = v"
    and save_failed: "ok s \<Longrightarrow> save v s = (x, s') \<Longrightarrow> x \<noteq> Ok () \<Longrightarrow> load s' = load s"
    and save_keeps: "ok s \<Longrightarrow> save v s = (x, s') \<Longrightarrow> ok s'"
begin

lemma load_after_saves:
  "ok s \<Longrightarrow> list_all valid vs \<Longrightarrow> saves save vs s = (rs, s') \<Longrightarrow> load s' = last_saved (load s) rs \<and> ok s'"
proof (induction vs arbitrary: s rs)
  case Nil
  then show ?case by (auto simp: last_saved_def)
next
  case (Cons v vs)
  obtain x s1 where x: "save v s = (x, s1)" by (cases "save v s")
  obtain rs1 where rs: "saves save vs s1 = (rs1, s')" "rs = (x = Ok (), v) # rs1"
    using Cons.prems(3) x by (cases "saves save vs s1") auto
  have "ok s1"
    using save_keeps Cons.prems(1) x by blast
  with Cons.IH [OF this _ rs(1)] Cons.prems(2) have "load s' = last_saved (load s1) rs1" "ok s'"
    by auto
  moreover have "load s1 = (if x = Ok () then v else load s)"
    using Cons.prems x save_ok save_failed by auto
  ultimately show ?case
    by (simp add: rs(2) last_saved_def)
qed

end

text \<open>Saved offsets are one per partition, and the store's paths belong to its group.\<close>

definition group_reload :: "deps \<Rightarrow> nat \<Rightarrow> offset_store \<times> os \<Rightarrow> u64 list" where
  "group_reload D n = (\<lambda>(st, os). case reload D n (store_group st) os of Ok c \<Rightarrow> c | _ \<Rightarrow> replicate n 0)"

lemma reload_cong: "os_file os' name = os_file os name \<Longrightarrow> reload D n name os' = reload D n name os"
  by (simp add: reload_def os_content_def)

lemma stored_same [simp]: "stored offsets (length offsets) = offsets"
  by (simp add: stored_def)

lemma TEMP_SUFFIX_not_Nil [simp]: "TEMP_SUFFIX \<noteq> []"
  by (simp add: TEMP_SUFFIX_def)

lemma offsets_encode_not_Nil [simp]: "offsets_encode D offsets \<noteq> []"
proof -
  have "0 < length (offsets_encode D offsets)"
    by (simp add: offsets_encode_def Let_def)
  then show ?thesis by force
qed

interpretation offsets: checkpoint "store_commit D" "group_reload D n" "\<lambda>v. length v = n \<and> n < 2 ^ 32" "\<lambda>(st, os). store_ok st"
  for D n
proof
  fix s s' :: "offset_store \<times> os" and v x
  obtain st os where s: "s = (st, os)" by (cases s)
  assume ok: "case s of (st, os) \<Rightarrow> store_ok st"
  then have st: "store_ok st" by (simp add: s)
  show "group_reload D n s' = v" if "length v = n \<and> n < 2 ^ 32" "store_commit D v s = (Ok (), s')"
  proof (cases rule: store_commit_cases [OF st, of D v os])
    case (1 os' f)
    with that offsets_decode_encode [of v D n] show ?thesis
      by (auto simp: s group_reload_def reload_def os_content_def)
  next
    case (2 e os')
    with that(2) show ?thesis by (simp add: s)
  qed
  show "group_reload D n s' = group_reload D n s" if "store_commit D v s = (x, s')" "x \<noteq> Ok ()"
  proof (cases rule: store_commit_cases [OF st, of D v os])
    case (1 os' f)
    with that show ?thesis by (simp add: s)
  next
    case (2 e os')
    with that reload_cong [of os' "store_group st" os D n] show ?thesis
      by (auto simp: s group_reload_def)
  qed
  show "case s' of (st, os) \<Rightarrow> store_ok st" if "store_commit D v s = (x, s')"
    using that st by (cases rule: store_commit_cases [OF st, of D v os]) (auto simp: s store_ok_def)
qed

section \<open>Properties\<close>

text \<open>
  The offset file. Decoding an encoded file gives the committed offsets back, padded with
  zeros for partitions the topic has gained and cut to the partitions it still has.
\<close>

lemma offsets_roundtrip:
  assumes "length offsets < 2 ^ 32"
  shows "offsets_decode D (offsets_encode D offsets) n = Ok (take n offsets @ replicate (n - length offsets) 0)"
  using offsets_decode_encode [OF assms] by (simp add: stored_def)

lemma offsets_roundtrip_witness:
  "offsets_decode demo_deps (offsets_encode demo_deps [3, 0, 17]) 4 = Ok [3, 0, 17, 0]"
  using offsets_roundtrip [of "[3, 0, 17]" demo_deps 4] by simp

text \<open>
  A damaged offset file. Whatever bytes the file holds, decoding it yields one offset per
  partition and neither fails nor panics, so a bad commit never wedges a consumer.
\<close>

lemma offsets_decode_total: "\<exists>r. offsets_decode D bs n = Ok r \<and> length r = n"
  by (rule offsets_decode_Ok)

text \<open>
  C10: commits are atomic. Under any schedule of failing system calls, including a write that stops
  half way, a commit either succeeds, and the group's file is the complete and durable new one, or
  returns an error, and the group's file is untouched.
\<close>

theorem store_commit_atomic:
  assumes "store_ok st" and "store_commit D offsets (st, os) = (x, st', os')"
  shows "(x = Ok () \<and> committed st' = offsets \<and> os_content os' (store_group st) = Some (offsets_encode D offsets) \<and>
            os_durable os' (store_group st) = Some (offsets_encode D offsets)) \<or>
         (\<exists>e. x = Err e \<and> st' = st \<and> os_file os' (store_group st) = os_file os (store_group st))"
  using assms(2)
  by (cases rule: store_commit_cases [OF assms(1), of D offsets os]) (auto simp: os_content_def os_durable_def)

definition demo_store :: offset_store where
  "demo_store = \<lparr>store_file_path = ''g'', store_temp_path = ''g.tmp'', store_group = ''g'', committed = [0, 0]\<rparr>"

lemma demo_store_ok: "store_ok demo_store"
  by (simp add: store_ok_def demo_store_def TEMP_SUFFIX_def)

lemma store_commit_atomic_witness:
  "case store_commit demo_deps [5, 6] (demo_store, demo_os\<lparr>os_faults := [Succeed, Fail StorageFull 3]\<rparr>) of
     (x, st', os') \<Rightarrow> (\<exists>e. x = Err e) \<and> st' = demo_store \<and> os_file os' ''g'' = None"
proof -
  let ?os = "demo_os\<lparr>os_faults := [Succeed, Fail StorageFull 3]\<rparr>"
  obtain x st' os' where c: "store_commit demo_deps [5, 6] (demo_store, ?os) = (x, st', os')"
    by (cases "store_commit demo_deps [5, 6] (demo_store, ?os)") auto
  moreover have "x \<noteq> Ok ()"
    using c by (auto simp: store_commit_def demo_store_def Let_def file_create_def syscall_def next_outcome_def file_write_all_def)
  ultimately show ?thesis
    using store_commit_atomic [OF demo_store_ok c] by (auto simp: demo_store_def demo_os_def os_file_def)
qed

text \<open>
  A consumer resumes from its last commit. After any sequence of commits of which some fail, a
  consumer that opens the group's store is given the offsets of the last commit that succeeded,
  and those it started from if none did.
\<close>

lemma resume_from_last_commit:
  assumes "store_ok st" and "list_all (\<lambda>v. length v = n \<and> n < 2 ^ 32) vs" and "saves (store_commit D) vs (st, os) = (rs, st', os')"
    and "validate_group_name (store_group st) = Ok ()" and "os_faults os' = []"
  shows "\<exists>c. store_open D (store_group st) n os' = (Ok c, os') \<and> committed c = last_saved (group_reload D n (st, os)) rs"
proof -
  have load: "group_reload D n (st', os') = last_saved (group_reload D n (st, os)) rs"
    using offsets.load_after_saves [of "(st, os)" n vs D rs "(st', os')"] assms(1-3) by simp
  have grp: "store_group st' = store_group st" if "saves (store_commit D) us (s0, o0) = (qs, st', os')" "store_ok s0" "store_group s0 = store_group st"
    for us s0 o0 qs
    using that
  proof (induction us arbitrary: s0 o0 qs)
    case (Cons u us)
    from Cons.prems(1) Cons.IH show ?case
      by (cases rule: store_commit_cases [OF Cons.prems(2), of D u o0]) (use Cons.prems(2,3) in \<open>auto simp: store_ok_def split: prod.splits\<close>)
  qed simp
  obtain c where c: "reload D n (store_group st) os' = Ok c" "length c = n"
    using offsets_decode_Ok [of D _ n] by (cases "os_content os' (store_group st)") (auto simp: reload_def)
  with load grp [OF assms(3,1) refl] show ?thesis
    using store_open_reload [OF assms(5,4), of D n] by (simp add: group_reload_def)
qed

lemma resume_from_last_commit_witness:
  "\<exists>rs st' os' c. saves (store_commit demo_deps) [[5, 6], [7, 8]] (demo_store, demo_os) = (rs, st', os') \<and>
     store_open demo_deps ''g'' 2 os' = (Ok c, os') \<and> committed c = last_saved [0, 0] rs"
proof -
  obtain rs st' os' where r: "saves (store_commit demo_deps) [[5, 6], [7, 8]] (demo_store, demo_os) = (rs, st', os')"
    by (cases "saves (store_commit demo_deps) [[5, 6], [7, 8]] (demo_store, demo_os)") auto
  have "os_faults os' = []"
    using r by (auto simp: store_commit_def demo_store_def demo_os_def Let_def file_create_def file_write_all_def file_sync_data_def
        file_rename_def syscall_def next_outcome_def os_file_def set_file_def del_file_def store_bytes_def split: prod.splits option.splits)
  moreover have "validate_group_name (store_group demo_store) = Ok ()" "group_reload demo_deps 2 (demo_store, demo_os) = [0, 0]"
    by (simp_all add: validate_group_name_def demo_store_def is_alphanumeric_def is_digit_def group_reload_def reload_def
        os_content_def os_file_def demo_os_def numeral_2_eq_2)
  ultimately show ?thesis
    using resume_from_last_commit [OF demo_store_ok _ r, of 2] r by (auto simp: demo_store_def)
qed

text \<open>
  Groups are independent up to the temporary file. A commit of one group, successful or not,
  leaves the files of all other groups as they are, except that of a group whose name is the
  committing group's name followed by \<^verbatim>\<open>.tmp\<close>.
\<close>

lemma store_commit_other_groups:
  assumes "store_ok st" and "store_commit D offsets (st, os) = (x, st', os')"
    and "g \<noteq> store_group st" and "g \<noteq> store_group st @ TEMP_SUFFIX"
  shows "os_file os' g = os_file os g"
  using assms(2-4) by (cases rule: store_commit_cases [OF assms(1), of D offsets os]) auto

lemma store_commit_other_groups_witness:
  "os_file (snd (snd (store_commit demo_deps [5, 6] (demo_store, demo_os)))) ''h'' = None"
proof -
  obtain x st' os' where c: "store_commit demo_deps [5, 6] (demo_store, demo_os) = (x, st', os')"
    by (cases "store_commit demo_deps [5, 6] (demo_store, demo_os)") auto
  with store_commit_other_groups [OF demo_store_ok c, of "''h''"] show ?thesis
    by (simp add: demo_store_def TEMP_SUFFIX_def demo_os_def os_file_def)
qed

text \<open>
  C39: one group can erase another. The name of a valid group followed by \<^verbatim>\<open>.tmp\<close> is itself a valid
  group name, and every successful commit of the first group erases what the second group had
  committed: it starts over from offset zero.
\<close>

theorem temp_group_erased:
  assumes "validate_group_name (store_group st) = Ok ()" and "store_ok st"
    and "store_commit D offsets (st, os) = (Ok (), st', os')"
  shows "validate_group_name (store_group st @ TEMP_SUFFIX) = Ok () \<and>
         reload D n (store_group st @ TEMP_SUFFIX) os' = Ok (replicate n 0)"
proof
  have "length (store_group st) \<noteq> 0"
    using assms(1) by (auto simp: validate_group_name_def split: if_splits)
  then have "store_group st @ TEMP_SUFFIX \<noteq> ''.''" "store_group st @ TEMP_SUFFIX \<noteq> ''..''"
    by (auto simp: TEMP_SUFFIX_def append_eq_Cons_conv)
  with assms(1) show "validate_group_name (store_group st @ TEMP_SUFFIX) = Ok ()"
    by (auto simp: validate_group_name_def TEMP_SUFFIX_def is_alphanumeric_def split: if_splits)
  show "reload D n (store_group st @ TEMP_SUFFIX) os' = Ok (replicate n 0)"
    using assms(3) by (cases rule: store_commit_cases [OF assms(2), of D offsets os]) (auto simp: reload_def os_content_def)
qed

lemma temp_group_erased_witness:
  "\<exists>st' os'. store_commit demo_deps [5, 6] (demo_store, demo_os) = (Ok (), st', os') \<and>
     reload demo_deps 2 ''g.tmp'' os' = Ok [0, 0]"
proof -
  obtain x st' os' where c: "store_commit demo_deps [5, 6] (demo_store, demo_os) = (x, st', os')"
    by (cases "store_commit demo_deps [5, 6] (demo_store, demo_os)") auto
  then have "x = Ok ()"
    by (auto simp: store_commit_def demo_store_def demo_os_def Let_def file_create_def file_write_all_def file_sync_data_def
        file_rename_def syscall_def next_outcome_def os_file_def set_file_def del_file_def store_bytes_def split: prod.splits option.splits)
  moreover have "validate_group_name (store_group demo_store) = Ok ()"
    by (simp add: validate_group_name_def demo_store_def is_alphanumeric_def)
  ultimately show ?thesis
    using temp_group_erased [OF _ demo_store_ok, of demo_deps "[5, 6]" demo_os st' os' 2] c
    by (auto simp: demo_store_def TEMP_SUFFIX_def numeral_2_eq_2)
qed

end
