(* ===== verification/Kafko_Consumer.thy ===== *)
theory Kafko_Consumer
  imports Kafko_ProducerProps Kafko_Offsets
begin

text \<open>
  \<^verbatim>\<open>src/crates/kafko/src/consumer.rs\<close>: a cursor per partition over the records of a topic,
  merged into one stream by a rotating scan, and group consumers that resume from a committed
  position. The state of an operation is the consumer together with the topic it shares, or with
  the directory of its group's offsets. Waiting at the tail is the subject of \<open>Kafko_Wakeup\<close>.
\<close>

section \<open>State and operations\<close>

record consumer =
  c_cursors :: "u64 list"
  c_scan_start :: nat
  c_store :: "offset_store option"

definition from_topic_at :: "topic \<Rightarrow> u64 \<Rightarrow> consumer" where
  "from_topic_at t start_offset =
     \<lparr>c_cursors = replicate (unat (partition_count t)) start_offset, c_scan_start = 0, c_store = None\<rparr>"

definition from_topic :: "topic \<Rightarrow> consumer" where
  "from_topic t = from_topic_at t 0"

definition get_or_zero :: "u64 list \<Rightarrow> nat \<Rightarrow> u64" where
  "get_or_zero xs i = (if i < length xs then xs ! i else 0)"

definition from_topic_with_group :: "topic \<Rightarrow> offset_store \<Rightarrow> consumer" where
  "from_topic_with_group t st =
     \<lparr>c_cursors = map (\<lambda>(p, part). min (get_or_zero (committed st) p) (of_nat (high_water_mark part))) (enumerate 0 (t_partitions t)),
      c_scan_start = 0, c_store = Some st\<rparr>"

definition consumer_partition_count :: "consumer \<Rightarrow> u32" where
  "consumer_partition_count c = of_nat (length (c_cursors c))"

definition position :: "consumer \<Rightarrow> u32 \<Rightarrow> u64" where
  "position c p = get_or_zero (c_cursors c) (unat p)"

definition consumer_group :: "consumer \<Rightarrow> string option" where
  "consumer_group c = map_option store_group (c_store c)"

definition consumer_committed :: "consumer \<Rightarrow> u32 \<Rightarrow> u64 option" where
  "consumer_committed c p =
     (case c_store c of
        None \<Rightarrow> None
      | Some st \<Rightarrow> if unat p < length (committed st) then Some (committed st ! unat p) else None)"

definition commit :: "deps \<Rightarrow> consumer \<times> os \<Rightarrow> unit res \<times> consumer \<times> os" where
  "commit D = (\<lambda>(c, os).
     case c_store c of
       None \<Rightarrow> (Ok (), c, os)
     | Some st \<Rightarrow>
         in_state (\<lambda>(st, os). (c\<lparr>c_store := Some st\<rparr>, os)) (store_commit D (c_cursors c) (st, os)))"

definition seek_all :: "u64 \<Rightarrow> consumer \<Rightarrow> consumer" where
  "seek_all offset c = c\<lparr>c_cursors := map (\<lambda>_. offset) (c_cursors c)\<rparr>"

definition seek :: "u32 \<Rightarrow> u64 \<Rightarrow> consumer \<Rightarrow> consumer" where
  "seek p offset c =
     (if unat p < length (c_cursors c) then c\<lparr>c_cursors := (c_cursors c)[unat p := offset]\<rparr> else c)"

text \<open>The loop of \<^verbatim>\<open>try_take_next\<close> over the scan indices that are left.\<close>

fun take_loop ::
  "(nat \<Rightarrow> 'p \<Rightarrow> kafko_record option res \<times> 'p) \<Rightarrow> nat list \<Rightarrow> consumer \<times> 'p list \<Rightarrow>
   (record_position \<times> kafko_record) option res \<times> consumer \<times> 'p list" where
  "take_loop read [] s = (Ok None, s)"
| "take_loop read (i # is) (c, ps) =
     (let n = length (c_cursors c); p = (c_scan_start c + i) mod n in
      if length ps \<le> p then (Panic ''scan index is always < partition_count'', c, ps)
      else and_then (in_state (\<lambda>q. (c, ps[p := q])) (read (unat (c_cursors c ! p)) (ps ! p))) (\<lambda>found (c, ps).
        case found of
          Some r \<Rightarrow>
            (Ok (Some (position_new (of_nat p) (unat (c_cursors c ! p)), r)),
             c\<lparr>c_cursors := (c_cursors c)[p := c_cursors c ! p + 1], c_scan_start := (p + 1) mod n\<rparr>, ps)
        | None \<Rightarrow> take_loop read is (c, ps)))"

definition try_take_next :: "deps \<Rightarrow> consumer \<times> topic \<Rightarrow> (record_position \<times> kafko_record) option res \<times> consumer \<times> topic" where
  "try_take_next D = (\<lambda>(c, t).
     in_state (\<lambda>(c, ps). (c, t\<lparr>t_partitions := ps\<rparr>))
       (take_loop (partition_read D) [0 ..< length (c_cursors c)] (c, t_partitions t)))"

section \<open>The scan\<close>

text \<open>The order in which a scan visits the partitions, and the first one with a record at its cursor.\<close>

definition scan_order :: "consumer \<Rightarrow> nat list" where
  "scan_order c = map (\<lambda>i. (c_scan_start c + i) mod length (c_cursors c)) [0 ..< length (c_cursors c)]"

definition ready :: "consumer \<Rightarrow> alog list \<Rightarrow> nat \<Rightarrow> bool" where
  "ready c as p \<longleftrightarrow> al_read (unat (c_cursors c ! p)) (as ! p) \<noteq> None"

definition item :: "consumer \<Rightarrow> alog list \<Rightarrow> nat \<Rightarrow> record_position \<times> kafko_record" where
  "item c as p =
     (position_new (of_nat p) (unat (c_cursors c ! p)), the (al_read (unat (c_cursors c ! p)) (as ! p)))"

definition after_take :: "nat \<Rightarrow> consumer \<Rightarrow> consumer" where
  "after_take p c =
     c\<lparr>c_cursors := (c_cursors c)[p := c_cursors c ! p + 1], c_scan_start := (p + 1) mod length (c_cursors c)\<rparr>"

definition take_spec :: "alog list \<Rightarrow> consumer \<Rightarrow> (record_position \<times> kafko_record) option \<times> consumer" where
  "take_spec as c =
     (case List.find (ready c as) (scan_order c) of
        None \<Rightarrow> (None, c)
      | Some p \<Rightarrow> (Some (item c as p), after_take p c))"

context partition_service
begin

lemma take_loop_ok:
  assumes "list_all2 (repr n) ps as" and "length (c_cursors c) = length ps" and "ps \<noteq> []"
  shows "\<exists>ps'. take_loop read_at is (c, ps) =
           (case List.find (ready c as) (map (\<lambda>i. (c_scan_start c + i) mod length ps) is) of
              None \<Rightarrow> (Ok None, c, ps')
            | Some p \<Rightarrow> (Ok (Some (item c as p)), after_take p c, ps')) \<and> list_all2 (repr n) ps' as"
  using assms
proof (induction "is" arbitrary: ps)
  case (Cons i "is")
  define p where "p = (c_scan_start c + i) mod length ps"
  have p: "p < length ps"
    using Cons.prems(3) by (simp add: p_def)
  then have "repr n (ps ! p) (as ! p)"
    using Cons.prems(1) by (simp add: list_all2_conv_all_nth)
  then obtain q where q: "read_at (unat (c_cursors c ! p)) (ps ! p) = (Ok (al_read (unat (c_cursors c ! p)) (as ! p)), q)" "repr n q (as ! p)"
    using read_at_ok by blast
  have all: "list_all2 (repr n) (ps[p := q]) as"
    using Cons.prems(1) q(2) p by (auto simp: list_all2_conv_all_nth nth_list_update)
  show ?case
  proof (cases "ready c as p")
    case True
    then show ?thesis
      using q(1) all p Cons.prems(2) unfolding p_def [symmetric]
      by (auto simp: ready_def item_def after_take_def p_def [symmetric] intro!: exI [of _ "ps[p := q]"])
  next
    case False
    then have "take_loop read_at (i # is) (c, ps) = take_loop read_at is (c, ps[p := q])"
      using q(1) p Cons.prems(2) by (simp add: ready_def p_def [symmetric])
    moreover note Cons.IH [OF all]
    ultimately show ?thesis
      using False Cons.prems(2,3) by (simp add: p_def)
  qed
qed auto

end

lemma length_scan_order [simp]: "length (scan_order c) = length (c_cursors c)"
  by (simp add: scan_order_def)

lemma try_take_next_ok:
  assumes "topic_live D t as n" and "length (c_cursors c) = length as"
  shows "\<exists>t'. try_take_next D (c, t) = (Ok (fst (take_spec as c)), snd (take_spec as c), t') \<and> topic_live D t' as n \<and>
           t' = t\<lparr>t_partitions := t_partitions t'\<rparr>"
proof -
  let ?cc = "cfg_compression (t_config t)"
  note len = topic_liveD [OF assms(1)]
  have live: "list_all2 (part_repr D ?cc n) (t_partitions t) as" "t_partitions t \<noteq> []" "length (c_cursors c) = length (t_partitions t)"
    using assms len by (auto simp: topic_live_def)
  obtain ps' where ps': "take_loop (partition_read D) [0 ..< length (c_cursors c)] (c, t_partitions t) =
      (case List.find (ready c as) (scan_order c) of
         None \<Rightarrow> (Ok None, c, ps') | Some p \<Rightarrow> (Ok (Some (item c as p)), after_take p c, ps'))" "list_all2 (part_repr D ?cc n) ps' as"
    using part.take_loop_ok [OF live(1,3,2), of "[0 ..< length (c_cursors c)]"] live(3) by (auto simp: scan_order_def)
  have "try_take_next D (c, t) = (Ok (fst (take_spec as c)), snd (take_spec as c), t\<lparr>t_partitions := ps'\<rparr>)"
    using ps'(1) by (simp add: try_take_next_def take_spec_def split: option.splits)
  moreover have "topic_live D (t\<lparr>t_partitions := ps'\<rparr>) as n"
    using ps'(2) assms(1) by (simp add: topic_live_def)
  ultimately show ?thesis
    by (intro exI [of _ "t\<lparr>t_partitions := ps'\<rparr>"]) simp
qed

end
