(* ===== verification/Kafko_ConsumerProps.thy ===== *)
theory Kafko_ConsumerProps
  imports Kafko_Consumer
begin

text \<open>
  What consumers guarantee: each record exactly once and in order within its partition, no
  partition starved by the others, and group consumers that resume where they committed.
\<close>

section \<open>Repeated reads\<close>

primrec consume :: "deps \<Rightarrow> nat \<Rightarrow> consumer \<times> topic \<Rightarrow> (record_position \<times> kafko_record) option res list \<times> consumer \<times> topic" where
  "consume D 0 s = ([], s)"
| "consume D (Suc k) s = (case try_take_next D s of (r, s1) \<Rightarrow> (case consume D k s1 of (rs, s2) \<Rightarrow> (r # rs, s2)))"

primrec takes :: "alog list \<Rightarrow> nat \<Rightarrow> consumer \<Rightarrow> (record_position \<times> kafko_record) option list \<times> consumer" where
  "takes as 0 c = ([], c)"
| "takes as (Suc k) c = (case take_spec as c of (r, c1) \<Rightarrow> (case takes as k c1 of (rs, c2) \<Rightarrow> (r # rs, c2)))"

lemma takes_Suc:
  "takes as (Suc k) c = (fst (take_spec as c) # fst (takes as k (snd (take_spec as c))), snd (takes as k (snd (take_spec as c))))"
  by (simp split: prod.splits)

declare takes.simps(2) [simp del]

lemma length_after_take [simp]: "length (c_cursors (after_take p c)) = length (c_cursors c)"
  by (simp add: after_take_def)

lemma take_spec_length [simp]: "length (c_cursors (snd (take_spec as c))) = length (c_cursors c)"
  by (simp add: take_spec_def split: option.splits)

lemma consume_takes:
  assumes "topic_live D t as n" and "length (c_cursors c) = length as"
  shows "\<exists>t'. consume D k (c, t) = (map Ok (fst (takes as k c)), snd (takes as k c), t') \<and> topic_live D t' as n"
  using assms
proof (induction k arbitrary: c t)
  case (Suc k)
  obtain t1 where t1: "try_take_next D (c, t) = (Ok (fst (take_spec as c)), snd (take_spec as c), t1)" "topic_live D t1 as n"
    using try_take_next_ok [OF Suc.prems] by blast
  from Suc.IH [OF t1(2), of "snd (take_spec as c)"] Suc.prems(2) t1(1) show ?case
    by (auto simp: takes_Suc split: prod.splits)
qed simp

lemma set_scan_order:
  assumes "c_cursors c \<noteq> []"
  shows "set (scan_order c) = {..< length (c_cursors c)}"
proof
  let ?n = "length (c_cursors c)" and ?s = "c_scan_start c"
  show "set (scan_order c) \<subseteq> {..< ?n}"
    using assms by (auto simp: scan_order_def)
  show "{..< ?n} \<subseteq> set (scan_order c)"
  proof
    fix q
    assume "q \<in> {..< ?n}"
    then have q: "q < ?n" by simp
    define i where "i = (q + (?n - ?s mod ?n)) mod ?n"
    have i: "i < ?n"
      using assms by (simp add: i_def)
    have "(?s + i) mod ?n = (?s mod ?n + (q + (?n - ?s mod ?n))) mod ?n"
      unfolding i_def by (metis mod_add_eq mod_mod_trivial)
    also have "?s mod ?n + (q + (?n - ?s mod ?n)) = q + ?n"
      using mod_less_divisor [of ?n ?s] q by linarith
    finally have "(?s + i) mod ?n = q"
      using q by simp
    with i show "q \<in> set (scan_order c)"
      unfolding scan_order_def by force
  qed
qed

section \<open>Everything is delivered\<close>

text \<open>
  Cursors inside their logs, how many records are left in a partition, and which they are.
\<close>

definition within :: "consumer \<Rightarrow> alog list \<Rightarrow> bool" where
  "within c as \<longleftrightarrow>
     length (c_cursors c) = length as \<and> as \<noteq> [] \<and> length as < 2 ^ 32 \<and>
     (\<forall>p < length as. al_first (as ! p) \<le> unat (c_cursors c ! p) \<and> unat (c_cursors c ! p) \<le> al_next (as ! p) \<and> al_next (as ! p) < 2 ^ 64)"

definition backlog :: "consumer \<Rightarrow> alog list \<Rightarrow> nat" where
  "backlog c as = (\<Sum>p < length as. al_next (as ! p) - unat (c_cursors c ! p))"

definition pending :: "consumer \<Rightarrow> alog list \<Rightarrow> nat \<Rightarrow> (record_position \<times> kafko_record) list" where
  "pending c as p =
     map (\<lambda>offset. (position_new (of_nat p) offset, al_records (as ! p) ! (offset - al_first (as ! p)))) [unat (c_cursors c ! p) ..< al_next (as ! p)]"

lemma ready_iff: "within c as \<Longrightarrow> p < length as \<Longrightarrow> ready c as p \<longleftrightarrow> unat (c_cursors c ! p) < al_next (as ! p)"
  by (auto simp: within_def ready_def al_read_def)

lemma unat_Suc_u64: "unat x < m \<Longrightarrow> m < 2 ^ 64 \<Longrightarrow> unat (x + 1 :: u64) = unat x + 1"
  using unat_u64_of_nat [of "unat x + 1"] by (simp add: add.commute)

lemma find_in: "List.find P xs = Some p \<Longrightarrow> p \<in> set xs \<and> P p"
  by (auto simp: find_Some_iff)

lemma take_ready:
  assumes "within c as" and "p < length as" and "ready c as p"
  shows "within (after_take p c) as" "Suc (backlog (after_take p c) as) = backlog c as"
    "pending c as p = item c as p # pending (after_take p c) as p"
    "q < length as \<Longrightarrow> q \<noteq> p \<Longrightarrow> pending (after_take p c) as q = pending c as q"
proof -
  let ?x = "c_cursors c ! p"
  have len: "length (c_cursors c) = length as"
    using assms(1) by (simp add: within_def)
  have less: "unat ?x < al_next (as ! p)" "al_next (as ! p) < 2 ^ 64"
    using assms ready_iff by (auto simp: within_def)
  have x: "unat (?x + 1) = unat ?x + 1"
    by (rule unat_Suc_u64 [OF less])
  have cur: "c_cursors (after_take p c) ! q = (if q = p then ?x + 1 else c_cursors c ! q)" if "q < length as" for q
    using that assms(2) len by (simp add: after_take_def nth_list_update)
  show "within (after_take p c) as"
    using assms(1) less x cur by (auto simp: within_def)
  have "(\<Sum>q \<in> {..< length as} - {p}. al_next (as ! q) - unat (c_cursors (after_take p c) ! q)) =
      (\<Sum>q \<in> {..< length as} - {p}. al_next (as ! q) - unat (c_cursors c ! q))"
    using cur by (intro sum.cong) auto
  then show "Suc (backlog (after_take p c) as) = backlog c as"
    unfolding backlog_def using less x cur [OF assms(2)] assms(2) by (simp add: sum.remove [of "{..< length as}" p])
  show "pending c as p = item c as p # pending (after_take p c) as p"
    using assms less x cur [OF assms(2)] by (simp add: pending_def item_def upt_conv_Cons al_read_def within_def del: upt_Suc)
  show "pending (after_take p c) as q = pending c as q" if "q < length as" "q \<noteq> p"
    using that cur by (simp add: pending_def)
qed

lemma takes_all:
  assumes "within c as" and "backlog c as = m"
  shows "\<exists>items. fst (takes as (Suc m) c) = map Some items @ [None] \<and> length items = m \<and>
           (\<forall>p < length as. filter (\<lambda>x. pos_partition (fst x) = of_nat p) items = pending c as p) \<and>
           map unat (c_cursors (snd (takes as (Suc m) c))) = map al_next as"
  using assms
proof (induction m arbitrary: c)
  case 0
  have ne: "c_cursors c \<noteq> []" "length (c_cursors c) = length as"
    using 0(1) by (auto simp: within_def)
  have zero: "unat (c_cursors c ! p) = al_next (as ! p)" if "p < length as" for p
    using 0 that by (auto simp: backlog_def within_def intro!: le_antisym)
  then have "List.find (ready c as) (scan_order c) = None"
    using ready_iff [OF 0(1)] set_scan_order [OF ne(1)] ne(2) by (auto simp: find_None_iff)
  then have "take_spec as c = (None, c)"
    by (simp add: take_spec_def)
  moreover have "map unat (c_cursors c) = map al_next as"
    using zero ne(2) by (intro nth_equalityI) simp_all
  ultimately show ?case
    using zero by (simp add: pending_def takes_Suc)
next
  case (Suc m)
  have ne: "c_cursors c \<noteq> []" "length (c_cursors c) = length as" "length as < 2 ^ 32"
    using Suc.prems(1) by (auto simp: within_def)
  obtain q where q: "q < length as" "unat (c_cursors c ! q) < al_next (as ! q)"
    using Suc.prems(2) sum.neutral [of "{..< length as}" "\<lambda>p. al_next (as ! p) - unat (c_cursors c ! p)"]
    unfolding backlog_def by (metis lessThan_iff nat.distinct(1) zero_less_diff neq0_conv)
  then have "List.find (ready c as) (scan_order c) \<noteq> None"
    using ready_iff [OF Suc.prems(1)] set_scan_order [OF ne(1)] ne(2) by (auto simp: find_None_iff)
  then obtain p where f: "List.find (ready c as) (scan_order c) = Some p"
    by blast
  then have p: "p < length as" "ready c as p"
    using find_in [OF f] set_scan_order [OF ne(1)] ne(2) by auto
  note t = take_ready [OF Suc.prems(1) p]
  obtain items where items: "fst (takes as (Suc m) (after_take p c)) = map Some items @ [None]" "length items = m"
    "\<forall>j < length as. filter (\<lambda>x. pos_partition (fst x) = of_nat j) items = pending (after_take p c) as j"
    "map unat (c_cursors (snd (takes as (Suc m) (after_take p c)))) = map al_next as"
    using Suc.IH [OF t(1)] t(2) Suc.prems(2) by auto
  have inj: "(of_nat p :: u32) = of_nat j \<longleftrightarrow> p = j" if "j < length as" for j
    using that p(1) ne(3) unat_u32_of_nat [of p] unat_u32_of_nat [of j] by (metis less_trans)
  have "\<forall>j < length as. filter (\<lambda>x. pos_partition (fst x) = of_nat j) (item c as p # items) = pending c as j"
    using items(3) t(3,4) inj by (auto simp: item_def position_new_def)
  moreover have "takes as (Suc (Suc m)) c = (Some (item c as p) # fst (takes as (Suc m) (after_take p c)), snd (takes as (Suc m) (after_take p c)))"
    using f by (subst takes_Suc) (simp add: take_spec_def)
  ultimately show ?case
    using items by (intro exI [of _ "item c as p # items"]) simp
qed

section \<open>Nobody starves\<close>

lemma takes_reaches:
  assumes "length (c_cursors c) = n" and "d < n" and "(c_scan_start c + d) mod n = q" and "ready c as q"
  shows "\<exists>k \<le> d. fst (takes as (Suc k) c) ! k = Some (item c as q)"
  using assms
proof (induction d arbitrary: c rule: less_induct)
  case (less d)
  have nth: "scan_order c ! i = (c_scan_start c + i) mod n" if "i < n" for i
    using that less.prems(1) by (simp add: scan_order_def)
  have "List.find (ready c as) (scan_order c) \<noteq> None"
    using less.prems nth [OF less.prems(2)] nth_mem [of d "scan_order c"] by (auto simp: find_None_iff)
  then obtain p where f: "List.find (ready c as) (scan_order c) = Some p"
    by blast
  then obtain i where i: "i < n" "p = scan_order c ! i" "\<forall>j < i. \<not> ready c as (scan_order c ! j)" "ready c as p"
    using less.prems(1) by (auto simp: find_Some_iff)
  have "i \<le> d"
    using i(3) less.prems(2-4) nth [OF less.prems(2)] by (metis not_le_imp_less)
  have step: "take_spec as c = (Some (item c as p), after_take p c)"
    using f by (simp add: take_spec_def)
  show ?case
  proof (cases "p = q")
    case True
    with step show ?thesis
      by (intro exI [of _ 0]) (simp add: takes_Suc)
  next
    case False
    then have "i < d"
      using \<open>i \<le> d\<close> i(2) nth [OF i(1)] less.prems(3) by (metis le_neq_implies_less)
    let ?c = "after_take p c"
    have q: "q < n"
      using less.prems(2,3) by (metis mod_less_divisor gr_implies_not0 neq0_conv)
    have same: "c_cursors ?c ! q = c_cursors c ! q"
      using False by (simp add: after_take_def)
    have "(c_scan_start ?c + (d - i - 1)) mod n = (c_scan_start c + i + 1 + (d - i - 1)) mod n"
      using i(2) nth [OF i(1)] less.prems(1) by (simp add: after_take_def mod_simps)
    then have "(c_scan_start ?c + (d - i - 1)) mod n = q"
      using \<open>i < d\<close> less.prems(3) by simp
    moreover have "ready ?c as q"
      using less.prems(4) same by (simp add: ready_def)
    ultimately have "\<exists>k \<le> d - i - 1. fst (takes as (Suc k) ?c) ! k = Some (item ?c as q)"
      using less.prems(1,2) \<open>i < d\<close> by (intro less.IH) simp_all
    then obtain k where k: "k \<le> d - i - 1" "fst (takes as (Suc k) ?c) ! k = Some (item ?c as q)"
      by blast
    have "fst (takes as (Suc (Suc k)) c) ! Suc k = fst (takes as (Suc k) ?c) ! k"
      using step by (subst takes_Suc) simp
    moreover have "item ?c as q = item c as q"
      using same by (simp add: item_def)
    ultimately show ?thesis
      using k \<open>i < d\<close> by (intro exI [of _ "Suc k"]) simp
  qed
qed

lemma takes_prefix: "k < m \<Longrightarrow> fst (takes as m c) ! k = fst (takes as (Suc k) c) ! k"
proof (induction k arbitrary: m c)
  case 0
  then show ?case by (cases m) (auto simp: takes_Suc)
next
  case (Suc k)
  then obtain m' where m: "m = Suc m'" "k < m'" by (cases m) auto
  from Suc.IH [OF this(2), of "snd (take_spec as c)"] show ?case
    unfolding m(1) by (subst (1 2) takes_Suc) simp
qed

section \<open>Properties\<close>

text \<open>
  One read. \<^verbatim>\<open>try_take_next\<close> returns the record at the cursor of the first partition, in
  rotation order from where the last scan ended, that has one; it moves that cursor by one and no
  other, and starts the next scan behind that partition. It returns nothing exactly when no
  partition has a record at its cursor. The logs are unchanged.
\<close>

lemma try_take_next_refines:
  assumes "topic_live D t as n" and "length (c_cursors c) = length as"
  shows "\<exists>t'. try_take_next D (c, t) = (Ok (fst (take_spec as c)), snd (take_spec as c), t') \<and> topic_live D t' as n \<and>
           (fst (take_spec as c) = None \<longleftrightarrow> (\<forall>p < length as. \<not> ready c as p))"
proof -
  have ne: "c_cursors c \<noteq> []"
    using assms topic_liveD(4) [OF assms(1)] by auto
  have "fst (take_spec as c) = None \<longleftrightarrow> List.find (ready c as) (scan_order c) = None"
    by (simp add: take_spec_def split: option.splits)
  also have "\<dots> \<longleftrightarrow> (\<forall>p < length as. \<not> ready c as p)"
    using set_scan_order [OF ne] assms(2) by (auto simp: find_None_iff)
  finally have none: "fst (take_spec as c) = None \<longleftrightarrow> (\<forall>p < length as. \<not> ready c as p)" .
  obtain t' where "try_take_next D (c, t) = (Ok (fst (take_spec as c)), snd (take_spec as c), t')" "topic_live D t' as n"
    using try_take_next_ok [OF assms] by blast
  with none show ?thesis
    by (intro exI [of _ t']) simp
qed

lemma consume_all:
  assumes "topic_live D t as n" and "within c as"
  shows "\<exists>items c' t'. consume D (Suc (backlog c as)) (c, t) = (map (Ok \<circ> Some) items @ [Ok None], c', t') \<and>
           length items = backlog c as \<and>
           (\<forall>p < length as. filter (\<lambda>x. pos_partition (fst x) = of_nat p) items = pending c as p) \<and>
           map unat (c_cursors c') = map al_next as"
proof -
  have "length (c_cursors c) = length as"
    using assms(2) by (simp add: within_def)
  from consume_takes [OF assms(1) this, of "Suc (backlog c as)"] takes_all [OF assms(2) refl] show ?thesis
    by fastforce
qed

text \<open>
  C7: everything is delivered, once and in order. A consumer whose cursors are inside their logs
  gets, in as many reads as there are records ahead of the cursors, exactly these records: those of
  each partition in offset order, none left out, none twice; the read after that finds nothing.
\<close>

theorem consume_delivers_all:
  assumes "topic_live D t as n" and "within c as"
  shows "\<exists>items c' t'. consume D (Suc (backlog c as)) (c, t) = (map (Ok \<circ> Some) items @ [Ok None], c', t') \<and>
           length items = backlog c as \<and>
           (\<forall>p < length as. filter (\<lambda>x. pos_partition (fst x) = of_nat p) items = pending c as p) \<and>
           map unat (c_cursors c') = map al_next as"
  by (rule consume_all [OF assms])

text \<open>
  No partition starves. If a partition has a record at its cursor, then that record is among
  the next reads, at most as many as the topic has partitions, however many records the other
  partitions have.
\<close>

lemma consume_no_starvation:
  assumes "topic_live D t as n" and "length (c_cursors c) = length as" and "q < length as" and "ready c as q"
  shows "Ok (Some (item c as q)) \<in> set (fst (consume D (length as) (c, t)))"
proof -
  have "q \<in> set (scan_order c)"
    using set_scan_order [of c] assms(2,3) by (cases "c_cursors c = []") auto
  then obtain d where d: "d < length as" "(c_scan_start c + d) mod length as = q"
    using assms(2) by (auto simp: scan_order_def)
  obtain k where k: "k \<le> d" "fst (takes as (Suc k) c) ! k = Some (item c as q)"
    using takes_reaches [OF assms(2) d assms(4)] by blast
  have len: "length (fst (takes as m c')) = m" for m c'
    by (induction m arbitrary: c') (simp_all add: takes_Suc)
  have "fst (takes as (length as) c) ! k = Some (item c as q)"
    using takes_prefix [of k "length as"] k d(1) by simp
  then have "Some (item c as q) \<in> set (fst (takes as (length as) c))"
    using len [of "length as" c] k(1) d(1) by (metis le_less_trans nth_mem)
  with consume_takes [OF assms(1,2), of "length as"] show ?thesis
    by auto
qed

text \<open>
  C20: committing and resuming. After a commit that returned success, a consumer opened for the
  same group starts each partition at the committed cursor, or at the partition's high-water mark
  where that is lower; so, at the positions it had, wherever the partitions still reach them.
\<close>

theorem group_resumes:
  assumes "c_store c = Some st" and "store_ok st" and "validate_group_name (store_group st) = Ok ()"
    and "commit D (c, os) = (Ok (), c', os')" and "os_faults os' = []"
    and "length (c_cursors c) = length (t_partitions t)" and "length (t_partitions t) < 2 ^ 32"
  shows "\<exists>st'. store_open D (store_group st) (length (t_partitions t)) os' = (Ok st', os') \<and>
           c_cursors (from_topic_with_group t st') = map2 min (c_cursors c) (map (of_nat \<circ> high_water_mark) (t_partitions t)) \<and>
           consumer_group (from_topic_with_group t st') = consumer_group c"
proof -
  let ?n = "length (t_partitions t)"
  have "reload D ?n (store_group st) os' = Ok (c_cursors c)"
    using assms(1,4)
  proof (cases rule: store_commit_cases [OF assms(2), of D "c_cursors c" os, case_names Done Failed])
    case (Done os2 f)
    moreover from Done have "os2 = os'"
      using assms(1,4) by (simp add: commit_def)
    ultimately have "os_content os' (store_group st) = Some (offsets_encode D (c_cursors c))"
      by (simp add: os_content_def)
    then show ?thesis
      using offsets_decode_encode [of "c_cursors c" D ?n] assms(6,7) stored_same [of "c_cursors c"] by (simp add: reload_def)
  next
    case (Failed e os2)
    with assms(1,4) show ?thesis
      by (simp add: commit_def)
  qed
  then have "store_open D (store_group st) ?n os' =
      (Ok \<lparr>store_file_path = store_group st, store_temp_path = store_group st @ TEMP_SUFFIX, store_group = store_group st,
           committed = c_cursors c\<rparr>, os')"
    using store_open_reload [OF assms(5,3)] by simp
  moreover have "map (\<lambda>(p, part). min (get_or_zero (c_cursors c) p) (of_nat (high_water_mark part))) (enumerate 0 (t_partitions t)) =
      map2 min (c_cursors c) (map (of_nat \<circ> high_water_mark) (t_partitions t))"
    using assms(6) by (intro nth_equalityI) (simp_all add: nth_enumerate_eq get_or_zero_def)
  ultimately show ?thesis
    using assms(1) by (simp add: from_topic_with_group_def consumer_group_def)
qed

text \<open>
  C37: a consumer behind the retention point gets nothing. When retention has removed the oldest
  records of every partition, a fresh consumer, whose cursors are 0, finds no record, although
  there may be many, and stays where it is; no number of reads changes that.
\<close>

theorem fresh_consumer_starves:
  assumes "topic_live D t as n" and "list_all (\<lambda>a. 0 < al_first a) as"
  shows "\<exists>t'. consume D k (from_topic t, t) = (replicate k (Ok None), from_topic t, t')"
proof -
  let ?c = "from_topic t"
  have len: "length (c_cursors ?c) = length as"
    using topic_liveD(3) [OF assms(1)] by (simp add: from_topic_def from_topic_at_def)
  then have ne: "c_cursors ?c \<noteq> []"
    using topic_liveD(4) [OF assms(1)] by auto
  have "\<not> ready ?c as p" if "p < length as" for p
    using that assms(2) len by (auto simp: ready_def al_read_def from_topic_def from_topic_at_def list_all_length)
  then have "List.find (ready ?c as) (scan_order ?c) = None"
    using set_scan_order [OF ne] len by (auto simp: find_None_iff)
  then have step: "take_spec as ?c = (None, ?c)"
    by (simp add: take_spec_def)
  have "takes as k ?c = (replicate k None, ?c)" for k
    by (induction k) (simp_all add: takes_Suc step)
  with consume_takes [OF assms(1) len, of k] show ?thesis
    by auto
qed

section \<open>Topics with records, to evaluate the statements on\<close>

abbreviation filled_logs :: "alog list" where
  "filled_logs \<equiv> [\<lparr>al_first = 0, al_records = [demo_record, demo_record]\<rparr>, \<lparr>al_first = 0, al_records = []\<rparr>]"

lemma demo_filled:
  obtains t where "topic_live demo_deps t filled_logs 0"
proof (rule demo_batch)
  fix t td
  assume t: "topic_live demo_deps t demo_logs (topic_bytes demo_deps t [demo_record, demo_record] + 0)"
    "list_all (topic_good demo_deps t) [demo_record, demo_record]"
  have "length (t_partitions t) = 2"
    using topic_liveD(1) [OF t(1)] by simp
  moreover have "unat (fnv1a_64 [7]) mod 2 = 0"
    by (simp add: fnv1a_64_def fnv1a_step_def OFFSET_BASIS_def PRIME_def)
  ultimately have "topic_routes t [demo_record, demo_record] = [0, 0]"
    by (simp add: route_of_def demo_record_def record_new_def)
  then have "batch_logs (topic_routes t [demo_record, demo_record]) [demo_record, demo_record] demo_logs = filled_logs"
    by (simp add: batch_logs_def al_append_def upt_rec)
  with append_batch_routed_ok [OF t] that show thesis
    by auto
qed

lemma within_filled: "topic_live demo_deps t filled_logs 0 \<Longrightarrow> within (from_topic t) filled_logs"
  by (drule topic_liveD(3)) (auto simp: within_def from_topic_def from_topic_at_def al_next_def less_Suc_eq)

lemma try_take_next_refines_witness:
  "\<exists>t c' t'. try_take_next demo_deps (from_topic t, t) = (Ok (fst (take_spec filled_logs (from_topic t))), c', t') \<and>
     fst (take_spec filled_logs (from_topic t)) \<noteq> None"
proof (rule demo_filled)
  fix t
  assume t: "topic_live demo_deps t filled_logs 0"
  then have c: "length (c_cursors (from_topic t)) = length filled_logs" "ready (from_topic t) filled_logs 0"
    using topic_liveD(3) [OF t] by (simp_all add: from_topic_def from_topic_at_def ready_def al_read_def al_next_def)
  from try_take_next_refines [OF t c(1)] c(2) show ?thesis
    by (metis length_Cons zero_less_Suc)
qed

lemma consume_delivers_all_witness:
  "\<exists>t items c' t'. consume demo_deps 3 (from_topic t, t) = (map (Ok \<circ> Some) items @ [Ok None], c', t') \<and> length items = 2"
proof (rule demo_filled)
  fix t
  assume t: "topic_live demo_deps t filled_logs 0"
  have "backlog (from_topic t) filled_logs = 2"
    using topic_liveD(3) [OF t] by (simp add: backlog_def from_topic_def from_topic_at_def al_next_def lessThan_Suc)
  with consume_delivers_all [OF t within_filled [OF t]] show ?thesis
    by (auto simp: numeral_3_eq_3)
qed

lemma consume_no_starvation_witness:
  "\<exists>t. Ok (Some (item (from_topic t) filled_logs 0)) \<in> set (fst (consume demo_deps 2 (from_topic t, t)))"
proof (rule demo_filled)
  fix t
  assume t: "topic_live demo_deps t filled_logs 0"
  then have c: "length (c_cursors (from_topic t)) = length filled_logs" "ready (from_topic t) filled_logs 0"
    using topic_liveD(3) [OF t] by (simp_all add: from_topic_def from_topic_at_def ready_def al_read_def al_next_def)
  from consume_no_starvation [OF t c(1) _ c(2)] show ?thesis
    by (auto simp: numeral_2_eq_2)
qed

lemma group_resumes_witness:
  "\<exists>t st' os'. store_open demo_deps ''g'' 2 os' = (Ok st', os') \<and>
     c_cursors (from_topic_with_group t st') = map2 min [1, 0] (map (of_nat \<circ> high_water_mark) (t_partitions t))"
proof (rule demo_filled)
  fix t
  assume t: "topic_live demo_deps t filled_logs 0"
  define c where "c = \<lparr>c_cursors = [1, 0], c_scan_start = 0, c_store = Some demo_store\<rparr>"
  have g: "store_group demo_store = ''g''" "validate_group_name (store_group demo_store) = Ok ()"
    by (simp_all add: demo_store_def validate_group_name_def is_alphanumeric_def)
  obtain os' where c': "commit demo_deps (c, demo_os) = (Ok (), c\<lparr>c_store := Some (demo_store\<lparr>committed := [1, 0]\<rparr>)\<rparr>, os')" "os_faults os' = []"
    by (simp add: commit_def c_def store_commit_def file_create_def file_write_all_def file_sync_data_def file_rename_def
        io_simps demo_os_def demo_store_def Let_def store_bytes_def)
  have c: "c_store c = Some demo_store" "length (c_cursors c) = length (t_partitions t)" "length (t_partitions t) < 2 ^ 32"
    using topic_liveD(1) [OF t] by (simp_all add: c_def)
  from group_resumes [OF c(1) demo_store_ok g(2) c' c(2,3)] topic_liveD(1) [OF t] g(1) show ?thesis
    by (auto simp: c_def numeral_2_eq_2)
qed

text \<open>A topic whose only partition starts at offset 5.\<close>

lemma demo_trimmed:
  obtains t where "topic_live demo_deps t [\<lparr>al_first = 5, al_records = [demo_record]\<rparr>] 0"
proof (rule fresh_log [of demo_os 5 demo_cfg demo_deps])
  fix seg idx os1 os2
  define l where "l = \<lparr>log_cfg = demo_cfg, segments = [\<lparr>the_segment = seg, the_index = idx\<rparr>], next_offset = 5, encode_buf = [], actual_sizes = []\<rparr>"
  assume "log_inv demo_deps \<lparr>log_cfg = demo_cfg, segments = [\<lparr>the_segment = seg, the_index = idx\<rparr>], next_offset = 5, encode_buf = [], actual_sizes = []\<rparr> os2 5 [[]] 0"
    and os: "os_faults os2 = []" "os_read_limit os2 = os_read_limit demo_os"
  then have inv: "log_inv demo_deps l os2 5 [[]] 0"
    by (simp add: l_def)
  then have repr: "log_repr demo_deps l os2 5 [[]]" "next_offset l = 5"
    by (auto simp: log_inv_def l_def)
  define p where "p = \<lparr>p_writer = \<lparr>w_log = l, w_os = os2, w_hwm = 5, w_inbox = [], w_fail_next = None, w_replies = []\<rparr>,
    p_status = Running, p_closed = False, p_sent = []\<rparr>"
  have "log_room l os2 29"
    unfolding log_room_iff [OF repr(1)] using repr(2) os(2) by (simp add: demo_os_def)
  moreover have "log_models demo_deps l os2 \<lparr>al_first = 5, al_records = []\<rparr> 5"
    using log_modelsI [OF inv] by (simp add: abs_log_def durable_end_def)
  moreover have cfg: "log_cfg l = demo_cfg" "cfg_compression demo_cfg = NoCompression" "segment_size_threshold demo_cfg = 60"
    by (simp_all add: l_def demo_cfg_def default_log_config_def)
  ultimately have "live demo_deps p \<lparr>al_first = 5, al_records = []\<rparr> 29"
    using os(1) by (auto simp: live_def serving_def p_def)
  then have "part_repr demo_deps NoCompression (length (encoded demo_deps NoCompression demo_record) + 0) p \<lparr>al_first = 5, al_records = []\<rparr>"
    using cfg demo_codec_laws by (simp add: part_repr_def p_def length_demo_encoded)
  from part.append_one_ok [OF this demo_encodable(1)] obtain q where
    "part_repr demo_deps NoCompression 0 q \<lparr>al_first = 5, al_records = [demo_record]\<rparr>"
    by (auto simp: al_append_def)
  with that [of "from_parts ''t'' [q] demo_cfg"] cfg(2) show thesis
    by (simp add: topic_live_def from_parts_def)
qed (simp_all add: demo_os_def)

lemma fresh_consumer_starves_witness:
  "\<exists>t t'. topic_live demo_deps t [\<lparr>al_first = 5, al_records = [demo_record]\<rparr>] 0 \<and>
     consume demo_deps 100 (from_topic t, t) = (replicate 100 (Ok None), from_topic t, t')"
proof (rule demo_trimmed)
  fix t
  assume t: "topic_live demo_deps t [\<lparr>al_first = 5, al_records = [demo_record]\<rparr>] 0"
  from fresh_consumer_starves [OF t, of 100] t show ?thesis
    by auto
qed

end
