(* ===== verification/Kafko_Broker.thy ===== *)
theory Kafko_Broker
  imports Kafko_ConsumerProps "HOL-Library.List_Lexorder" "HOL-Library.Char_ord"
begin

text \<open>
  \<^verbatim>\<open>src/crates/kafko/src/broker.rs\<close>: the registry of topics of one data directory, the
  directory lock, and the handles that producers and consumers hold. A topic is shared through
  \<^verbatim>\<open>Arc\<close>; \<open>te_handles\<close> counts the references outside the registry, which decide whether
  \<^verbatim>\<open>Arc::try_unwrap\<close> succeeds. The data directory is a list of topic directories; while a topic
  is open its writer tasks own the files of its partitions.
\<close>

section \<open>The data directory\<close>

record data_dir =
  dd_path :: string
  dd_topics :: "(string \<times> topic_dir) list"
  dd_locked :: bool
  dd_faults :: "io_outcome list"
  dd_fresh :: topic_dir

definition topic_dir_of :: "data_dir \<Rightarrow> string \<Rightarrow> topic_dir" where
  "topic_dir_of dd name = (case map_of (dd_topics dd) name of Some td \<Rightarrow> td | None \<Rightarrow> dd_fresh dd)"

definition set_topic_dir :: "string \<Rightarrow> topic_dir \<Rightarrow> data_dir \<Rightarrow> data_dir" where
  "set_topic_dir name td dd = dd\<lparr>dd_topics := AList.update name td (dd_topics dd)\<rparr>"

definition dd_syscall :: "data_dir \<Rightarrow> (data_dir \<Rightarrow> 'a res \<times> data_dir) \<Rightarrow> 'a res \<times> data_dir" where
  "dd_syscall dd k =
     (case dd_faults dd of
        Fail kind n # fs \<Rightarrow> (Err (os_error kind), dd\<lparr>dd_faults := fs\<rparr>)
      | fs \<Rightarrow> k (dd\<lparr>dd_faults := tl fs\<rparr>))"

text \<open>The lock file is created if it is missing; the lock is taken without blocking.\<close>

definition acquire_dir_lock :: "data_dir \<Rightarrow> unit res \<times> data_dir" where
  "acquire_dir_lock dd =
     and_then (dd_syscall dd (\<lambda>dd. (Ok (), dd))) (\<lambda>_ dd.
       dd_syscall dd (\<lambda>dd.
         if dd_locked dd then (Err (AlreadyOpen (dd_path dd)), dd) else (Ok (), dd\<lparr>dd_locked := True\<rparr>)))"

text \<open>A removal that fails may have removed some of the entries first.\<close>

definition remove_topic_dir :: "string \<Rightarrow> data_dir \<Rightarrow> unit res \<times> data_dir" where
  "remove_topic_dir name dd =
     (case map_of (dd_topics dd) name of
        None \<Rightarrow> (Err (os_error NotFound), dd)
      | Some td \<Rightarrow>
          (case dd_faults dd of
             Fail kind n # fs \<Rightarrow>
               (Err (os_error kind), set_topic_dir name (td\<lparr>td_subdirs := drop n (td_subdirs td)\<rparr>) (dd\<lparr>dd_faults := fs\<rparr>))
           | fs \<Rightarrow> (Ok (), dd\<lparr>dd_faults := tl fs, dd_topics := AList.delete name (dd_topics dd)\<rparr>)))"

section \<open>The broker\<close>

record topic_entry =
  te_topic :: topic
  te_handles :: nat

record broker =
  b_topics :: "(string \<times> topic_entry) list"
  b_config :: log_config

definition registered :: "broker \<Rightarrow> string \<Rightarrow> topic_entry option" where
  "registered b name = map_of (b_topics b) name"

definition set_entry :: "string \<Rightarrow> topic_entry \<Rightarrow> broker \<Rightarrow> broker" where
  "set_entry name e b = b\<lparr>b_topics := AList.update name e (b_topics b)\<rparr>"

text \<open>Recovery opens every directory it finds as a topic; the first that fails ends it.\<close>

fun recover_topics ::
  "deps \<Rightarrow> log_config \<Rightarrow> string list \<Rightarrow> (string \<times> topic_entry) list \<Rightarrow> data_dir \<Rightarrow> (string \<times> topic_entry) list res \<times> data_dir" where
  "recover_topics D config [] topics dd = (Ok topics, dd)"
| "recover_topics D config (name # names) topics dd =
     and_then (in_state (\<lambda>td. set_topic_dir name td dd) (topic_open D name config (topic_dir_of dd name))) (\<lambda>t dd.
       recover_topics D config names (AList.update name \<lparr>te_topic = t, te_handles = 0\<rparr> topics) dd)"

text \<open>When opening fails after the lock was taken, the lock file is dropped and the lock with it.\<close>

definition unlock_on_failure :: "'a res \<times> data_dir \<Rightarrow> 'a res \<times> data_dir" where
  "unlock_on_failure r =
     (case r of
        (Ok a, dd) \<Rightarrow> (Ok a, dd)
      | (Err e, dd) \<Rightarrow> (Err e, dd\<lparr>dd_locked := False\<rparr>)
      | (Panic m, dd) \<Rightarrow> (Panic m, dd\<lparr>dd_locked := False\<rparr>))"

definition open_with_config :: "deps \<Rightarrow> log_config \<Rightarrow> data_dir \<Rightarrow> broker res \<times> data_dir" where
  "open_with_config D config dd =
     and_then (dd_syscall dd (\<lambda>dd. (Ok (), dd))) (\<lambda>_ dd.
     and_then (acquire_dir_lock dd) (\<lambda>_ dd.
     unlock_on_failure
       (and_then (dd_syscall dd (\<lambda>dd. (Ok (map fst (dd_topics dd)), dd))) (\<lambda>names dd.
        and_then (recover_topics D config names [] dd) (\<lambda>topics dd.
          (Ok \<lparr>b_topics = topics, b_config = config\<rparr>, dd))))))"

definition broker_open :: "deps \<Rightarrow> data_dir \<Rightarrow> broker res \<times> data_dir" where
  "broker_open D dd = open_with_config D default_log_config dd"

section \<open>Creating and deleting topics\<close>

text \<open>The second half of \<^verbatim>\<open>create_topic_inner\<close>, under the write lock.\<close>

definition register_topic :: "string \<Rightarrow> topic \<Rightarrow> broker \<Rightarrow> unit res \<times> broker" where
  "register_topic name t b =
     (if registered b name \<noteq> None then (Err (TopicAlreadyExists name), b)
      else (Ok (), set_entry name \<lparr>te_topic = t, te_handles = 0\<rparr> b))"

definition create_topic_inner :: "deps \<Rightarrow> string \<Rightarrow> log_config \<Rightarrow> u32 \<Rightarrow> broker \<times> data_dir \<Rightarrow> unit res \<times> broker \<times> data_dir" where
  "create_topic_inner D name config partitions = (\<lambda>(b, dd).
     if partitions = 0 then (Err (InvalidPartitionCount 0), b, dd)
     else if registered b name \<noteq> None then (Err (TopicAlreadyExists name), b, dd)
     else and_then (in_state (\<lambda>td. (b, set_topic_dir name td dd)) (topic_create D name partitions config (topic_dir_of dd name)))
       (\<lambda>t (b, dd). in_state (\<lambda>b. (b, dd)) (register_topic name t b)))"

definition create_topic :: "deps \<Rightarrow> string \<Rightarrow> broker \<times> data_dir \<Rightarrow> unit res \<times> broker \<times> data_dir" where
  "create_topic D name s = create_topic_inner D name (b_config (fst s)) 1 s"

definition create_topic_with_config :: "deps \<Rightarrow> string \<Rightarrow> log_config \<Rightarrow> broker \<times> data_dir \<Rightarrow> unit res \<times> broker \<times> data_dir" where
  "create_topic_with_config D name config s = create_topic_inner D name config 1 s"

definition create_topic_with_partitions :: "deps \<Rightarrow> string \<Rightarrow> u32 \<Rightarrow> broker \<times> data_dir \<Rightarrow> unit res \<times> broker \<times> data_dir" where
  "create_topic_with_partitions D name partitions s = create_topic_inner D name (b_config (fst s)) partitions s"

definition create_topic_with_config_and_partitions ::
  "deps \<Rightarrow> string \<Rightarrow> log_config \<Rightarrow> u32 \<Rightarrow> broker \<times> data_dir \<Rightarrow> unit res \<times> broker \<times> data_dir" where
  "create_topic_with_config_and_partitions D name config partitions s = create_topic_inner D name config partitions s"

text \<open>
  The entry is taken out of the registry first. If other references exist it is put back;
  otherwise the topic is shut down (\<open>shared\<close> as in \<open>topic_shutdown\<close>) and its directory removed,
  after which the entry stays out even if the removal failed.
\<close>

definition delete_topic :: "deps \<Rightarrow> (nat \<Rightarrow> bool) \<Rightarrow> string \<Rightarrow> broker \<times> data_dir \<Rightarrow> unit res \<times> broker \<times> data_dir" where
  "delete_topic D shared name = (\<lambda>(b, dd).
     case registered b name of
       None \<Rightarrow> (Err (TopicNotFound name), b, dd)
     | Some e \<Rightarrow>
         (let b' = b\<lparr>b_topics := AList.delete name (b_topics b)\<rparr> in
          if te_handles e = 0
          then let t = topic_shutdown D shared (te_topic e);
                   dd' = set_topic_dir name (topic_files t (topic_dir_of dd name)) dd
               in in_state (\<lambda>dd. (b', dd)) (remove_topic_dir name dd')
          else (Err (TopicInUse name), set_entry name e b', dd)))"

section \<open>Looking topics up\<close>

definition list_topics :: "broker \<Rightarrow> string list" where
  "list_topics b = sort (map fst (b_topics b))"

definition has_topic :: "broker \<Rightarrow> string \<Rightarrow> bool" where
  "has_topic b name \<longleftrightarrow> registered b name \<noteq> None"

definition broker_partition_count :: "broker \<Rightarrow> string \<Rightarrow> u32 option" where
  "broker_partition_count b name = map_option (partition_count \<circ> te_topic) (registered b name)"

text \<open>A handle to the topic is one more reference; dropping it is one less.\<close>

definition broker_topic :: "string \<Rightarrow> broker \<Rightarrow> topic option \<times> broker" where
  "broker_topic name b =
     (case registered b name of
        None \<Rightarrow> (None, b)
      | Some e \<Rightarrow> (Some (te_topic e), set_entry name (e\<lparr>te_handles := te_handles e + 1\<rparr>) b))"

definition drop_handle :: "string \<Rightarrow> broker \<Rightarrow> broker" where
  "drop_handle name b =
     (case registered b name of
        None \<Rightarrow> b
      | Some e \<Rightarrow> set_entry name (e\<lparr>te_handles := te_handles e - 1\<rparr>) b)"

definition producer_for :: "string \<Rightarrow> broker \<Rightarrow> topic res \<times> broker" where
  "producer_for name b =
     (case broker_topic name b of
        (None, b) \<Rightarrow> (Err (TopicNotFound name), b)
      | (Some t, b) \<Rightarrow> (Ok t, b))"

definition consumer_for :: "string \<Rightarrow> broker \<Rightarrow> consumer res \<times> broker" where
  "consumer_for name b =
     (case broker_topic name b of
        (None, b) \<Rightarrow> (Err (TopicNotFound name), b)
      | (Some t, b) \<Rightarrow> (Ok (from_topic t), b))"

definition consumer_for_group :: "deps \<Rightarrow> string \<Rightarrow> string \<Rightarrow> broker \<times> data_dir \<Rightarrow> consumer res \<times> broker \<times> data_dir" where
  "consumer_for_group D name grp = (\<lambda>(b, dd).
     case broker_topic name b of
       (None, b) \<Rightarrow> (Err (TopicNotFound name), b, dd)
     | (Some t, b) \<Rightarrow>
         (let td = topic_dir_of dd name in
          case store_open D grp (unat (partition_count t)) (subdir td ''offsets'') of
            (Ok st, os) \<Rightarrow> (Ok (from_topic_with_group t st), b, set_topic_dir name (put_subdir ''offsets'' td os) dd)
          | (Err e, os) \<Rightarrow>
              (Err e, drop_handle name b,
               if validate_group_name grp = Ok () then set_topic_dir name (put_subdir ''offsets'' td os) dd else dd)
          | (Panic m, os) \<Rightarrow> (Panic m, drop_handle name b, set_topic_dir name (put_subdir ''offsets'' td os) dd)))"

section \<open>Closing the broker\<close>

definition shutdown_topics :: "deps \<Rightarrow> (nat \<Rightarrow> bool) \<Rightarrow> (string \<times> topic_entry) list \<Rightarrow> (string \<times> topic_entry) list" where
  "shutdown_topics D shared topics =
     map (\<lambda>(name, e). (name, if te_handles e = 0 then e\<lparr>te_topic := topic_shutdown D shared (te_topic e)\<rparr> else e)) topics"

text \<open>The data directory with the files of the topics in a list.\<close>

definition topics_files :: "(string \<times> topic_entry) list \<Rightarrow> data_dir \<Rightarrow> data_dir" where
  "topics_files topics dd =
     foldl (\<lambda>dd (name, e). set_topic_dir name (topic_files (te_topic e) (topic_dir_of dd name)) dd) dd topics"

text \<open>
  \<^verbatim>\<open>shutdown\<close> consumes the broker: what is left is the state of the topics it held, some of them
  still running for the handles that are out, and the data directory with the lock released.
\<close>

definition broker_shutdown ::
  "deps \<Rightarrow> (nat \<Rightarrow> bool) \<Rightarrow> broker \<times> data_dir \<Rightarrow> unit res \<times> (string \<times> topic_entry) list \<times> data_dir" where
  "broker_shutdown D shared = (\<lambda>(b, dd).
     let topics = shutdown_topics D shared (b_topics b)
     in (Ok (), topics, (topics_files topics dd)\<lparr>dd_locked := False\<rparr>))"

text \<open>
  \<^verbatim>\<open>Drop\<close>: what it can do depends on the runtime. On a current-thread runtime the clean-up is
  a detached task that may or may not finish (\<open>finishes\<close>).
\<close>

datatype runtime = NoRuntime | CurrentThread (finishes: bool) | MultiThread

definition broker_drop ::
  "deps \<Rightarrow> (nat \<Rightarrow> bool) \<Rightarrow> runtime \<Rightarrow> broker \<times> data_dir \<Rightarrow> (string \<times> topic_entry) list \<times> data_dir" where
  "broker_drop D shared rt = (\<lambda>(b, dd).
     let topics =
           (if b_topics b = [] then []
            else case rt of
              NoRuntime \<Rightarrow> b_topics b
            | CurrentThread fin \<Rightarrow> if fin then shutdown_topics D shared (b_topics b) else b_topics b
            | MultiThread \<Rightarrow> shutdown_topics D shared (b_topics b))
     in (topics, (topics_files topics dd)\<lparr>dd_locked := False\<rparr>))"

end
