(* ===== verification/Kafko_BrokerProps.thy ===== *)
theory Kafko_BrokerProps
  imports Kafko_Broker
begin

text \<open>
  What the broker guarantees: topics with handles out cannot be deleted, a data directory has one
  broker at a time, and a broker that was shut down finds every record again when it is reopened.
\<close>

section \<open>The registry as a map\<close>

lemma registered_set_entry [simp]: "registered (set_entry name e b) m = (if m = name then Some e else registered b m)"
  by (simp add: registered_def set_entry_def update_conv')

lemma registered_delete [simp]:
  "registered (b\<lparr>b_topics := AList.delete name (b_topics b)\<rparr>) m = (if m = name then None else registered b m)"
  by (simp add: registered_def delete_conv')

lemma topic_dir_of_set [simp]: "topic_dir_of (set_topic_dir m td dd) name = (if name = m then td else topic_dir_of dd name)"
  by (simp add: topic_dir_of_def set_topic_dir_def update_conv' split: option.splits)

lemma topic_dir_of_locked [simp]: "topic_dir_of (dd\<lparr>dd_locked := l\<rparr>) name = topic_dir_of dd name"
  by (simp add: topic_dir_of_def split: option.splits)

lemma set_topic_dir_frame [simp]:
  "dd_locked (set_topic_dir m td dd) = dd_locked dd" "dd_faults (set_topic_dir m td dd) = dd_faults dd"
  "dd_path (set_topic_dir m td dd) = dd_path dd"
  by (simp_all add: set_topic_dir_def)

section \<open>Which topics a broker may have\<close>

text \<open>Every registered topic has its own name and at least one partition.\<close>

definition topic_ok :: "string \<Rightarrow> topic \<Rightarrow> bool" where
  "topic_ok name t \<longleftrightarrow> t_name t = name \<and> t_partitions t \<noteq> [] \<and> length (t_partitions t) < 2 ^ 32"

definition broker_inv :: "broker \<Rightarrow> bool" where
  "broker_inv b \<longleftrightarrow>
     distinct (map fst (b_topics b)) \<and> (\<forall>name e. registered b name = Some e \<longrightarrow> topic_ok name (te_topic e))"

lemma broker_inv_set_entry: "broker_inv b \<Longrightarrow> topic_ok name (te_topic e) \<Longrightarrow> broker_inv (set_entry name e b)"
  by (auto simp: broker_inv_def set_entry_def distinct_update) (simp add: registered_def update_conv' split: if_splits)+

lemma broker_inv_delete: "broker_inv b \<Longrightarrow> broker_inv (b\<lparr>b_topics := AList.delete name (b_topics b)\<rparr>)"
  by (auto simp: broker_inv_def distinct_delete)

text \<open>What client operations do to a topic: they keep its name, its configuration and its number of partitions.\<close>

definition same_shape :: "topic \<Rightarrow> topic \<Rightarrow> bool" where
  "same_shape t t' \<longleftrightarrow> t_name t' = t_name t \<and> t_config t' = t_config t \<and> length (t_partitions t') = length (t_partitions t)"

lemma same_shape_refl [simp]: "same_shape t t"
  by (simp add: same_shape_def)

lemma same_shape_trans: "same_shape t u \<Longrightarrow> same_shape u v \<Longrightarrow> same_shape t v"
  by (simp add: same_shape_def)

lemma topic_ok_same_shape: "same_shape t t' \<Longrightarrow> topic_ok name t \<Longrightarrow> topic_ok name t'"
  by (auto simp: same_shape_def topic_ok_def)

lemma same_shape_update [simp]: "same_shape t (t\<lparr>t_partitions := (t_partitions t)[i := q]\<rparr>)" "same_shape t (t\<lparr>t_round_robin := rr\<rparr>)"
  by (simp_all add: same_shape_def)

lemma same_shape_route: "same_shape t (snd (route k t))"
  by (simp add: route_def next_round_robin_def Let_def split: option.splits)

lemma same_shape_append_to: "same_shape t (snd (append_to D p r t))"
  by (cases "partition_append D r (t_partitions t ! unat p)")
    (auto simp: append_to_def topic_partition_def and_then_def split: res.splits)

lemma snd_and_then:
  assumes "same_shape t (snd x)" and "\<And>a. same_shape (snd x) (snd (k a (snd x)))"
  shows "same_shape t (snd (and_then x k))"
proof (cases x)
  case (Pair y u)
  with assms show ?thesis
    by (cases y) (auto intro: same_shape_trans)
qed

lemma same_shape_send_record: "same_shape t (snd (send_record D r t))"
  unfolding send_record_def by (intro snd_and_then same_shape_route same_shape_append_to)

lemma length_append_buckets: "length (snd (append_buckets app p buckets positions ps)) = length ps"
proof (induction app p buckets positions ps rule: append_buckets.induct)
  case (2 app p b buckets positions ps)
  then show ?case
    by (cases "app (map snd b) (ps ! p)"; cases "fst (app (map snd b) (ps ! p))")
      (auto simp: Let_def and_then_def split: res.splits)
qed simp

lemma same_shape_bucket_loop: "same_shape t (snd (bucket_loop idx rs buckets t))"
proof (induction rs arbitrary: idx buckets t)
  case (Cons r rs)
  show ?case
    unfolding bucket_loop.simps by (intro snd_and_then same_shape_route) (auto intro: Cons.IH)
qed simp

lemma same_shape_batch: "same_shape t (snd (send_batch_records D rs t))"
proof -
  have "same_shape u (snd (in_state (\<lambda>ps. u\<lparr>t_partitions := ps\<rparr>) (append_buckets app 0 buckets positions (t_partitions u))))" for u app buckets positions
    by (simp add: in_state_def same_shape_def length_append_buckets)
  then show ?thesis
    unfolding send_batch_records_def append_batch_routed_def by (auto intro: snd_and_then same_shape_bucket_loop)
qed

lemma length_take_loop: "length (snd (snd (take_loop rd is (c, ps)))) = length ps"
proof (induction "is" arbitrary: ps)
  case (Cons i "is")
  then show ?case
    by (cases "rd (unat (c_cursors c ! ((c_scan_start c + i) mod length (c_cursors c)))) (ps ! ((c_scan_start c + i) mod length (c_cursors c)))")
      (auto simp: Let_def and_then_def split: res.splits option.splits)
qed simp

lemma same_shape_take: "same_shape t (snd (snd (try_take_next D (c, t))))"
  using length_take_loop [of "partition_read D" "[0 ..< length (c_cursors c)]" c "t_partitions t"]
  by (auto simp: try_take_next_def in_state_def same_shape_def split: prod.splits)

lemma open_partitions_length: "open_partitions D cfg is td = (Ok ps, td') \<Longrightarrow> length ps = length is"
  by (induction "is" arbitrary: td ps) (fastforce simp: and_then_eq_Ok)+

lemma topic_create_ok: "topic_create D name n cfg td = (Ok t, td') \<Longrightarrow> topic_ok name t"
  using unat_u32_less [of n]
  by (auto simp: topic_create_def and_then_eq_Ok from_parts_def topic_ok_def unat_eq_0 dest!: open_partitions_length split: if_splits)

section \<open>The broker as a state machine\<close>

text \<open>
  What a program can do with a broker it has opened, in any order: create and delete topics, take
  and drop handles, and, through a handle, send and receive. Topics change only through these.
\<close>

inductive broker_step :: "deps \<Rightarrow> broker \<times> data_dir \<Rightarrow> broker \<times> data_dir \<Rightarrow> bool" for D where
  create: "broker_step D s (snd (create_topic_inner D name cfg n s))"
| delete: "broker_step D s (snd (delete_topic D shared name s))"
| handle: "broker_step D (b, dd) (snd (broker_topic name b), dd)"
| subscribe: "broker_step D s (snd (consumer_for_group D name grp s))"
| release: "registered b name = Some e \<Longrightarrow> 0 < te_handles e \<Longrightarrow> broker_step D (b, dd) (drop_handle name b, dd)"
| send_one: "registered b name = Some e \<Longrightarrow> 0 < te_handles e \<Longrightarrow>
    broker_step D (b, dd) (set_entry name (e\<lparr>te_topic := snd (send_record D r (te_topic e))\<rparr>) b, dd)"
| send_many: "registered b name = Some e \<Longrightarrow> 0 < te_handles e \<Longrightarrow>
    broker_step D (b, dd) (set_entry name (e\<lparr>te_topic := snd (send_batch_records D rs (te_topic e))\<rparr>) b, dd)"
| receive: "registered b name = Some e \<Longrightarrow> 0 < te_handles e \<Longrightarrow>
    broker_step D (b, dd) (set_entry name (e\<lparr>te_topic := snd (snd (try_take_next D (c, te_topic e)))\<rparr>) b, dd)"

lemma create_topic_cases:
  obtains e where "fst (snd (create_topic_inner D name cfg n (b, dd))) = set_entry name e b"
      "topic_ok name (te_topic e)" "registered b name = None"
  | "fst (snd (create_topic_inner D name cfg n (b, dd))) = b"
proof (cases "n = 0 \<or> registered b name \<noteq> None")
  case True
  with that(2) show thesis by (auto simp: create_topic_inner_def)
next
  case False
  obtain r td where r: "topic_create D name n cfg (topic_dir_of dd name) = (r, td)"
    by (cases "topic_create D name n cfg (topic_dir_of dd name)")
  show thesis
  proof (cases r)
    case (Ok t)
    with r False that(1) [of "\<lparr>te_topic = t, te_handles = 0\<rparr>"] topic_create_ok [of D name n cfg] show thesis
      by (auto simp: create_topic_inner_def register_topic_def)
  qed (use r False that(2) in \<open>auto simp: create_topic_inner_def\<close>)
qed

lemma broker_topic_inv: "broker_inv b \<Longrightarrow> broker_inv (snd (broker_topic name b))"
  by (auto simp: broker_topic_def broker_inv_def [of b] split: option.splits intro!: broker_inv_set_entry)

lemma drop_handle_inv: "broker_inv b \<Longrightarrow> broker_inv (drop_handle name b)"
  by (auto simp: drop_handle_def broker_inv_def [of b] split: option.splits intro!: broker_inv_set_entry)

lemma subscribe_cases:
  "fst (snd (consumer_for_group D name grp (b, dd))) \<in> {b, snd (broker_topic name b), drop_handle name (snd (broker_topic name b))}"
proof (cases "broker_topic name b")
  case (Pair ot b1)
  show ?thesis
  proof (cases ot)
    case None
    with Pair show ?thesis
      by (auto simp: consumer_for_group_def)
  next
    case (Some t)
    obtain r os where "store_open D grp (unat (partition_count t)) (subdir (topic_dir_of dd name) ''offsets'') = (r, os)"
      by (cases "store_open D grp (unat (partition_count t)) (subdir (topic_dir_of dd name) ''offsets'')")
    with Pair Some show ?thesis
      by (cases r) (auto simp: consumer_for_group_def Let_def)
  qed
qed

lemma delete_topic_cases:
  obtains "fst (snd (delete_topic D shared name (b, dd))) = b"
  | e where "registered b name = Some e" "te_handles e = 0"
      "fst (snd (delete_topic D shared name (b, dd))) = b\<lparr>b_topics := AList.delete name (b_topics b)\<rparr>"
  | e where "registered b name = Some e" "0 < te_handles e"
      "fst (snd (delete_topic D shared name (b, dd))) = set_entry name e (b\<lparr>b_topics := AList.delete name (b_topics b)\<rparr>)"
proof (cases "registered b name")
  case None
  with that(1) show thesis by (simp add: delete_topic_def)
next
  case (Some e)
  with that(2,3) [of e] show thesis
    by (cases "te_handles e = 0") (simp_all add: delete_topic_def Let_def in_state_def)
qed

lemma broker_step_inv:
  assumes "broker_step D s s'" and "broker_inv (fst s)"
  shows "broker_inv (fst s')"
  using assms
proof cases
  case (create name cfg n)
  obtain b dd where s: "s = (b, dd)" by (cases s)
  show ?thesis
    using assms(2) by (cases rule: create_topic_cases [of D name cfg n b dd]) (auto simp: create s intro: broker_inv_set_entry)
next
  case (delete shared name)
  obtain b dd where s: "s = (b, dd)" by (cases s)
  have inv: "broker_inv b"
    using assms(2) s by simp
  then have "topic_ok name (te_topic e)" if "registered b name = Some e" for e
    using that by (simp add: broker_inv_def)
  with inv show ?thesis
    by (cases rule: delete_topic_cases [of D shared name b dd]) (simp_all add: delete s broker_inv_delete broker_inv_set_entry)
next
  case (subscribe name grp)
  obtain b dd where s: "s = (b, dd)" by (cases s)
  show ?thesis
    using assms(2) subscribe_cases [of D name grp b dd] by (auto simp: subscribe s broker_topic_inv drop_handle_inv)
next
  case (handle b dd name)
  then show ?thesis using assms(2) by (simp add: broker_topic_inv)
next
  case (release b name e dd)
  then show ?thesis using assms(2) by (simp add: drop_handle_inv)
next
  case (send_one b name e dd r)
  then show ?thesis
    using assms(2) topic_ok_same_shape [OF same_shape_send_record]
    by (simp add: broker_inv_set_entry broker_inv_def [of b])
next
  case (send_many b name e dd rs)
  then show ?thesis
    using assms(2) topic_ok_same_shape [OF same_shape_batch]
    by (simp add: broker_inv_set_entry broker_inv_def [of b])
next
  case (receive b name e dd c)
  then show ?thesis
    using assms(2) topic_ok_same_shape [OF same_shape_take]
    by (simp add: broker_inv_set_entry broker_inv_def [of b])
qed

lemma broker_steps_inv: "(broker_step D)\<^sup>*\<^sup>* s s' \<Longrightarrow> broker_inv (fst s) \<Longrightarrow> broker_inv (fst s')"
  by (induction rule: rtranclp_induct) (auto intro: broker_step_inv)

section \<open>Opening\<close>

lemma topic_open_ok:
  assumes "topic_open D name cfg td = (Ok t, td')" and "length (td_subdirs td) < 2 ^ 32"
  shows "topic_ok name t"
proof -
  obtain found td1 where f: "discover_partition_indices td = (Ok found, td1)" "sort found \<noteq> []"
    "open_partitions D cfg (sort found) td1 = (Ok (t_partitions t), td')" "t_name t = name"
    using assms(1) by (auto simp: topic_open_def and_then_eq_Ok Let_def from_parts_def split: if_splits)
  from f(1) have "length found \<le> length (td_subdirs td)"
  proof -
    have "length (List.map_filter (\<lambda>(name, is_dir). if is_dir then parse_dec (2 ^ 32) name else None)
        (map (\<lambda>(name, os). (name, True)) ds @ map (\<lambda>name. (name, False)) fs)) \<le> length ds" for ds :: "(string \<times> os) list" and fs
      by (simp add: List.map_filter_def filter_map comp_def case_prod_unfold)
    with f(1) show ?thesis
      by (auto simp: discover_partition_indices_def td_read_dir_def and_then_eq_Ok split: list.splits io_outcome.splits)
  qed
  moreover have "length (t_partitions t) = length found"
    using open_partitions_length [OF f(3)] by simp
  moreover from f(2) have "found \<noteq> []" by auto
  ultimately show ?thesis
    using assms(2) f(4) by (auto simp: topic_ok_def)
qed

lemma recover_topics_inv:
  assumes "recover_topics D cfg names topics dd = (Ok ts, dd')" and "\<forall>name \<in> set names. length (td_subdirs (topic_dir_of dd name)) < 2 ^ 32"
    and "distinct names" and "broker_inv \<lparr>b_topics = topics, b_config = cfg\<rparr>"
  shows "broker_inv \<lparr>b_topics = ts, b_config = cfg\<rparr>"
  using assms
proof (induction names arbitrary: topics dd)
  case (Cons name names)
  from Cons.prems(1) obtain t td where t: "topic_open D name cfg (topic_dir_of dd name) = (Ok t, td)"
    "recover_topics D cfg names (AList.update name \<lparr>te_topic = t, te_handles = 0\<rparr> topics) (set_topic_dir name td dd) = (Ok ts, dd')"
    by (auto simp: and_then_eq_Ok in_state_eq_Ok)
  have "topic_ok name t"
    using topic_open_ok [OF t(1)] Cons.prems(2) by simp
  with broker_inv_set_entry [OF Cons.prems(4), of name "\<lparr>te_topic = t, te_handles = 0\<rparr>"]
  have "broker_inv \<lparr>b_topics = AList.update name \<lparr>te_topic = t, te_handles = 0\<rparr> topics, b_config = cfg\<rparr>"
    by (simp add: set_entry_def)
  moreover have "\<forall>m \<in> set names. length (td_subdirs (topic_dir_of (set_topic_dir name td dd) m)) < 2 ^ 32"
    using Cons.prems(2,3) by auto
  ultimately show ?case
    using Cons.IH [OF t(2)] Cons.prems(3) by simp
qed simp

lemma dd_no_faults [simp]: "dd_faults dd = [] \<Longrightarrow> dd\<lparr>dd_faults := []\<rparr> = dd"
  by simp

lemma unlock_on_failure_eq_Ok [simp]: "unlock_on_failure r = (Ok a, dd) \<longleftrightarrow> r = (Ok a, dd)"
  by (cases r; cases "fst r") (auto simp: unlock_on_failure_def)

lemma dd_syscall_ok [io_simps]: "dd_faults dd = [] \<Longrightarrow> dd_syscall dd k = k dd"
  by (simp add: dd_syscall_def)

lemma dd_syscall_cases:
  obtains dd' where "dd_syscall dd k = k dd'" "dd_topics dd' = dd_topics dd" "dd_locked dd' = dd_locked dd" "dd_fresh dd' = dd_fresh dd"
  | e dd' where "dd_syscall dd k = (Err e, dd')" "dd_topics dd' = dd_topics dd" "dd_locked dd' = dd_locked dd"
proof (cases "dd_faults dd")
  case Nil
  with that(1) [of dd] show thesis by (simp add: dd_syscall_def)
next
  case (Cons f fs)
  with that(1) [of "dd\<lparr>dd_faults := fs\<rparr>"] that(2) [of _ "dd\<lparr>dd_faults := fs\<rparr>"] show thesis
    by (cases f) (simp_all add: dd_syscall_def)
qed

lemma dd_syscall_eq_Ok:
  assumes "dd_syscall dd k = (Ok a, dd')"
  shows "\<exists>dd1. k dd1 = (Ok a, dd') \<and> dd_topics dd1 = dd_topics dd \<and> dd_locked dd1 = dd_locked dd \<and> dd_fresh dd1 = dd_fresh dd"
  using assms by (cases rule: dd_syscall_cases [of dd k]) auto

lemma recover_topics_locked: "dd_locked (snd (recover_topics D cfg names topics dd)) = dd_locked dd"
proof (induction names arbitrary: topics dd)
  case (Cons name names)
  then show ?case
    by (cases "topic_open D name cfg (topic_dir_of dd name)"; cases "fst (topic_open D name cfg (topic_dir_of dd name))") auto
qed simp

lemma open_with_config_Ok:
  assumes "open_with_config D cfg dd = (Ok b, dd')"
  obtains dd1 where "recover_topics D cfg (map fst (dd_topics dd)) [] dd1 = (Ok (b_topics b), dd')" "dd_topics dd1 = dd_topics dd"
    "dd_fresh dd1 = dd_fresh dd" "dd_locked dd1" "\<not> dd_locked dd" "b_config b = cfg"
proof -
  obtain dd1 dd2 where 1: "dd_topics dd1 = dd_topics dd" "dd_locked dd1 = dd_locked dd" "dd_fresh dd1 = dd_fresh dd"
    and 2: "acquire_dir_lock dd1 = (Ok (), dd2)"
      "and_then (dd_syscall dd2 (\<lambda>dd. (Ok (map fst (dd_topics dd)), dd))) (\<lambda>names dd. recover_topics D cfg names [] dd) = (Ok (b_topics b), dd')"
      "b_config b = cfg"
    using assms by (auto simp: open_with_config_def and_then_eq_Ok dest!: dd_syscall_eq_Ok [of dd])
  from 2(1) have lock: "dd_topics dd2 = dd_topics dd1" "dd_fresh dd2 = dd_fresh dd1" "dd_locked dd2" "\<not> dd_locked dd1"
    by (auto simp: acquire_dir_lock_def and_then_eq_Ok dest!: dd_syscall_eq_Ok split: if_splits)
  from 2(2) obtain dd3 where "recover_topics D cfg (map fst (dd_topics dd3)) [] dd3 = (Ok (b_topics b), dd')"
    "dd_topics dd3 = dd_topics dd2" "dd_fresh dd3 = dd_fresh dd2" "dd_locked dd3 = dd_locked dd2"
    by (auto simp: and_then_eq_Ok dest!: dd_syscall_eq_Ok)
  with that [of dd3] 1 2(3) lock show thesis
    by simp
qed

section \<open>Properties\<close>

text \<open>
  C11: the invariant of the broker. Whatever a program does with a broker it has opened, the names in
  the registry are distinct, every topic is registered under its own name, and every topic has at
  least one partition, so that routing a record never divides by zero.
\<close>

theorem broker_invariant:
  assumes "open_with_config D cfg dd = (Ok b, dd1)" and "distinct (map fst (dd_topics dd))"
    and "list_all (\<lambda>(name, td). length (td_subdirs td) < 2 ^ 32) (dd_topics dd)" and "(broker_step D)\<^sup>*\<^sup>* (b, dd1) (b', dd')"
  shows "broker_inv b' \<and> (\<forall>name e. registered b' name = Some e \<longrightarrow> (\<exists>p t'. route k (te_topic e) = (Ok p, t') \<and> unat p < length (t_partitions (te_topic e))))"
proof -
  obtain dd2 where o: "recover_topics D cfg (map fst (dd_topics dd)) [] dd2 = (Ok (b_topics b), dd1)" "dd_topics dd2 = dd_topics dd" "b_config b = cfg"
    by (rule open_with_config_Ok [OF assms(1)])
  have "topic_dir_of dd2 name = td" if "(name, td) \<in> set (dd_topics dd)" for name td
    using that assms(2) o(2) by (simp add: topic_dir_of_def)
  then have "\<forall>name \<in> set (map fst (dd_topics dd)). length (td_subdirs (topic_dir_of dd2 name)) < 2 ^ 32"
    using assms(3) by (auto simp: list_all_iff)
  from recover_topics_inv [OF o(1) this assms(2)] have "broker_inv b"
    using o(3) by (simp add: broker_inv_def registered_def)
  then have inv: "broker_inv b'"
    using broker_steps_inv [OF assms(4)] by simp
  have "\<exists>p t'. route k (te_topic e) = (Ok p, t') \<and> unat p < length (t_partitions (te_topic e))" if "registered b' name = Some e" for name e
  proof -
    have t: "t_partitions (te_topic e) \<noteq> []" "length (t_partitions (te_topic e)) < 2 ^ 32"
      using that inv by (auto simp: broker_inv_def topic_ok_def)
    then have n: "unat (partition_count (te_topic e)) = length (t_partitions (te_topic e))"
      unfolding partition_count_def by (intro unat_u32_of_nat) simp
    then have "partition_count (te_topic e) \<noteq> 0"
      using t(1) by (metis length_0_conv unat_0)
    from route_ok [OF this, of k] route_of_less [of "length (t_partitions (te_topic e))"] t(1) n show ?thesis
      by auto
  qed
  with inv show ?thesis
    by blast
qed

text \<open>
  C12: handles pin topics. As long as a producer or consumer holds a handle to a topic, nothing the
  program does to the broker removes the topic or replaces it by another one; in particular
  \<^verbatim>\<open>delete_topic\<close> leaves registry and directory as they were.
\<close>

theorem handles_pin_topic:
  assumes "broker_step D (b, dd) (b', dd')" and "registered b name = Some e" and "0 < te_handles e"
  shows "\<exists>e'. registered b' name = Some e' \<and> same_shape (te_topic e) (te_topic e')"
  using assms(1)
proof cases
  case (create m cfg n)
  then have b': "b' = fst (snd (create_topic_inner D m cfg n (b, dd)))"
    by (metis fst_conv)
  show ?thesis
    using assms(2) unfolding b' by (cases rule: create_topic_cases [of D m cfg n b dd]) auto
next
  case (delete shared m)
  then have b': "b' = fst (snd (delete_topic D shared m (b, dd)))"
    by (metis fst_conv)
  show ?thesis
    using assms(2,3) unfolding b' by (cases rule: delete_topic_cases [of D shared m b dd]) auto
next
  case (subscribe m grp)
  then have b': "b' = fst (snd (consumer_for_group D m grp (b, dd)))"
    by (metis fst_conv)
  show ?thesis
    using assms(2) subscribe_cases [of D m grp b dd] unfolding b'
    by (auto simp: broker_topic_def drop_handle_def split: option.splits)
qed (use assms(2,3) same_shape_send_record same_shape_batch same_shape_take in
  \<open>auto simp: broker_topic_def drop_handle_def split: option.splits\<close>)

text \<open>
  Deleting a topic. An unknown topic is \<^verbatim>\<open>TopicNotFound\<close>; a topic with handles out is
  \<^verbatim>\<open>TopicInUse\<close>, and the registry looks the same as before; otherwise the topic is gone from the
  registry and from the data directory, and no other topic or directory is touched.
\<close>

lemma delete_topic_spec:
  assumes "dd_faults dd = []"
  shows "case registered b name of
           None \<Rightarrow> delete_topic D shared name (b, dd) = (Err (TopicNotFound name), b, dd)
         | Some e \<Rightarrow>
             \<exists>r b' dd'. delete_topic D shared name (b, dd) = (r, b', dd') \<and>
               (if te_handles e = 0
                then r = Ok () \<and> registered b' = (registered b)(name := None) \<and>
                     map_of (dd_topics dd') = (map_of (dd_topics dd))(name := None)
                else r = Err (TopicInUse name) \<and> registered b' = registered b \<and> dd' = dd)"
proof (cases "registered b name")
  case None
  then show ?thesis by (simp add: delete_topic_def)
next
  case (Some e)
  show ?thesis
  proof (cases "te_handles e = 0")
    case True
    with Some assms show ?thesis
      by (auto simp: delete_topic_def Let_def remove_topic_dir_def set_topic_dir_def update_conv' delete_conv' fun_eq_iff)
  next
    case False
    with Some show ?thesis
      by (auto simp: delete_topic_def Let_def fun_eq_iff)
  qed
qed

text \<open>
  One broker per data directory. While a broker has a data directory open, another open of it
  fails and leaves the first one's lock in place; shutting the broker down releases the lock.
\<close>

lemma open_exclusive:
  assumes "open_with_config D cfg dd = (Ok b, dd1)"
  shows "\<not> dd_locked dd \<and> dd_locked dd1 \<and>
         (\<exists>e dd2. open_with_config D cfg' dd1 = (Err e, dd2) \<and> dd_locked dd2 \<and> (dd_faults dd1 = [] \<longrightarrow> e = AlreadyOpen (dd_path dd1))) \<and>
         \<not> dd_locked (snd (snd (broker_shutdown D shared (b, dd1))))"
proof -
  obtain dd2 where o: "recover_topics D cfg (map fst (dd_topics dd)) [] dd2 = (Ok (b_topics b), dd1)" "dd_locked dd2" "\<not> dd_locked dd"
    by (rule open_with_config_Ok [OF assms])
  have l: "dd_locked dd1"
    using recover_topics_locked [of D cfg "map fst (dd_topics dd)" "[]" dd2] o(1,2) by simp
  have "\<exists>e dd3. acquire_dir_lock dd = (Err e, dd3) \<and> dd_locked dd3" if "dd_locked dd" for dd
    using that unfolding acquire_dir_lock_def
    by (cases rule: dd_syscall_cases [of dd "\<lambda>dd. (Ok (), dd)"])
      (auto simp: dd_syscall_def split: list.splits io_outcome.splits)
  then have "\<exists>e dd2. open_with_config D cfg' dd1 = (Err e, dd2) \<and> dd_locked dd2"
    using l unfolding open_with_config_def
    by (cases rule: dd_syscall_cases [of dd1 "\<lambda>dd. (Ok (), dd)"]) fastforce+
  moreover have "fst (open_with_config D cfg' dd1) = Err (AlreadyOpen (dd_path dd1))" if "dd_faults dd1 = []"
    using that l by (simp add: open_with_config_def acquire_dir_lock_def io_simps)
  ultimately show ?thesis
    using l o(3) by (auto simp: broker_shutdown_def Let_def)
qed

section \<open>Shutting down and opening again\<close>

lemma recover_topics_ok:
  assumes "distinct names" and "\<And>name. name \<in> set names \<Longrightarrow> \<exists>t td. topic_open D name cfg (topic_dir_of dd name) = (Ok t, td) \<and> P name t"
  shows "\<exists>ts dd'. recover_topics D cfg names topics dd = (Ok ts, dd') \<and>
           (\<forall>name. (name \<notin> set names \<longrightarrow> map_of ts name = map_of topics name) \<and>
              (name \<in> set names \<longrightarrow> (\<exists>t. map_of ts name = Some \<lparr>te_topic = t, te_handles = 0\<rparr> \<and> P name t))) \<and>
           (distinct (map fst topics) \<longrightarrow> distinct (map fst ts))"
  using assms
proof (induction names arbitrary: topics dd)
  case (Cons name names)
  obtain t td where t: "topic_open D name cfg (topic_dir_of dd name) = (Ok t, td)" "P name t"
    using Cons.prems(2) [of name] by auto
  let ?topics = "AList.update name \<lparr>te_topic = t, te_handles = 0\<rparr> topics" and ?dd = "set_topic_dir name td dd"
  have "\<exists>t td. topic_open D m cfg (topic_dir_of ?dd m) = (Ok t, td) \<and> P m t" if "m \<in> set names" for m
    using Cons.prems(1) Cons.prems(2) [of m] that by auto
  with Cons.IH [of ?dd ?topics] Cons.prems(1) obtain ts dd' where
    ts: "recover_topics D cfg names ?topics ?dd = (Ok ts, dd')"
      "\<forall>m. (m \<notin> set names \<longrightarrow> map_of ts m = map_of ?topics m) \<and> (m \<in> set names \<longrightarrow> (\<exists>t. map_of ts m = Some \<lparr>te_topic = t, te_handles = 0\<rparr> \<and> P m t))"
      "distinct (map fst ?topics) \<longrightarrow> distinct (map fst ts)"
    by auto
  then show ?case
    using t Cons.prems(1) by (auto simp: update_conv' distinct_update)
qed simp

text \<open>
  What a power loss leaves of a data directory whose topics are \<open>topics\<close>: a directory per topic,
  each as \<open>topic_power_loss\<close> says, and no lock.
\<close>

definition broker_power_loss :: "(string \<times> topic_entry) list \<Rightarrow> data_dir \<Rightarrow> bool" where
  "broker_power_loss topics dd \<longleftrightarrow>
     dd_faults dd = [] \<and> \<not> dd_locked dd \<and> distinct (map fst (dd_topics dd)) \<and> fst ` set (dd_topics dd) = fst ` set topics \<and>
     (\<forall>(name, e) \<in> set topics. topic_power_loss (te_topic e) (topic_dir_of dd name))"

lemma broker_reopen:
  assumes "broker_inv b" and "\<forall>name e. registered b name = Some e \<longrightarrow> te_handles e = 0 \<and> topic_live D (te_topic e) (logs name) n"
    and "broker_shutdown D (\<lambda>i. False) (b, dd) = (Ok (), topics, dd1)" and "broker_power_loss topics dd2"
    and "segment_size_threshold cfg + n \<le> 2 ^ 32"
  shows "\<exists>b' dd3. open_with_config D cfg dd2 = (Ok b', dd3) \<and> list_topics b' = list_topics b \<and>
           (\<forall>name e. registered b' name = Some e \<longrightarrow> topic_live D (te_topic e) (logs name) n \<and>
              map high_water_mark (t_partitions (te_topic e)) = map al_next (logs name))"
proof -
  let ?P = "\<lambda>name t. topic_live D t (logs name) n \<and> map high_water_mark (t_partitions t) = map al_next (logs name)"
  let ?names = "map fst (dd_topics dd2)"
  have keys: "distinct (map fst (b_topics b))" and topics: "topics = shutdown_topics D (\<lambda>i. False) (b_topics b)"
    using assms(1,3) by (auto simp: broker_inv_def broker_shutdown_def Let_def)
  have loss: "dd_faults dd2 = []" "\<not> dd_locked dd2" "distinct ?names" "set ?names = fst ` set (b_topics b)"
    "\<And>name e. (name, e) \<in> set (b_topics b) \<Longrightarrow> te_handles e = 0 \<Longrightarrow>
       topic_power_loss (topic_shutdown D (\<lambda>i. False) (te_topic e)) (topic_dir_of dd2 name)"
    using assms(4) unfolding broker_power_loss_def topics shutdown_topics_def by (force simp: image_image case_prod_unfold)+
  let ?dd = "dd2\<lparr>dd_locked := True\<rparr>"
  have "\<exists>t td. topic_open D name cfg (topic_dir_of ?dd name) = (Ok t, td) \<and> ?P name t" if "name \<in> set ?names" for name
  proof -
    obtain e where e: "(name, e) \<in> set (b_topics b)"
      using \<open>name \<in> set ?names\<close> loss(4) by auto
    then have "registered b name = Some e"
      using keys by (simp add: registered_def)
    with assms(2) have "te_handles e = 0" "topic_live D (te_topic e) (logs name) n"
      by simp_all
    with topic_reopen [OF this(2) loss(5) [OF e this(1)] assms(5), of name] show ?thesis
      by auto
  qed
  from recover_topics_ok [OF loss(3) this, of "[]"] obtain ts dd3 where
    ts: "recover_topics D cfg ?names [] ?dd = (Ok ts, dd3)" "distinct (map fst ts)"
      "\<And>name. name \<notin> set ?names \<Longrightarrow> map_of ts name = None"
      "\<And>name. name \<in> set ?names \<Longrightarrow> \<exists>t. map_of ts name = Some \<lparr>te_topic = t, te_handles = 0\<rparr> \<and> ?P name t"
    by auto
  have "open_with_config D cfg dd2 = (Ok \<lparr>b_topics = ts, b_config = cfg\<rparr>, dd3)"
    using loss(1,2) ts(1) by (simp add: open_with_config_def acquire_dir_lock_def io_simps unlock_on_failure_def)
  moreover have "name \<in> set (map fst ts) \<longleftrightarrow> name \<in> set ?names" for name
    using ts(3) [of name] ts(4) [of name] map_of_eq_None_iff [of ts name] by (cases "name \<in> set ?names") auto
  then have "set (map fst ts) = set (map fst (b_topics b))"
    using loss(4) by auto
  then have "sort (map fst ts) = sort (map fst (b_topics b))"
    using ts(2) keys by (intro sorted_distinct_set_unique) auto
  moreover have "?P name (te_topic e)" if "map_of ts name = Some e" for name e
    using ts(3) [of name] ts(4) [of name] that by (cases "name \<in> set ?names") auto
  ultimately show ?thesis
    by (auto simp: list_topics_def registered_def)
qed

text \<open>
  C5: shutting the broker down is a durability point, when no handles are out. After
  \<^verbatim>\<open>Kafko::shutdown\<close> and a power loss, opening the data directory again gives the same topics,
  each with exactly the records it had, in every partition at the same offsets.
\<close>

theorem broker_restart:
  assumes "broker_inv b" and "\<forall>name e. registered b name = Some e \<longrightarrow> te_handles e = 0 \<and> topic_live D (te_topic e) (logs name) n"
    and "broker_shutdown D (\<lambda>i. False) (b, dd) = (Ok (), topics, dd1)" and "broker_power_loss topics dd2"
    and "segment_size_threshold cfg + n \<le> 2 ^ 32"
  shows "\<exists>b' dd3. open_with_config D cfg dd2 = (Ok b', dd3) \<and> list_topics b' = list_topics b \<and>
           (\<forall>name e. registered b' name = Some e \<longrightarrow> topic_live D (te_topic e) (logs name) n \<and>
              map high_water_mark (t_partitions (te_topic e)) = map al_next (logs name))"
  by (rule broker_reopen [OF assms])

text \<open>
  With handles out, shutting down is no durability point. A topic that some producer or
  consumer still refers to is passed over: its partitions are exactly as they were, with whatever
  was not yet durable, and \<^verbatim>\<open>shutdown\<close> reports success all the same.
\<close>

lemma shutdown_skips_topics_in_use:
  assumes "registered b name = Some e" and "0 < te_handles e"
  shows "\<exists>topics dd'. broker_shutdown D shared (b, dd) = (Ok (), topics, dd') \<and> map_of topics name = Some e"
proof -
  have "map_of (shutdown_topics D shared ts) name =
      map_option (\<lambda>e. if te_handles e = 0 then e\<lparr>te_topic := topic_shutdown D shared (te_topic e)\<rparr> else e) (map_of ts name)" for ts
    unfolding shutdown_topics_def by (induction ts) auto
  with assms show ?thesis
    by (simp add: broker_shutdown_def registered_def Let_def)
qed

section \<open>A broker to evaluate the statements on\<close>

definition demo_dd :: data_dir where
  "demo_dd = \<lparr>dd_path = ''d'', dd_topics = [], dd_locked = False, dd_faults = [], dd_fresh = demo_td\<rparr>"

definition demo_broker :: broker where
  "demo_broker = \<lparr>b_topics = [], b_config = demo_cfg\<rparr>"

lemma demo_open: "open_with_config D demo_cfg demo_dd = (Ok demo_broker, demo_dd\<lparr>dd_locked := True\<rparr>)"
  by (simp add: open_with_config_def acquire_dir_lock_def dd_syscall_def unlock_on_failure_def demo_dd_def demo_broker_def)

lemma open_exclusive_witness:
  "\<exists>dd2. open_with_config demo_deps demo_cfg (demo_dd\<lparr>dd_locked := True\<rparr>) = (Err (AlreadyOpen ''d''), dd2) \<and> dd_locked dd2"
  using open_exclusive [OF demo_open, of demo_deps demo_cfg] by (auto simp: demo_dd_def)

text \<open>A broker with one topic, and a producer's handle on it.\<close>

lemma demo_created:
  obtains b dd e where "create_topic_inner demo_deps ''t'' demo_cfg 2 (demo_broker, demo_dd\<lparr>dd_locked := True\<rparr>) = (Ok (), b, dd)"
    "b_topics b = [(''t'', e)]" "te_handles e = 0" "topic_live demo_deps (te_topic e) demo_logs 1000" "t_name (te_topic e) = ''t''" "dd_faults dd = []"
proof (rule demo_topic)
  fix t td
  assume t: "topic_create demo_deps ''t'' 2 demo_cfg demo_td = (Ok t, td)"
    "topic_live demo_deps t demo_logs 1000"
  let ?e = "\<lparr>te_topic = t, te_handles = 0\<rparr>" and ?dd = "set_topic_dir ''t'' td (demo_dd\<lparr>dd_locked := True\<rparr>)"
  have td: "topic_dir_of demo_dd ''t'' = demo_td"
    by (simp add: topic_dir_of_def demo_dd_def)
  have name: "t_name t = ''t''"
    using topic_create_ok [OF t(1)] by (simp add: topic_ok_def)
  have none: "registered demo_broker ''t'' = None"
    by (simp add: registered_def demo_broker_def)
  have "create_topic_inner demo_deps ''t'' demo_cfg 2 (demo_broker, demo_dd\<lparr>dd_locked := True\<rparr>) = (Ok (), set_entry ''t'' ?e demo_broker, ?dd)"
    using t(1) td none by (simp add: create_topic_inner_def register_topic_def)
  moreover have "b_topics (set_entry ''t'' ?e demo_broker) = [(''t'', ?e)]" "dd_faults ?dd = []"
    by (simp_all add: set_entry_def demo_broker_def demo_dd_def)
  ultimately show thesis
    using that [of "set_entry ''t'' ?e demo_broker" ?dd ?e] t(2) name by simp
qed

lemma demo_inv: "broker_inv demo_broker"
  by (simp add: broker_inv_def demo_broker_def registered_def)

lemma broker_invariant_witness:
  "\<exists>b dd. (broker_step demo_deps)\<^sup>*\<^sup>* (demo_broker, demo_dd\<lparr>dd_locked := True\<rparr>) (b, dd) \<and> broker_inv b \<and> has_topic b ''t''"
proof (rule demo_created)
  fix b dd e
  assume *: "create_topic_inner demo_deps ''t'' demo_cfg 2 (demo_broker, demo_dd\<lparr>dd_locked := True\<rparr>) = (Ok (), b, dd)" "b_topics b = [(''t'', e)]"
  have step: "(broker_step demo_deps)\<^sup>*\<^sup>* (demo_broker, demo_dd\<lparr>dd_locked := True\<rparr>) (b, dd)"
    using broker_step.create [of demo_deps "(demo_broker, demo_dd\<lparr>dd_locked := True\<rparr>)" "''t''" demo_cfg 2] *(1) by auto
  have "broker_inv b"
    using broker_invariant [OF demo_open _ _ step] by (simp add: demo_dd_def)
  with step *(2) show ?thesis
    by (auto simp: has_topic_def registered_def)
qed

lemma handles_pin_topic_witness:
  "\<exists>b b' dd dd' e'. broker_step demo_deps (b, dd) (b', dd') \<and> fst (delete_topic demo_deps (\<lambda>i. False) ''t'' (b, dd)) = Err (TopicInUse ''t'') \<and>
     registered b' ''t'' = Some e'"
proof (rule demo_created)
  fix b :: broker and dd e
  assume *: "b_topics b = [(''t'', e)]"
  define b1 where "b1 = set_entry ''t'' (e\<lparr>te_handles := 1\<rparr>) b"
  obtain r b2 dd2 where d: "delete_topic demo_deps (\<lambda>i. False) ''t'' (b1, dd) = (r, b2, dd2)"
    by (cases "delete_topic demo_deps (\<lambda>i. False) ''t'' (b1, dd)") auto
  have step: "broker_step demo_deps (b1, dd) (b2, dd2)"
    using broker_step.delete [of demo_deps "(b1, dd)" "\<lambda>i. False" "''t''"] d by simp
  have reg: "registered b1 ''t'' = Some (e\<lparr>te_handles := 1\<rparr>)"
    by (simp add: b1_def)
  then have r: "r = Err (TopicInUse ''t'')"
    using d by (simp add: delete_topic_def Let_def)
  obtain e' where "registered b2 ''t'' = Some e'"
    using handles_pin_topic [OF step reg] by auto
  with step d r show ?thesis
    by (intro exI [of _ b1] exI [of _ b2] exI [of _ dd] exI [of _ dd2] exI [of _ e']) simp
qed

lemma delete_topic_spec_witness:
  "\<exists>b dd b' dd'. has_topic b ''t'' \<and> delete_topic demo_deps (\<lambda>i. False) ''t'' (b, dd) = (Ok (), b', dd') \<and> \<not> has_topic b' ''t''"
proof (rule demo_created)
  fix b :: broker and dd :: data_dir and e
  assume *: "b_topics b = [(''t'', e)]" "te_handles e = 0" "dd_faults dd = []"
  have reg: "registered b ''t'' = Some e"
    using *(1) by (simp add: registered_def)
  then obtain b' dd' where "delete_topic demo_deps (\<lambda>i. False) ''t'' (b, dd) = (Ok (), b', dd')" "registered b' = (registered b)(''t'' := None)"
    using delete_topic_spec [where b = b and name = "''t''" and D = demo_deps and shared = "\<lambda>i. False", OF *(3)] *(2) by auto
  with reg show ?thesis
    by (intro exI [of _ b] exI [of _ dd] exI [of _ b'] exI [of _ dd']) (simp add: has_topic_def)
qed

lemma shutdown_skips_topics_in_use_witness:
  "\<exists>b e topics dd'. registered b ''t'' = Some e \<and> broker_shutdown demo_deps (\<lambda>i. False) (b, demo_dd) = (Ok (), topics, dd') \<and> map_of topics ''t'' = Some e"
proof (rule demo_created)
  fix b :: broker and dd e
  define b1 where "b1 = set_entry ''t'' (e\<lparr>te_handles := 1\<rparr>) b"
  have reg: "registered b1 ''t'' = Some (e\<lparr>te_handles := 1\<rparr>)"
    by (simp add: b1_def)
  from shutdown_skips_topics_in_use [OF reg, of demo_deps "\<lambda>i. False" demo_dd] reg show ?thesis
    by auto
qed

lemma broker_restart_witness:
  "\<exists>b dd2 b' dd3. has_topic b ''t'' \<and> open_with_config demo_deps demo_cfg dd2 = (Ok b', dd3) \<and> list_topics b' = list_topics b"
proof (rule demo_created)
  fix b :: broker and dd e
  assume *: "b_topics b = [(''t'', e)]" "te_handles e = 0" "topic_live demo_deps (te_topic e) demo_logs 1000" "t_name (te_topic e) = ''t''"
  let ?t = "topic_shutdown demo_deps (\<lambda>i. False) (te_topic e)"
  define dd2 where "dd2 = demo_dd\<lparr>dd_topics := [(''t'', topic_remains ?t)]\<rparr>"
  note len = topic_liveD [OF *(3)]
  have inv: "broker_inv b"
    using *(1,4) len(1) by (auto simp: broker_inv_def registered_def topic_ok_def)
  have live: "\<forall>name e. registered b name = Some e \<longrightarrow> te_handles e = 0 \<and> topic_live demo_deps (te_topic e) demo_logs 1000"
    using *(1-3) by (auto simp: registered_def)
  obtain topics dd1 where s: "broker_shutdown demo_deps (\<lambda>i. False) (b, dd) = (Ok (), topics, dd1)" "topics = [(''t'', e\<lparr>te_topic := ?t\<rparr>)]"
    using *(1,2) by (simp add: broker_shutdown_def shutdown_topics_def Let_def)
  have "topic_power_loss ?t (topic_remains ?t)"
    using len(1) by (intro topic_power_loss_remains) (simp add: topic_shutdown_def)
  then have "broker_power_loss topics dd2"
    by (simp add: s(2) broker_power_loss_def dd2_def demo_dd_def topic_dir_of_def)
  from broker_restart [OF inv live s(1) this demo_fresh(5)]
  obtain b' dd3 where "open_with_config demo_deps demo_cfg dd2 = (Ok b', dd3)" "list_topics b' = list_topics b"
    by blast
  moreover have "has_topic b ''t''"
    using *(1) by (simp add: has_topic_def registered_def)
  ultimately show ?thesis
    by blast
qed

end
