(* ===== verification/Kafko_EndToEnd.thy ===== *)
theory Kafko_EndToEnd
  imports Kafko_BrokerProps
begin

text \<open>
  From a producer to a consumer and across a restart: what the pieces need of each other for the
  property of the whole program.
\<close>

section \<open>A batch and the consumer that reads it\<close>

text \<open>The positions of a batch in one partition count up along the records routed there.\<close>

lemma filter_batch_positions:
  assumes "length ps = length xs" and "\<forall>q \<in> set ps. q < m" and "m < 2 ^ 32" and "p < m"
  shows "filter (\<lambda>x. pos_partition (fst x) = of_nat p)
           (zip (map (\<lambda>i. position_new (of_nat (ps ! i)) (length (filter (\<lambda>q. q = ps ! i) (take i ps)))) [0 ..< length xs]) xs) =
         map (\<lambda>k. (position_new (of_nat p) k, routed p ps xs ! k)) [0 ..< length (routed p ps xs)]"
  using assms(1,2)
proof (induction xs arbitrary: ps rule: rev_induct)
  case (snoc x xs)
  then obtain qs q where ps: "ps = qs @ [q]" "length qs = length xs" "q < m" "\<forall>q \<in> set qs. q < m"
    by (cases ps rule: rev_cases) auto
  let ?at = "\<lambda>ps i. position_new (of_nat (ps ! i)) (length (filter (\<lambda>q. q = ps ! i) (take i ps)))"
  have old: "map (?at ps) [0 ..< length xs] = map (?at qs) [0 ..< length xs]"
    using ps(1,2) by (simp add: nth_append)
  have new: "?at ps (length xs) = position_new (of_nat q) (length (routed q qs xs))"
    using ps(1,2) by (simp add: nth_append length_routed)
  have same: "(of_nat q :: u32) = of_nat p \<longleftrightarrow> q = p"
    using unat_u32_of_nat [of q] unat_u32_of_nat [of p] ps(3) assms(3,4) by (metis less_trans)
  have routed: "routed p ps (xs @ [x]) = routed p qs xs @ (if q = p then [x] else [])"
    using ps(1,2) by (simp add: routed_append)
  have "map (?at ps) [0 ..< length (xs @ [x])] = map (?at qs) [0 ..< length xs] @ [?at ps (length xs)]"
    unfolding old [symmetric] by simp
  then have z: "zip (map (?at ps) [0 ..< length (xs @ [x])]) (xs @ [x]) = zip (map (?at qs) [0 ..< length xs]) xs @ [(?at ps (length xs), x)]"
    by (simp only: zip_append length_map length_upt minus_nat.diff_0 zip_Cons_Cons zip_Nil)
  have "pos_partition (position_new a b) = a" for a b
    by (simp add: position_new_def)
  with same show ?case
    unfolding z filter_append snoc.IH [OF ps(2,4)] routed new by (cases "q = p") (simp_all add: nth_append)
qed simp

lemma sum_length_routed:
  assumes "length ps = length xs" and "\<forall>q \<in> set ps. q < m"
  shows "(\<Sum>p < m. length (routed p ps xs)) = length xs"
proof -
  have "length (filter (\<lambda>q. q = p) ps) = count_list ps p" for p
    by (induction ps) auto
  then have "length (routed p ps xs) = count_list ps p" for p
    using length_routed [OF assms(1), of p] by simp
  moreover have "(\<Sum>p < m. count_list ps p) = length ps"
    using assms(2) by (intro sum_count_set) auto
  ultimately show ?thesis
    using assms(1) by simp
qed

text \<open>Offsets of a live topic fit 64 bits.\<close>

lemma topic_live_offsets:
  assumes "topic_live D t as n" and "p < length as"
  shows "al_next (as ! p) < 2 ^ 64"
proof -
  have "serving D (p_writer (t_partitions t ! p)) (as ! p) n"
    using assms by (auto simp: topic_live_def list_all2_conv_all_nth part_repr_def live_def)
  then show ?thesis
    by (auto simp: serving_def log_room_def elim!: log_models_cases)
qed

abbreviation empty_logs :: "nat \<Rightarrow> alog list" where
  "empty_logs m \<equiv> replicate m \<lparr>al_first = 0, al_records = []\<rparr>"

lemma batch_logs_empty:
  "batch_logs rts rs (empty_logs m) = map (\<lambda>j. \<lparr>al_first = 0, al_records = routed j rts rs\<rparr>) [0 ..< m]"
  by (simp add: batch_logs_def al_append_def)

lemma consume_batch:
  assumes "topic_live D t (batch_logs rts rs (empty_logs m)) n" and "length rts = length rs" and "\<forall>q \<in> set rts. q < m"
    and "positions = map (batch_position rts (empty_logs m)) [0 ..< length rs]"
  shows "\<exists>items s. consume D (Suc (length rs)) (from_topic t, t) = (map (Ok \<circ> Some) items @ [Ok None], s) \<and>
           length items = length rs \<and>
           (\<forall>p < m. filter (\<lambda>x. pos_partition (fst x) = of_nat p) items = filter (\<lambda>x. pos_partition (fst x) = of_nat p) (zip positions rs))"
proof -
  let ?as = "batch_logs rts rs (empty_logs m)" and ?c = "from_topic t"
  have len: "length ?as = m"
    by (simp add: batch_logs_empty)
  note live = topic_liveD [OF assms(1), unfolded len]
  have cur: "c_cursors ?c = replicate m 0"
    using live(3) by (simp add: from_topic_def from_topic_at_def)
  have log: "al_first (?as ! p) = 0" "al_records (?as ! p) = routed p rts rs" "al_next (?as ! p) = length (routed p rts rs)" if "p < m" for p
    using that by (simp_all add: batch_logs_empty al_next_def)
  have "within ?c ?as"
    using cur live(4,5) len log topic_live_offsets [OF assms(1)] by (auto simp: within_def)
  moreover have "backlog ?c ?as = length rs"
    using sum_length_routed [OF assms(2,3)] log(3) cur by (simp add: backlog_def len)
  ultimately obtain items c' t' where
    i: "consume D (Suc (length rs)) (?c, t) = (map (Ok \<circ> Some) items @ [Ok None], c', t')" "length items = length rs"
      "\<And>p. p < m \<Longrightarrow> filter (\<lambda>x. pos_partition (fst x) = of_nat p) items = pending ?c ?as p"
    using consume_all [OF assms(1), of ?c] len by (auto simp del: consume.simps)
  have at: "batch_position rts (empty_logs m) i = position_new (of_nat (rts ! i)) (length (filter (\<lambda>q. q = rts ! i) (take i rts)))"
    if "i < length rs" for i
    using that assms(2,3) by (simp add: batch_position_def al_next_def)
  have "pending ?c ?as p = filter (\<lambda>x. pos_partition (fst x) = of_nat p) (zip positions rs)" if "p < m" for p
  proof -
    have "positions = map (\<lambda>i. position_new (of_nat (rts ! i)) (length (filter (\<lambda>q. q = rts ! i) (take i rts)))) [0 ..< length rs]"
      using at assms(4) by simp
    then show ?thesis
      using filter_batch_positions [OF assms(2,3) live(5) that] log [OF that] cur that by (simp add: pending_def)
  qed
  with i show ?thesis
    by (intro exI [of _ items] exI [of _ "(c', t')"]) simp
qed

section \<open>One topic, from its creation to the next start\<close>

lemma open_empty:
  assumes "dd_topics dd = []" and "dd_faults dd = []" and "\<not> dd_locked dd"
  shows "open_with_config D cfg dd = (Ok \<lparr>b_topics = [], b_config = cfg\<rparr>, dd\<lparr>dd_locked := True\<rparr>)"
  using assms by (simp add: open_with_config_def acquire_dir_lock_def io_simps unlock_on_failure_def)

lemma create_first_topic:
  assumes "topic_create D name pcount cfg (dd_fresh dd) = (Ok t, td)" and "dd_topics dd = []" and "pcount \<noteq> 0"
  shows "create_topic_with_partitions D name pcount (\<lparr>b_topics = [], b_config = cfg\<rparr>, dd\<lparr>dd_locked := True\<rparr>) =
           (Ok (), \<lparr>b_topics = [(name, \<lparr>te_topic = t, te_handles = 0\<rparr>)], b_config = cfg\<rparr>, set_topic_dir name td (dd\<lparr>dd_locked := True\<rparr>))"
proof -
  have "topic_dir_of dd name = dd_fresh dd"
    using assms(2) by (simp add: topic_dir_of_def)
  then show ?thesis
    using assms(1,3) by (simp add: create_topic_with_partitions_def create_topic_inner_def registered_def register_topic_def set_entry_def)
qed

text \<open>A broker with one topic and no handles out, closed, robbed of its caches and opened again.\<close>

lemma single_topic_reopen:
  assumes "topic_live D t as n" and "t_name t = name" and "segment_size_threshold cfg + n \<le> 2 ^ 32"
    and "broker_shutdown D (\<lambda>i. False) (\<lparr>b_topics = [(name, \<lparr>te_topic = t, te_handles = 0\<rparr>)], b_config = c\<rparr>, dd) = (Ok (), topics, dd1)"
    and "broker_power_loss topics dd2"
  shows "\<exists>b' dd3 e. open_with_config D cfg dd2 = (Ok b', dd3) \<and> registered b' name = Some e \<and> topic_live D (te_topic e) as n"
proof -
  let ?b = "\<lparr>b_topics = [(name, \<lparr>te_topic = t, te_handles = 0\<rparr>)], b_config = c\<rparr>"
  have "broker_inv ?b"
    using assms(2) topic_liveD(1,4,5) [OF assms(1)] by (auto simp: broker_inv_def registered_def topic_ok_def)
  moreover have "\<forall>m e. registered ?b m = Some e \<longrightarrow> te_handles e = 0 \<and> topic_live D (te_topic e) as n"
    using assms(1) by (simp add: registered_def)
  ultimately obtain b' dd3 where b': "open_with_config D cfg dd2 = (Ok b', dd3)" "list_topics b' = list_topics ?b"
    "\<forall>m e. registered b' m = Some e \<longrightarrow> topic_live D (te_topic e) as n"
    using broker_reopen [of ?b D "\<lambda>_. as" n dd topics dd1 dd2 cfg] assms(3-5) by blast
  have "set (list_topics b') = {name}"
    unfolding b'(2) by (simp add: list_topics_def)
  then obtain e where "registered b' name = Some e"
    by (cases "registered b' name") (auto simp: list_topics_def registered_def map_of_eq_None_iff)
  with b' show ?thesis
    by blast
qed

text \<open>A power loss after shutdown leaves some data directory: the one without everything not durable, for instance.\<close>

lemma broker_power_loss_possible:
  assumes "broker_inv b" and "broker_shutdown D shared (b, dd) = (Ok (), topics, dd1)"
  shows "\<exists>dd2. broker_power_loss topics dd2"
proof -
  let ?dd = "demo_dd\<lparr>dd_topics := map (\<lambda>(name, e). (name, topic_remains (te_topic e))) topics\<rparr>"
  have topics: "topics = shutdown_topics D shared (b_topics b)"
    using assms(2) by (simp add: broker_shutdown_def Let_def)
  then have names: "map fst topics = map fst (b_topics b)"
    by (simp add: shutdown_topics_def case_prod_unfold)
  then have dist: "distinct (map fst topics)"
    using assms(1) by (simp add: broker_inv_def)
  have "topic_power_loss (te_topic e) (topic_dir_of ?dd name)" if e: "(name, e) \<in> set topics" for name e
  proof -
    obtain e0 where e0: "(name, e0) \<in> set (b_topics b)" "length (t_partitions (te_topic e)) = length (t_partitions (te_topic e0))"
      using e by (auto simp: topics shutdown_topics_def topic_shutdown_def split: if_splits)
    then have "registered b name = Some e0"
      using dist by (simp add: registered_def names)
    then have "length (t_partitions (te_topic e)) < 2 ^ 32"
      using assms(1) e0(2) by (auto simp: broker_inv_def topic_ok_def)
    moreover have "topic_dir_of ?dd name = topic_remains (te_topic e)"
      using e dist by (simp add: topic_dir_of_def map_of_map map_of_eq_Some_iff [THEN iffD2])
    ultimately show ?thesis
      by (simp add: topic_power_loss_remains)
  qed
  then have "broker_power_loss topics ?dd"
    using dist by (auto simp: broker_power_loss_def demo_dd_def comp_def case_prod_unfold image_image)
  then show ?thesis
    by blast
qed

text \<open>What a program does between opening the broker and shutting it down keeps the broker's invariant.\<close>

lemma session_inv:
  assumes "broker_inv b1" and "create_topic_with_partitions D name pcount (b1, dd1) = (Ok (), b2, dd2)"
    and "producer_for name b2 = (Ok t, b3)" and "registered b3 name = Some e" and "send_batch_records D rs t = (Ok positions, t')"
  shows "broker_inv (drop_handle name (set_entry name (e\<lparr>te_topic := t'\<rparr>) b3))"
proof -
  have "broker_inv b2"
    using broker_step_inv [OF broker_step.create [of D "(b1, dd1)" name "b_config b1" pcount]] assms(1,2)
    by (simp add: create_topic_with_partitions_def)
  then have b3: "broker_inv b3"
    using broker_topic_inv [of b2 name] assms(3) by (auto simp: producer_for_def split: prod.splits option.splits)
  have "te_topic e = t"
    using assms(3,4) by (auto simp: producer_for_def broker_topic_def split: option.splits)
  then have "topic_ok name t'"
    using b3 assms(4) same_shape_batch [of t D rs] assms(5) topic_ok_same_shape [of t t' name] by (auto simp: broker_inv_def)
  then show ?thesis
    using b3 by (intro drop_handle_inv broker_inv_set_entry) simp_all
qed

end
