(* ===== verification/Kafko_Wakeup.thy ===== *)
theory Kafko_Wakeup
  imports Kafko_Prelude
begin

text \<open>
  Waiting at the tail: the \<^verbatim>\<open>Wakeup\<close> of \<^verbatim>\<open>src/crates/kafko/src/topic.rs\<close>, the loop of
  \<^verbatim>\<open>Consumer::next_with_position\<close> in \<^verbatim>\<open>consumer.rs\<close> and the signalling of
  \<^verbatim>\<open>partition_writer_loop\<close> in \<^verbatim>\<open>partition.rs\<close>, as one state machine in which every access to
  shared state is a step of its own and steps of the consumer, of the writer tasks and of the other
  consumers interleave freely. What the records are does not matter here: a partition is the
  interval of offsets it holds, the consumer its cursors.
\<close>

section \<open>The notification primitive\<close>

text \<open>
  \<^verbatim>\<open>tokio::sync::Notify\<close> as one consumer's future sees it: \<open>nt_enable\<close> creates and registers
  the future, \<open>nt_all\<close> is \<^verbatim>\<open>notify_waiters\<close>, \<open>nt_fired\<close> whether the future has completed,
  \<open>nt_drop\<close> ends it. Documented: a future that is registered completes with the next
  \<^verbatim>\<open>notify_waiters\<close>, and a completed one stays completed.
\<close>

record 'n notify_ops =
  nt_enable :: "'n \<Rightarrow> 'n"
  nt_all :: "'n \<Rightarrow> 'n"
  nt_drop :: "'n \<Rightarrow> 'n"
  nt_waiting :: "'n \<Rightarrow> bool"
  nt_fired :: "'n \<Rightarrow> bool"

definition notify_laws :: "'n notify_ops \<Rightarrow> bool" where
  "notify_laws N \<longleftrightarrow>
     (\<forall>x. nt_waiting N (nt_enable N x) \<or> nt_fired N (nt_enable N x)) \<and>
     (\<forall>x. nt_waiting N x \<longrightarrow> nt_fired N (nt_all N x)) \<and>
     (\<forall>x. nt_fired N x \<longrightarrow> nt_fired N (nt_all N x))"

section \<open>The state\<close>

datatype phase = First nat | Parking | Enabling | Second nat | Awaiting | Returned

datatype answer = Found | Missing | Failed

text \<open>
  \<open>s_reading\<close> is the partition whose inbox holds the consumer's read, \<open>s_answer\<close> the reply that
  was sent. \<open>s_first ! p\<close> is the first offset that partition \<open>p\<close> has kept, \<open>s_hwm ! p\<close> its high-water
  mark. \<open>s_pulse ! p\<close> says that the writer task of \<open>p\<close> has handled a command, or ended, and owes a
  call of \<open>signal\<close>; \<open>s_batch ! p\<close> that it has flushed a batch and may, before it signals, handle the
  command that ended the batch; \<open>s_gone ! p\<close> that the task has ended. \<open>s_others\<close> counts the other
  consumers that are parked; the program does not keep it.
\<close>

record 'n sys =
  s_parked :: u64
  s_others :: nat
  s_notify :: 'n
  s_phase :: phase
  s_scan_start :: nat
  s_cursor :: "nat list"
  s_first :: "nat list"
  s_hwm :: "nat list"
  s_reading :: "nat option"
  s_answer :: "answer option"
  s_pulse :: "bool list"
  s_batch :: "bool list"
  s_gone :: "bool list"

abbreviation count :: "'n sys \<Rightarrow> nat" where
  "count s \<equiv> length (s_cursor s)"

definition scanned :: "'n sys \<Rightarrow> nat \<Rightarrow> nat" where
  "scanned s i = (s_scan_start s + i) mod count s"

definition available :: "'n sys \<Rightarrow> nat \<Rightarrow> bool" where
  "available s p \<longleftrightarrow> s_first s ! p \<le> s_cursor s ! p \<and> s_cursor s ! p < s_hwm s ! p"

text \<open>The writer task of \<open>p\<close> takes a command: at the start of a wake-up, or the one that ended a batch.\<close>

definition takes_command :: "'n sys \<Rightarrow> nat \<Rightarrow> bool" where
  "takes_command s p \<longleftrightarrow> p < count s \<and> \<not> s_gone s ! p \<and> (s_pulse s ! p \<longrightarrow> s_batch s ! p)"

definition handled :: "nat \<Rightarrow> bool \<Rightarrow> 'n sys \<Rightarrow> 'n sys" where
  "handled p batch s = s\<lparr>s_pulse := (s_pulse s)[p := True], s_batch := (s_batch s)[p := batch]\<rparr>"

section \<open>The operations of \<open>Wakeup\<close>\<close>

definition signal :: "'n notify_ops \<Rightarrow> 'n sys \<Rightarrow> 'n sys" where
  "signal N s = (if 0 < s_parked s then s\<lparr>s_notify := nt_all N (s_notify s)\<rparr> else s)"

definition mark_parked :: "'n sys \<Rightarrow> 'n sys" where
  "mark_parked s = s\<lparr>s_parked := s_parked s + 1\<rparr>"

definition unmark_parked :: "'n sys \<Rightarrow> 'n sys" where
  "unmark_parked s = s\<lparr>s_parked := s_parked s - 1\<rparr>"

section \<open>The steps\<close>

text \<open>Taking the record of partition \<open>p\<close>, as \<open>try_take_next\<close> does.\<close>

definition take_record :: "nat \<Rightarrow> 'n sys \<Rightarrow> 'n sys" where
  "take_record p s = s\<lparr>s_cursor := (s_cursor s)[p := s_cursor s ! p + 1], s_scan_start := (p + 1) mod count s, s_phase := Returned\<rparr>"

inductive consumer_step :: "'n notify_ops \<Rightarrow> 'n sys \<Rightarrow> 'n sys \<Rightarrow> bool" for N where
  ask: "s_phase s = First i \<or> s_phase s = Second i \<Longrightarrow> i < count s \<Longrightarrow> s_reading s = None \<Longrightarrow> s_answer s = None \<Longrightarrow>
    consumer_step N s (s\<lparr>s_reading := Some (scanned s i)\<rparr>)"
| found_first: "s_phase s = First i \<Longrightarrow> s_answer s = Some Found \<Longrightarrow>
    consumer_step N s (take_record (scanned s i) (s\<lparr>s_answer := None\<rparr>))"
| failed_first: "s_phase s = First i \<Longrightarrow> s_answer s = Some Failed \<Longrightarrow>
    consumer_step N s (s\<lparr>s_answer := None, s_phase := Returned\<rparr>)"
| missing_first: "s_phase s = First i \<Longrightarrow> s_answer s = Some Missing \<Longrightarrow>
    consumer_step N s (s\<lparr>s_answer := None, s_phase := (if i + 1 < count s then First (i + 1) else Parking)\<rparr>)"
| park: "s_phase s = Parking \<Longrightarrow> consumer_step N s ((mark_parked s)\<lparr>s_phase := Enabling\<rparr>)"
| enable: "s_phase s = Enabling \<Longrightarrow>
    consumer_step N s (s\<lparr>s_notify := nt_enable N (s_notify s), s_phase := Second 0\<rparr>)"
| found_second: "s_phase s = Second i \<Longrightarrow> s_answer s = Some Found \<Longrightarrow>
    consumer_step N s (take_record (scanned s i) (unmark_parked (s\<lparr>s_answer := None, s_notify := nt_drop N (s_notify s)\<rparr>)))"
| failed_second: "s_phase s = Second i \<Longrightarrow> s_answer s = Some Failed \<Longrightarrow>
    consumer_step N s ((unmark_parked s)\<lparr>s_answer := None, s_notify := nt_drop N (s_notify s), s_phase := Returned\<rparr>)"
| missing_second: "s_phase s = Second i \<Longrightarrow> s_answer s = Some Missing \<Longrightarrow>
    consumer_step N s (s\<lparr>s_answer := None, s_phase := (if i + 1 < count s then Second (i + 1) else Awaiting)\<rparr>)"
| woken: "s_phase s = Awaiting \<Longrightarrow> nt_fired N (s_notify s) \<Longrightarrow>
    consumer_step N s ((unmark_parked s)\<lparr>s_notify := nt_drop N (s_notify s), s_phase := First 0\<rparr>)"
| again: "s_phase s = Returned \<Longrightarrow> consumer_step N s (s\<lparr>s_phase := First 0\<rparr>)"

text \<open>
  A writer task handles the consumer's read and signals after every wake-up, whatever the commands
  were. A read can fail, and it finds nothing when its task is gone.
\<close>

inductive writer_step :: "'n notify_ops \<Rightarrow> 'n sys \<Rightarrow> 'n sys \<Rightarrow> bool" for N where
  read: "s_reading s = Some p \<Longrightarrow> takes_command s p \<Longrightarrow>
    writer_step N s (handled p False (s\<lparr>s_reading := None, s_answer := Some (if available s p then Found else Missing)\<rparr>))"
| read_fails: "s_reading s = Some p \<Longrightarrow> takes_command s p \<Longrightarrow>
    writer_step N s (handled p False (s\<lparr>s_reading := None, s_answer := Some Failed\<rparr>))"
| refused: "s_reading s = Some p \<Longrightarrow> p < count s \<Longrightarrow> s_gone s ! p \<Longrightarrow>
    writer_step N s (s\<lparr>s_reading := None, s_answer := Some Failed\<rparr>)"
| pulse: "p < count s \<Longrightarrow> s_pulse s ! p \<Longrightarrow>
    writer_step N s ((signal N s)\<lparr>s_pulse := (s_pulse s)[p := False], s_batch := (s_batch s)[p := False]\<rparr>)"

text \<open>
  What the rest of the program does: a batch of appends is flushed (\<open>k = 0\<close> when that fails), another
  command is handled, retention runs, a task ends with its last signal or panics without one, other
  consumers park and unpark.
\<close>

inductive other_step :: "'n sys \<Rightarrow> 'n sys \<Rightarrow> bool" where
  flush: "takes_command s p \<Longrightarrow> \<not> s_pulse s ! p \<Longrightarrow>
    other_step s (handled p True (s\<lparr>s_hwm := (s_hwm s)[p := s_hwm s ! p + k]\<rparr>))"
| other_command: "takes_command s p \<Longrightarrow>
    other_step s (handled p False (s\<lparr>s_hwm := (s_hwm s)[p := s_hwm s ! p + k]\<rparr>))"
| retention: "p < count s \<Longrightarrow> \<not> s_pulse s ! p \<Longrightarrow> \<not> s_gone s ! p \<Longrightarrow> s_first s ! p \<le> k \<Longrightarrow> k \<le> s_hwm s ! p \<Longrightarrow>
    other_step s (s\<lparr>s_first := (s_first s)[p := k]\<rparr>)"
| finish: "p < count s \<Longrightarrow> \<not> s_pulse s ! p \<Longrightarrow> \<not> s_gone s ! p \<Longrightarrow>
    other_step s (handled p False (s\<lparr>s_gone := (s_gone s)[p := True]\<rparr>))"
| panics: "takes_command s p \<Longrightarrow>
    other_step s (s\<lparr>s_gone := (s_gone s)[p := True], s_pulse := (s_pulse s)[p := False], s_batch := (s_batch s)[p := False]\<rparr>)"
| other_parks: "s_others s < 2 ^ 64 - 2 \<Longrightarrow> other_step s ((mark_parked s)\<lparr>s_others := s_others s + 1\<rparr>)"
| other_unparks: "0 < s_others s \<Longrightarrow> other_step s ((unmark_parked s)\<lparr>s_others := s_others s - 1\<rparr>)"

definition sys_step :: "'n notify_ops \<Rightarrow> 'n sys \<Rightarrow> 'n sys \<Rightarrow> bool" where
  "sys_step N s s' \<longleftrightarrow> consumer_step N s s' \<or> writer_step N s s' \<or> other_step s s'"

definition sys_init :: "'n sys \<Rightarrow> bool" where
  "sys_init s \<longleftrightarrow>
     s_parked s = of_nat (s_others s) \<and> s_others s < 2 ^ 64 - 1 \<and> s_phase s = First 0 \<and> s_cursor s \<noteq> [] \<and>
     length (s_hwm s) = count s \<and> length (s_pulse s) = count s \<and> length (s_batch s) = count s \<and> length (s_gone s) = count s \<and>
     s_reading s = None \<and> s_answer s = None"

section \<open>The invariant\<close>

fun parked_phase :: "phase \<Rightarrow> bool" where
  "parked_phase Enabling = True"
| "parked_phase (Second i) = True"
| "parked_phase Awaiting = True"
| "parked_phase _ = False"

text \<open>The consumer is registered, and its re-scan has got an answer already.\<close>

fun registered_phase :: "phase \<Rightarrow> bool" where
  "registered_phase (Second i) = True"
| "registered_phase Awaiting = True"
| "registered_phase _ = False"

fun answered :: "phase \<Rightarrow> answer option \<Rightarrow> bool" where
  "answered (Second i) a \<longleftrightarrow> 0 < i \<or> a = Some Missing"
| "answered Awaiting a \<longleftrightarrow> True"
| "answered _ a \<longleftrightarrow> False"

definition sys_inv :: "'n notify_ops \<Rightarrow> 'n sys \<Rightarrow> bool" where
  "sys_inv N s \<longleftrightarrow>
     s_parked s = of_nat (s_others s + (if parked_phase (s_phase s) then 1 else 0)) \<and> s_others s < 2 ^ 64 - 1 \<and>
     s_cursor s \<noteq> [] \<and> length (s_hwm s) = count s \<and> length (s_pulse s) = count s \<and> length (s_batch s) = count s \<and> length (s_gone s) = count s \<and>
     (\<forall>i. s_phase s = First i \<or> s_phase s = Second i \<longrightarrow> i < count s) \<and>
     ((\<exists>i. s_phase s = First i \<or> s_phase s = Second i) \<or> s_reading s = None \<and> s_answer s = None) \<and>
     (s_reading s = None \<or> s_answer s = None) \<and>
     (registered_phase (s_phase s) \<longrightarrow> nt_waiting N (s_notify s) \<or> nt_fired N (s_notify s)) \<and>
     (answered (s_phase s) (s_answer s) \<longrightarrow> nt_fired N (s_notify s) \<or> (\<exists>q < count s. s_pulse s ! q \<and> \<not> s_batch s ! q))"

lemma sys_inv_init: "sys_init s \<Longrightarrow> sys_inv N s"
  by (auto simp: sys_init_def sys_inv_def)

lemma sys_invD:
  assumes "sys_inv N s"
  shows "s_parked s = of_nat (s_others s + (if parked_phase (s_phase s) then 1 else 0))" "s_others s < 2 ^ 64 - 1"
    "s_cursor s \<noteq> []" "length (s_hwm s) = count s" "length (s_pulse s) = count s" "length (s_gone s) = count s"
    "s_phase s = First i \<Longrightarrow> i < count s" "s_phase s = Second i \<Longrightarrow> i < count s"
    "s_reading s = None \<or> s_answer s = None"
    "registered_phase (s_phase s) \<Longrightarrow> nt_waiting N (s_notify s) \<or> nt_fired N (s_notify s)"
    "answered (s_phase s) (s_answer s) \<Longrightarrow> nt_fired N (s_notify s) \<or> (\<exists>q < count s. s_pulse s ! q \<and> \<not> s_batch s ! q)"
    "length (s_batch s) = count s"
  using assms by (simp_all add: sys_inv_def)

lemma parked_positive:
  assumes "sys_inv N s" and "parked_phase (s_phase s)"
  shows "0 < s_parked s"
proof -
  have "unat (of_nat (s_others s + 1) :: u64) = s_others s + 1"
    using sys_invD(2) [OF assms(1)] by (intro unat_u64_of_nat) simp
  then show ?thesis
    using sys_invD(1) [OF assms(1)] assms(2) by (simp add: word_less_nat_alt)
qed

lemma registered_parked: "registered_phase p \<Longrightarrow> parked_phase p" "answered p a \<Longrightarrow> registered_phase p"
  by (cases p; simp)+

lemma scanned_less: "s_cursor s \<noteq> [] \<Longrightarrow> scanned s i < count s"
  by (simp add: scanned_def)

lemma consumer_step_inv:
  assumes "consumer_step N s s'" and "sys_inv N s" and "notify_laws N"
  shows "sys_inv N s'"
  using assms(1)
proof cases
  case (ask i)
  then show ?thesis using assms(2) by (auto simp: sys_inv_def)
next
  case (found_first i)
  then show ?thesis using assms(2) by (auto simp: sys_inv_def take_record_def)
next
  case (failed_first i)
  then show ?thesis using assms(2) by (auto simp: sys_inv_def)
next
  case (missing_first i)
  then show ?thesis using assms(2) by (auto simp: sys_inv_def)
next
  case park
  then show ?thesis using assms(2) by (auto simp: sys_inv_def mark_parked_def)
next
  case enable
  then show ?thesis using assms(2,3) by (auto simp: sys_inv_def notify_laws_def)
next
  case (found_second i)
  then show ?thesis using assms(2) by (auto simp: sys_inv_def take_record_def unmark_parked_def)
next
  case (failed_second i)
  then show ?thesis using assms(2) by (auto simp: sys_inv_def unmark_parked_def)
next
  case (missing_second i)
  then show ?thesis using assms(2) by (auto simp: sys_inv_def)
next
  case woken
  then show ?thesis using assms(2) by (auto simp: sys_inv_def unmark_parked_def)
next
  case again
  then show ?thesis using assms(2) by (auto simp: sys_inv_def)
qed

text \<open>After a command a signal is owed, and none that was owed for the consumer's own read is lost.\<close>

lemma handled_frame [simp]:
  "s_parked (handled p b s) = s_parked s" "s_others (handled p b s) = s_others s" "s_phase (handled p b s) = s_phase s"
  "s_cursor (handled p b s) = s_cursor s" "s_first (handled p b s) = s_first s" "s_hwm (handled p b s) = s_hwm s"
  "s_reading (handled p b s) = s_reading s" "s_answer (handled p b s) = s_answer s" "s_notify (handled p b s) = s_notify s"
  "s_gone (handled p b s) = s_gone s" "s_scan_start (handled p b s) = s_scan_start s"
  "length (s_pulse (handled p b s)) = length (s_pulse s)" "length (s_batch (handled p b s)) = length (s_batch s)"
  by (simp_all add: handled_def)

lemma handled_owes:
  assumes "p < length (s_pulse s)" and "length (s_batch s) = length (s_pulse s)"
  shows "s_pulse (handled p False s) ! p \<and> \<not> s_batch (handled p False s) ! p"
    and "\<not> s_pulse s ! p \<Longrightarrow> s_pulse s ! q \<and> \<not> s_batch s ! q \<Longrightarrow> s_pulse (handled p b s) ! q \<and> \<not> s_batch (handled p b s) ! q"
  using assms by (auto simp: handled_def nth_list_update)

lemma handled_inv:
  assumes "sys_inv N s" and "takes_command s p" and "parked_phase (s_phase t) = parked_phase (s_phase s)"
    and "s_parked t = s_parked s" "s_others t = s_others s" "s_phase t = s_phase s" "s_cursor t = s_cursor s" "length (s_hwm t) = count s"
    "length (s_gone t) = count s" "s_pulse t = s_pulse s" "s_batch t = s_batch s" "s_notify t = s_notify s"
    and "s_reading t = s_reading s \<and> s_answer t = s_answer s \<or> s_reading t = None \<and> s_reading s \<noteq> None"
  shows "sys_inv N (handled p False t)"
proof -
  have "\<exists>q < count t. s_pulse (handled p False t) ! q \<and> \<not> s_batch (handled p False t) ! q"
    using handled_owes(1) [of p t] assms sys_invD(5,12) [OF assms(1)] by (auto simp: takes_command_def)
  moreover have "s_reading t = None \<or> s_answer t = None" "(\<exists>i. s_phase t = First i \<or> s_phase t = Second i) \<or> s_reading t = None \<and> s_answer t = None"
  proof -
    have "(\<exists>i. s_phase s = First i \<or> s_phase s = Second i) \<or> s_reading s = None \<and> s_answer s = None" "s_reading s = None \<or> s_answer s = None"
      using assms(1) by (simp_all add: sys_inv_def)
    with assms(6,13) show "s_reading t = None \<or> s_answer t = None" "(\<exists>i. s_phase t = First i \<or> s_phase t = Second i) \<or> s_reading t = None \<and> s_answer t = None"
      by (elim disjE; simp)+
  qed
  ultimately show ?thesis
    using sys_invD [OF assms(1)] assms(3-12) unfolding sys_inv_def by simp
qed

lemma writer_step_inv:
  assumes "writer_step N s s'" and "sys_inv N s" and "notify_laws N"
  shows "sys_inv N s'"
  using assms(1)
proof cases
  case (read p)
  then show ?thesis using sys_invD(4,6) [OF assms(2)] by (auto intro!: handled_inv [OF assms(2)])
next
  case (read_fails p)
  then show ?thesis using sys_invD(4,6) [OF assms(2)] by (auto intro!: handled_inv [OF assms(2)])
next
  case (refused p)
  then show ?thesis using assms(2) by (cases "s_phase s") (auto simp: sys_inv_def)
next
  case (pulse p)
  have "nt_fired N (nt_all N (s_notify s))" if "registered_phase (s_phase s)"
    using sys_invD(10) [OF assms(2) that] assms(3) by (auto simp: notify_laws_def)
  moreover have "0 < s_parked s" if "registered_phase (s_phase s)"
    using parked_positive [OF assms(2) registered_parked(1) [OF that]] .
  ultimately have "registered_phase (s_phase s) \<longrightarrow> nt_fired N (s_notify (signal N s))"
    by (simp add: signal_def)
  moreover have "s_parked (signal N s) = s_parked s" "s_others (signal N s) = s_others s" "s_phase (signal N s) = s_phase s"
    "s_cursor (signal N s) = s_cursor s" "s_hwm (signal N s) = s_hwm s" "s_reading (signal N s) = s_reading s"
    "s_answer (signal N s) = s_answer s" "s_gone (signal N s) = s_gone s"
    by (simp_all add: signal_def)
  ultimately show ?thesis
    using pulse(1) assms(2) registered_parked(2) by (auto simp: sys_inv_def)
qed

lemma other_step_inv:
  assumes "other_step s s'" and "sys_inv N s"
  shows "sys_inv N s'"
  using assms(1)
proof cases
  case (flush p k)
  let ?t = "s\<lparr>s_hwm := (s_hwm s)[p := s_hwm s ! p + k]\<rparr>"
  have "s_pulse (handled p True ?t) ! q \<and> \<not> s_batch (handled p True ?t) ! q" if "s_pulse s ! q \<and> \<not> s_batch s ! q" for q
    using handled_owes(2) [of p ?t q True] flush that sys_invD(5,12) [OF assms(2)] by (auto simp: takes_command_def)
  with flush(1) show ?thesis using assms(2) by (auto simp: sys_inv_def)
next
  case (other_command p k)
  then show ?thesis using sys_invD(4,6) [OF assms(2)] by (auto intro!: handled_inv [OF assms(2)])
next
  case (retention p k)
  then show ?thesis using assms(2) by (auto simp: sys_inv_def)
next
  case (finish p)
  then have "takes_command s p"
    by (simp add: takes_command_def)
  with finish show ?thesis using sys_invD(4,6) [OF assms(2)] by (auto intro!: handled_inv [OF assms(2)])
next
  case (panics p)
  then have "(s_pulse s)[p := False] ! q \<and> \<not> (s_batch s)[p := False] ! q" if "s_pulse s ! q \<and> \<not> s_batch s ! q" for q
    using that sys_invD(5,12) [OF assms(2)] by (cases "q = p") (auto simp: takes_command_def)
  with panics(1) show ?thesis using assms(2) by (auto simp: sys_inv_def)
next
  case other_parks
  then show ?thesis using assms(2) by (auto simp: sys_inv_def mark_parked_def)
next
  case other_unparks
  then show ?thesis using assms(2) by (auto simp: sys_inv_def unmark_parked_def of_nat_diff)
qed

lemma sys_steps_inv:
  assumes "(sys_step N)\<^sup>*\<^sup>* s s'" and "sys_inv N s" and "notify_laws N"
  shows "sys_inv N s'"
  using assms(1,2)
  by (induction rule: rtranclp_induct)
    (auto simp: sys_step_def intro: consumer_step_inv [OF _ _ assms(3)] writer_step_inv [OF _ _ assms(3)] other_step_inv)

section \<open>A consumer at the tail\<close>

text \<open>
  Steps of the consumer and of the writers on its behalf only; nobody else does anything. \<open>caught_up\<close>:
  no partition has a record at the consumer's cursor, and all writers run.
\<close>

definition idle_step :: "'n notify_ops \<Rightarrow> 'n sys \<Rightarrow> 'n sys \<Rightarrow> bool" where
  "idle_step N s s' \<longleftrightarrow> consumer_step N s s' \<or> writer_step N s s'"

definition caught_up :: "'n sys \<Rightarrow> bool" where
  "caught_up s \<longleftrightarrow> (\<forall>p < count s. \<not> available s p \<and> \<not> s_gone s ! p)"

definition same_data :: "'n sys \<Rightarrow> 'n sys \<Rightarrow> bool" where
  "same_data s s' \<longleftrightarrow> s_cursor s' = s_cursor s \<and> s_first s' = s_first s \<and> s_hwm s' = s_hwm s \<and> s_gone s' = s_gone s"

lemma same_data_trans: "same_data s t \<Longrightarrow> same_data t u \<Longrightarrow> same_data s u"
  by (simp add: same_data_def)

lemma caught_up_same: "same_data s t \<Longrightarrow> caught_up s \<Longrightarrow> caught_up t"
  by (simp add: same_data_def caught_up_def available_def)

lemma signal_frame [simp]:
  "s_phase (signal N s) = s_phase s" "s_cursor (signal N s) = s_cursor s" "s_first (signal N s) = s_first s" "s_hwm (signal N s) = s_hwm s"
  "s_gone (signal N s) = s_gone s" "s_reading (signal N s) = s_reading s" "s_answer (signal N s) = s_answer s"
  "s_scan_start (signal N s) = s_scan_start s" "s_pulse (signal N s) = s_pulse s" "s_batch (signal N s) = s_batch s"
  by (simp_all add: signal_def)

lemma idle_inv: "(idle_step N)\<^sup>*\<^sup>* s t \<Longrightarrow> notify_laws N \<Longrightarrow> sys_inv N s \<Longrightarrow> sys_inv N t"
  by (induction rule: rtranclp_induct) (auto simp: idle_step_def intro: consumer_step_inv writer_step_inv)

lemma idle_consumer: "consumer_step N s t \<Longrightarrow> (idle_step N)\<^sup>*\<^sup>* s t"
  and idle_writer: "writer_step N s t \<Longrightarrow> (idle_step N)\<^sup>*\<^sup>* s t"
  by (auto simp: idle_step_def)

text \<open>One partition of a scan: ask, let the writer answer, and go on to the next.\<close>

lemma idle_probe:
  assumes "s_phase s = First i \<or> s_phase s = Second i" and "sys_inv N s" and "notify_laws N" and "caught_up s"
    and "s_reading s = None" and "s_answer s = None"
  shows "\<exists>t. (idle_step N)\<^sup>*\<^sup>* s t \<and> same_data s t \<and> s_reading t = None \<and> s_answer t = Some Missing \<and> s_phase t = s_phase s"
proof -
  let ?p = "scanned s i"
  have i: "i < count s" and p: "?p < count s"
    using assms(1) sys_invD(3,7,8) [OF assms(2)] scanned_less by auto
  define s1 where "s1 = (if s_pulse s ! ?p then (signal N s)\<lparr>s_pulse := (s_pulse s)[?p := False], s_batch := (s_batch s)[?p := False]\<rparr> else s)"
  define s2 where "s2 = s1\<lparr>s_reading := Some ?p\<rparr>"
  have len: "length (s_pulse s) = count s"
    by (rule sys_invD(5) [OF assms(2)])
  have 1: "(idle_step N)\<^sup>*\<^sup>* s s1"
    using writer_step.pulse [OF p, of N] by (auto simp: s1_def idle_step_def)
  have f: "s_phase s1 = s_phase s" "s_cursor s1 = s_cursor s" "s_first s1 = s_first s" "s_hwm s1 = s_hwm s" "s_gone s1 = s_gone s" "s_reading s1 = None"
    "s_answer s1 = None" "s_scan_start s1 = s_scan_start s" "\<not> s_pulse s1 ! ?p"
    using assms(5,6) p len by (simp_all add: s1_def)
  have "consumer_step N s1 s2"
    unfolding s2_def using consumer_step.ask [of s1 i N] f assms(1) i by (simp add: scanned_def)
  then have 2: "(idle_step N)\<^sup>*\<^sup>* s1 s2"
    by (rule idle_consumer)
  define s3 where "s3 = handled ?p False (s2\<lparr>s_reading := None, s_answer := Some Missing\<rparr>)"
  have "takes_command s2 ?p" "\<not> available s2 ?p"
    using f p assms(4) by (simp_all add: s2_def caught_up_def takes_command_def available_def)
  then have "writer_step N s2 s3"
    using writer_step.read [of s2 ?p N] by (simp add: s2_def s3_def)
  then have 3: "(idle_step N)\<^sup>*\<^sup>* s2 s3"
    by (rule idle_writer)
  have "(idle_step N)\<^sup>*\<^sup>* s s3"
    using 1 2 3 by (meson rtranclp_trans)
  moreover have "same_data s s3" "s_reading s3 = None" "s_answer s3 = Some Missing" "s_phase s3 = s_phase s"
    using f by (simp_all add: same_data_def s2_def s3_def)
  ultimately show ?thesis
    by blast
qed

text \<open>A whole scan, the first or the second one.\<close>

lemma idle_scan:
  assumes "phase_at = First \<and> after = Parking \<or> phase_at = Second \<and> after = Awaiting"
    and "s_phase s = phase_at i" and "sys_inv N s" and "notify_laws N" and "caught_up s" and "s_reading s = None" and "s_answer s = None"
  shows "\<exists>t. (idle_step N)\<^sup>*\<^sup>* s t \<and> same_data s t \<and> s_phase t = after \<and> s_reading t = None \<and> s_answer t = None"
  using assms(2-)
proof (induction "count s - i" arbitrary: s i rule: less_induct)
  case less
  have ph: "s_phase s = First i \<or> s_phase s = Second i"
    using assms(1) less.prems(1) by auto
  have i: "i < count s"
    using ph sys_invD(7,8) [OF less.prems(2)] by auto
  obtain t where t: "(idle_step N)\<^sup>*\<^sup>* s t" "same_data s t" "s_reading t = None" "s_answer t = Some Missing" "s_phase t = s_phase s"
    using idle_probe [OF ph less.prems(2-6)] by blast
  define u where "u = t\<lparr>s_answer := None, s_phase := (if i + 1 < count t then phase_at (i + 1) else after)\<rparr>"
  have n: "count t = count s"
    using t(2) by (simp add: same_data_def)
  have "consumer_step N t u"
    using assms(1) t(4,5) less.prems(1) consumer_step.missing_first [of t i N] consumer_step.missing_second [of t i N] by (auto simp: u_def)
  then have su: "(idle_step N)\<^sup>*\<^sup>* s u"
    using rtranclp_trans [OF t(1) idle_consumer] by blast
  have u: "same_data s u" "s_reading u = None" "s_answer u = None"
    using t(2,3) by (simp_all add: u_def same_data_def)
  show ?case
  proof (cases "i + 1 < count s")
    case True
    have "s_phase u = phase_at (i + 1)" "count u - (i + 1) < count s - i"
      using True i n by (simp_all add: u_def)
    from less.hyps [OF this(2,1) idle_inv [OF su less.prems(3,2)] less.prems(3) caught_up_same [OF u(1) less.prems(4)] u(2,3)]
    obtain v where "(idle_step N)\<^sup>*\<^sup>* u v" "same_data u v" "s_phase v = after" "s_reading v = None" "s_answer v = None"
      by blast
    then show ?thesis
      using rtranclp_trans [OF su] same_data_trans [OF u(1)] by blast
  next
    case False
    then have "s_phase u = after"
      using n by (simp add: u_def)
    with su u show ?thesis
      by blast
  qed
qed

text \<open>From the start of the loop to the wait, and from the wait back to the start.\<close>

lemma idle_round:
  assumes "notify_laws N" and "sys_inv N s" and "s_phase s = First 0" and "caught_up s" and "s_reading s = None" and "s_answer s = None"
  shows "\<exists>t. (idle_step N)\<^sup>*\<^sup>* s t \<and> same_data s t \<and> s_phase t = Awaiting"
proof -
  obtain c where c: "(idle_step N)\<^sup>*\<^sup>* s c" "same_data s c" "s_phase c = Parking" "s_reading c = None" "s_answer c = None"
    using idle_scan [of First Parking s 0] assms by auto
  define d where "d = (mark_parked c)\<lparr>s_phase := Enabling\<rparr>"
  define e where "e = d\<lparr>s_notify := nt_enable N (s_notify d), s_phase := Second 0\<rparr>"
  have "idle_step N c d" "idle_step N d e"
    using consumer_step.park [OF c(3), of N] consumer_step.enable [of d N] by (simp_all add: d_def e_def idle_step_def)
  then have se: "(idle_step N)\<^sup>*\<^sup>* s e"
    using c(1) by (meson rtranclp.rtrancl_into_rtrancl)
  have e: "same_data s e" "s_phase e = Second 0" "s_reading e = None" "s_answer e = None"
    using c by (simp_all add: e_def d_def same_data_def mark_parked_def)
  obtain t where "(idle_step N)\<^sup>*\<^sup>* e t" "same_data e t" "s_phase t = Awaiting"
    using idle_scan [of Second Awaiting e 0] e idle_inv [OF se assms(1,2)] assms(1) caught_up_same [OF e(1) assms(4)] by auto
  then show ?thesis
    using rtranclp_trans [OF se] same_data_trans [OF e(1)] by blast
qed

lemma idle_wake:
  assumes "notify_laws N" and "sys_inv N s" and "s_phase s = Awaiting"
  shows "\<exists>t. (idle_step N)\<^sup>+\<^sup>+ s t \<and> same_data s t \<and> s_phase t = First 0 \<and> s_reading t = None \<and> s_answer t = None"
proof -
  have none: "s_reading s = None" "s_answer s = None"
    using assms(2,3) by (auto simp: sys_inv_def)
  have fires: "nt_fired N (s_notify (signal N s))"
    using assms(1,3) parked_positive [OF assms(2)] sys_invD(10) [OF assms(2)] by (auto simp: signal_def notify_laws_def)
  obtain a where a: "(idle_step N)\<^sup>*\<^sup>* s a" "same_data s a" "s_phase a = Awaiting" "nt_fired N (s_notify a)" "s_reading a = None" "s_answer a = None"
  proof (cases "nt_fired N (s_notify s)")
    case True
    with that [of s] assms(3) none show thesis by (simp add: same_data_def)
  next
    case False
    then obtain q where q: "q < count s" "s_pulse s ! q"
      using sys_invD(11) [OF assms(2)] assms(3) by auto
    show thesis
      using that [OF idle_writer [OF writer_step.pulse [OF q, of N]]] fires none assms(3) by (simp add: same_data_def)
  qed
  define b where "b = (unmark_parked a)\<lparr>s_notify := nt_drop N (s_notify a), s_phase := First 0\<rparr>"
  have "(idle_step N)\<^sup>+\<^sup>+ s b"
    using a(1) consumer_step.woken [OF a(3,4)] by (auto simp: b_def idle_step_def intro: rtranclp_into_tranclp1)
  moreover have "same_data s b" "s_phase b = First 0" "s_reading b = None" "s_answer b = None"
    using a by (simp_all add: b_def same_data_def unmark_parked_def)
  ultimately show ?thesis
    by blast
qed

section \<open>Properties\<close>


text \<open>
  C36: an idle consumer does not sleep. A consumer that waits at the tail of every partition, with
  nobody appending anything, is woken by the signal that follows its own re-scan; it scans twice and
  waits again, and so for ever. The documentation says it suspends rather than spins, and that
  writers signal when the high-water mark advances.
\<close>

theorem idle_consumer_spins:
  assumes "notify_laws N" and "sys_init s0" and "(sys_step N)\<^sup>*\<^sup>* s0 s" and "s_phase s = Awaiting" and "caught_up s"
  shows "\<exists>s'. (idle_step N)\<^sup>+\<^sup>+ s s' \<and> s_phase s' = Awaiting \<and> caught_up s' \<and> same_data s s'"
proof -
  have inv: "sys_inv N s"
    by (rule sys_steps_inv [OF assms(3) sys_inv_init [OF assms(2)] assms(1)])
  obtain b where b: "(idle_step N)\<^sup>+\<^sup>+ s b" "same_data s b" "s_phase b = First 0" "s_reading b = None" "s_answer b = None"
    using idle_wake [OF assms(1) inv assms(4)] by blast
  have "sys_inv N b"
    by (rule idle_inv [OF tranclp_into_rtranclp [OF b(1)] assms(1) inv])
  from idle_round [OF assms(1) this b(3) caught_up_same [OF b(2) assms(5)] b(4,5)]
  obtain t where t: "(idle_step N)\<^sup>*\<^sup>* b t" "same_data b t" "s_phase t = Awaiting"
    by blast
  have "(idle_step N)\<^sup>+\<^sup>+ s t"
    using b(1) t(1) by (rule tranclp_rtranclp_tranclp)
  moreover have "same_data s t"
    by (rule same_data_trans [OF b(2) t(2)])
  ultimately show ?thesis
    using t(3) caught_up_same [OF _ assms(5)] by blast
qed

section \<open>A consumer of one partition, to evaluate the statements on\<close>

definition demo_notify :: "(bool \<times> bool) notify_ops" where
  "demo_notify = \<lparr>nt_enable = (\<lambda>_. (True, False)), nt_all = (\<lambda>(w, f). (False, w \<or> f)), nt_drop = (\<lambda>_. (False, False)),
     nt_waiting = fst, nt_fired = snd\<rparr>"

definition demo_sys :: "(bool \<times> bool) sys" where
  "demo_sys = \<lparr>s_parked = 0, s_others = 0, s_notify = (False, False), s_phase = First 0, s_scan_start = 0, s_cursor = [3],
     s_first = [0], s_hwm = [3], s_reading = None, s_answer = None, s_pulse = [False], s_batch = [False], s_gone = [False]\<rparr>"

lemma demo_wait:
  obtains s where "notify_laws demo_notify" "sys_init demo_sys" "(sys_step demo_notify)\<^sup>*\<^sup>* demo_sys s" "s_phase s = Awaiting" "caught_up s"
proof -
  have laws: "notify_laws demo_notify" and init: "sys_init demo_sys" and up: "caught_up demo_sys"
    by (auto simp: notify_laws_def demo_notify_def sys_init_def demo_sys_def caught_up_def available_def)
  obtain s where s: "(idle_step demo_notify)\<^sup>*\<^sup>* demo_sys s" "same_data demo_sys s" "s_phase s = Awaiting"
    using idle_round [OF laws sys_inv_init [OF init] _ up] by (auto simp: demo_sys_def)
  have "(sys_step demo_notify)\<^sup>*\<^sup>* demo_sys s"
    using s(1) by (rule rtranclp_mono [THEN predicate2D, rotated]) (auto simp: idle_step_def sys_step_def)
  with that [OF laws init] s caught_up_same [OF s(2) up] show thesis
    by blast
qed


lemma idle_consumer_spins_witness:
  "\<exists>s s'. (sys_step demo_notify)\<^sup>*\<^sup>* demo_sys s \<and> s_phase s = Awaiting \<and> (idle_step demo_notify)\<^sup>+\<^sup>+ s s' \<and> s_phase s' = Awaiting \<and> same_data s s'"
proof (rule demo_wait)
  fix s
  assume s: "notify_laws demo_notify" "sys_init demo_sys" "(sys_step demo_notify)\<^sup>*\<^sup>* demo_sys s" "s_phase s = Awaiting" "caught_up s"
  from idle_consumer_spins [OF this] s(3,4) show ?thesis
    by blast
qed

end
