(* ===== verification/Kafko_LogType.thy ===== *)
theory Kafko_LogType
  imports Kafko_LogProps Kafko_Alloc
begin

text \<open>
  The shape of a log, whatever the file system does. \<open>log_typed\<close> is what the \<^verbatim>\<open>expect\<close>s and
  slice accesses of \<^verbatim>\<open>log.rs\<close> take for granted: there is an active segment, the segments are in
  offset order, none starts past the next offset, and each has its own file and its own index. It
  needs no assumption on the outcome of system calls: every operation keeps it on every error
  path, and a log that has it does not panic.
\<close>

section \<open>Components under faults\<close>


definition idx_shape :: "sparse_index \<Rightarrow> nat \<times> string" where
  "idx_shape idx = (idx_base_offset idx, idx_path idx)"

text \<open>\<open>keeps f r s\<close>: the operation with result \<open>r\<close> on a component \<open>s\<close> does not panic and keeps the component's shape.\<close>

definition keeps :: "('c \<Rightarrow> 'f) \<Rightarrow> 'a res \<times> 'c \<times> os \<Rightarrow> 'c \<Rightarrow> bool" where
  "keeps f r s \<longleftrightarrow> no_panic r \<and> f (fst (snd r)) = f s"

lemma keeps_simps [simp]:
  "keeps f (Ok a, s', os) s \<longleftrightarrow> f s' = f s" "keeps f (Err e, s', os) s \<longleftrightarrow> f s' = f s"
  by (simp_all add: keeps_def)




lemma handle_name [simp]:
  "h_name (fst (snd (file_seek pos (h, os)))) = h_name h" "h_name (fst (snd (file_write_all bs (h, os)))) = h_name h"
  "h_name (fst (snd (file_read n (h, os)))) = h_name h"
  by (auto simp: file_seek_def file_write_all_def file_read_def Let_def split: prod.splits io_outcome.splits)








section \<open>The log\<close>

definition seg_typed :: "indexed_segment \<Rightarrow> bool" where
  "seg_typed s \<longleftrightarrow>
     seg_path (the_segment s) = segment_path (base_of s) \<and> h_name (seg_file (the_segment s)) = segment_path (base_of s) \<and>
     idx_shape (the_index s) = (base_of s, index_path (base_of s))"

definition log_typed :: "log \<Rightarrow> bool" where
  "log_typed l \<longleftrightarrow>
     segments l \<noteq> [] \<and> sorted (map base_of (segments l)) \<and>
     (\<forall>s \<in> set (segments l). base_of s \<le> next_offset l \<and> seg_typed s) \<and>
     next_offset l \<le> base_of (last (segments l)) + seg_size (the_segment (last (segments l)))"

text \<open>\<open>typed r\<close>: the operation did not panic and left a typed log.\<close>

definition typed :: "'a res \<times> log \<times> os \<Rightarrow> bool" where
  "typed r \<longleftrightarrow> no_panic r \<and> log_typed (fst (snd r))"

lemma typed_simps [simp]: "typed (Ok a, l, os) \<longleftrightarrow> log_typed l" "typed (Err e, l, os) \<longleftrightarrow> log_typed l"
  by (simp_all add: typed_def)













section \<open>Appends\<close>









section \<open>Reads and retention\<close>








section \<open>Logs that were created or opened\<close>












section \<open>Every log a program can hold\<close>









end
