(* ===== verification/Kafko_Salvage.thy ===== *)
theory Kafko_Salvage
  imports Kafko_Recovery
begin

text \<open>
  \<^verbatim>\<open>Log::open\<close> on a segment file of arbitrary bytes. \<open>Kafko_Recovery\<close> describes what recovery
  makes of the files a crash leaves behind; here the bytes are anyone's. A record read from them
  may depend on what follows it (its length field need not agree with its other fields), so the
  content of a recovered segment is a chain of decodes rather than a list of frames.
\<close>

section \<open>Chains of decodes\<close>

fun chain :: "deps \<Rightarrow> framed list \<Rightarrow> bool" where
  "chain D [] \<longleftrightarrow> True"
| "chain D ((f, r) # gs) \<longleftrightarrow> f \<noteq> [] \<and> decode D (f @ wire gs) = (Ok r, wire gs) \<and> chain D gs"

lemma chain_drop: "chain D gs \<Longrightarrow> chain D (drop j gs)"
  by (induction D gs arbitrary: j rule: chain.induct) (auto simp: drop_Cons split: nat.split)

lemma chain_wire_Nil: "chain D gs \<Longrightarrow> wire gs = [] \<longleftrightarrow> gs = []"
  by (cases gs) auto

lemma decode_splits:
  assumes "decode D c = (Ok r, rest)"
  obtains f where "c = f @ rest" "f \<noteq> []"
proof -
  obtain n where "4 \<le> n" "n \<le> length c" "rest = drop n c"
    using decode_consumes [OF assms] by blast
  then show thesis
    using that [of "take n c"] by (cases c) auto
qed

lemma decode_cases:
  obtains r rest f where "decode D c = (Ok r, rest)" "c = f @ rest" "f \<noteq> []"
  | e rest where "decode D c = (Err e, rest)"
proof (cases "fst (decode D c)")
  case (Ok r)
  then have "decode D c = (Ok r, snd (decode D c))"
    by (simp add: prod_eq_iff)
  then show thesis
    using that(1) decode_splits by metis
next
  case (Err e)
  then show thesis
    using that(2) [of e "snd (decode D c)"] by (simp add: prod_eq_iff)
next
  case (Panic m)
  then show thesis
    using no_panic_decode [of D c] by (simp add: no_panic_def)
qed

lemma read_loop_chain:
  assumes "chain D gs" and "cur \<le> offset" and "offset - cur < length gs"
  shows "read_loop D offset cur (wire gs) = Ok (Some (snd (gs ! (offset - cur))))"
  using assms
proof (induction D gs arbitrary: cur rule: chain.induct)
  case (2 D f r gs)
  show ?case
  proof (cases "cur = offset")
    case True
    with 2 show ?thesis by (subst read_loop.simps) simp
  next
    case False
    with 2 have "read_loop D offset cur (wire ((f, r) # gs)) = read_loop D offset (Suc cur) (wire gs)"
      by (subst read_loop.simps) simp
    also have "\<dots> = Ok (Some (snd (gs ! (offset - Suc cur))))"
      using 2 False by simp
    finally show ?thesis
      using 2 False by (simp add: nth_Cons' Suc_diff_Suc)
  qed
qed simp

section \<open>The two passes over the segment\<close>

lemma scan_loop_cases:
  "(\<exists>e. scan_loop D c p = Err e) \<or> (\<exists>n. n \<le> length c \<and> scan_loop D c p = Ok (p + n))"
proof (induction D c p rule: scan_loop.induct)
  case (1 D c p)
  show ?case
  proof (cases c rule: decode_cases [of D])
    case (1 r rest f)
    with "1.IH" [OF _ 1(1) [symmetric] refl] have
      "(\<exists>e. scan_loop D rest (p + length f) = Err e) \<or> (\<exists>n. n \<le> length rest \<and> scan_loop D rest (p + length f) = Ok (p + length f + n))"
      by simp
    moreover have "scan_loop D c p = scan_loop D rest (p + length f)"
      using 1 by (subst scan_loop.simps) simp
    ultimately show ?thesis
      using 1(2) by (simp add: add.assoc) (metis add_le_cancel_left)
  next
    case (2 e rest)
    then have "(\<exists>e'. scan_loop D c p = Err e') \<or> scan_loop D c p = Ok p"
      by (cases "c = []"; cases e) (simp_all add: scan_loop.simps [of D c p] scan_loop.simps [of D "[]" p])
    then show ?thesis
      by (metis add.right_neutral le0)
  qed
qed

lemma replay_loop_cases:
  assumes "os_faults os = []" and "index_ok os idx sizes" and "pos = sum_list sizes" and "length sizes \<le> pos"
    and "pos + length c < 2 ^ 32"
  shows "(\<exists>e s. replay_loop D (idx_base_offset idx) c pos (length sizes) (idx, os) = (Err e, s)) \<or>
    (\<exists>gs idx' os'. c = wire gs \<and> chain D gs \<and>
       replay_loop D (idx_base_offset idx) c pos (length sizes) (idx, os) = (Ok (length sizes + length gs), idx', os') \<and>
       index_ok os' idx' (sizes @ frame_sizes gs) \<and> only_touches {idx_path idx} os os' \<and> idx_base_offset idx' = idx_base_offset idx)"
  using assms
proof (induction "length c" arbitrary: c pos sizes idx os rule: less_induct)
  case less
  show ?case
  proof (cases "c = []")
    case True
    with less.prems show ?thesis
      by (intro disjI2 exI [of _ "[]"] exI [of _ idx] exI [of _ os]) (simp add: replay_loop.simps)
  next
    case False
    show ?thesis
    proof (cases c rule: decode_cases [of D])
      case (1 r rest f)
      from track_append_ok [OF less.prems(1,2) refl less.prems(3), of "length f"] less.prems(4,5) obtain idx1 os1 where
        t: "track_append (idx_base_offset idx + length sizes) pos (length f) (idx, os) = (Ok (), idx1, os1)"
           "only_touches {idx_path idx} os os1" "index_ok os1 idx1 (sizes @ [length f])" "idx_path idx1 = idx_path idx"
           "idx_base_offset idx1 = idx_base_offset idx"
        by auto
      have step: "replay_loop D (idx_base_offset idx) c pos (length sizes) (idx, os) =
          replay_loop D (idx_base_offset idx1) rest (pos + length f) (length (sizes @ [length f])) (idx1, os1)"
        using 1 False t(1,5) by (subst replay_loop.simps) (simp add: Let_def)
      have "length rest < length c" "length (sizes @ [length f]) \<le> pos + length f" "pos + length f + length rest < 2 ^ 32"
        using 1 less.prems(4,5) by (cases f; simp)+
      from less.hyps [OF this(1) _ t(3) _ this(2,3)] less.prems(1,3) only_touchesD(4) [OF t(2)]
      consider e s where "replay_loop D (idx_base_offset idx) c pos (length sizes) (idx, os) = (Err e, s)"
        | gs idx2 os2 where "rest = wire gs" "chain D gs"
          "replay_loop D (idx_base_offset idx) c pos (length sizes) (idx, os) = (Ok (length (sizes @ [length f]) + length gs), idx2, os2)"
          "index_ok os2 idx2 ((sizes @ [length f]) @ frame_sizes gs)" "only_touches {idx_path idx} os1 os2" "idx_base_offset idx2 = idx_base_offset idx"
        unfolding step t(4,5) by auto
      then show ?thesis
      proof cases
        case (2 gs idx2 os2)
        with 1 t(2) only_touches_trans [OF t(2) 2(5)] show ?thesis
          by (intro disjI2 exI [of _ "(f, r) # gs"] exI [of _ idx2] exI [of _ os2]) auto
      qed blast
    next
      case (2 e rest)
      with False show ?thesis
        by (subst replay_loop.simps) simp
    qed
  qed
qed


section \<open>Recovering the segment\<close>

lemma scan_for_last_valid_position_cases:
  assumes "os_faults os = []" and "segment_ok os seg c" and "length c \<le> os_read_limit os"
  shows "(\<exists>e s. scan_for_last_valid_position D (seg, os) = (Err e, s)) \<or>
    (\<exists>n seg'. n \<le> length c \<and> scan_for_last_valid_position D (seg, os) = (Ok n, seg', os) \<and> segment_ok os seg' c \<and>
       seg_path seg' = seg_path seg \<and> seg_base_offset seg' = seg_base_offset seg)"
proof (cases "c = []")
  case True
  with assms(2) show ?thesis
    by (auto simp: scan_for_last_valid_position_def segment_ok_def)
next
  case False
  have "seg_size seg = length c"
    using assms(2) by (simp add: segment_ok_def)
  with False read_whole_ok [OF assms] scan_loop_cases [of D c 0] show ?thesis
    by (auto simp: scan_for_last_valid_position_def Let_def)
qed

lemma replay_records_to_index_cases:
  assumes nf: "os_faults os = []" and seg: "segment_ok os seg c" and idx: "index_ok os idx []"
    and limit: "length c \<le> os_read_limit os" and small: "length c < 2 ^ 32" and base: "idx_base_offset idx = base"
    and apart: "seg_path seg \<noteq> idx_path idx"
  shows "(\<exists>e s. replay_records_to_index D base idx (seg, os) = (Err e, s)) \<or>
    (\<exists>gs idx' seg' os'. replay_records_to_index D base idx (seg, os) = (Ok (idx', length gs), seg', os') \<and> c = wire gs \<and> chain D gs \<and>
       segment_ok os' seg' c \<and> index_ok os' idx' (frame_sizes gs) \<and> only_touches {idx_path idx} os os' \<and>
       seg_base_offset seg' = seg_base_offset seg \<and> idx_base_offset idx' = base)"
proof (cases "c = []")
  case True
  with assms show ?thesis
    by (intro disjI2 exI [of _ "[]"] exI [of _ idx] exI [of _ seg] exI [of _ os]) (auto simp: replay_records_to_index_def segment_ok_def)
next
  case False
  obtain seg' where rd: "read_whole (length c) (seg, os) = (Ok c, seg', os)" "segment_ok os seg' c"
    "seg_path seg' = seg_path seg" "seg_base_offset seg' = seg_base_offset seg"
    using read_whole_ok [OF nf seg limit] by blast
  have "seg_size seg = length c"
    using seg by (simp add: segment_ok_def)
  with False rd(1) have eq: "replay_records_to_index D base idx (seg, os) =
      (case replay_loop D base c 0 0 (idx, os) of
         (Ok n, idx, os) \<Rightarrow> (Ok (idx, n), seg', os)
       | (Err e, idx, os) \<Rightarrow> (Err e, seg', os)
       | (Panic m, idx, os) \<Rightarrow> (Panic m, seg', os))"
    by (simp add: replay_records_to_index_def Let_def)
  from replay_loop_cases [OF nf idx, of 0 c D] small base
  consider e i o' where "replay_loop D base c 0 0 (idx, os) = (Err e, i, o')"
    | gs idx' os' where "replay_loop D base c 0 0 (idx, os) = (Ok (length gs), idx', os')" "c = wire gs" "chain D gs"
       "index_ok os' idx' (frame_sizes gs)" "only_touches {idx_path idx} os os'" "idx_base_offset idx' = base"
    by auto
  then show ?thesis
  proof cases
    case 1
    with eq show ?thesis by auto
  next
    case (2 gs idx' os')
    with eq segment_ok_frame [OF rd(2) 2(5)] apart rd(3,4) show ?thesis
      by (intro disjI2 exI [of _ gs] exI [of _ idx'] exI [of _ seg'] exI [of _ os']) simp
  qed
qed


lemma recover_active_segment_cases:
  assumes nf: "os_faults os = []" and content: "os_content os (segment_path base) = Some c"
    and limit: "length c \<le> os_read_limit os" and small: "length c < 2 ^ 32"
  obtains (failed) e os' where "recover_active_segment D base ival os = (Err e, os')"
  | (salvaged) seg idx gs n os' where "recover_active_segment D base ival os = (Ok (seg, idx, length gs), os')"
      "wire gs = take n c" "chain D gs" "segment_ok os' seg (wire gs)" "index_ok os' idx (frame_sizes gs)"
      "seg_base_offset seg = base" "idx_base_offset idx = base" "only_touches (own_files base) os os'"
proof -
  from scan_for_last_valid_position_cases [OF nf opened_segment_ok(2) [OF nf content] limit, of D]
  consider e s where "scan_for_last_valid_position D (opened_segment base c, os) = (Err e, s)"
    | n seg1 where "n \<le> length c" "scan_for_last_valid_position D (opened_segment base c, os) = (Ok n, seg1, os)" "segment_ok os seg1 c"
      "seg_base_offset seg1 = base"
    by auto
  then show thesis
  proof cases
    case (1 e s)
    with opened_segment_ok(1) [OF nf content] failed show thesis by (cases s) (simp add: recover_active_segment_def)
  next
    case (2 n seg1)
    obtain seg2 os4 where r: "recover_active_segment D base ival os =
        (case replay_records_to_index D base (empty_index base ival) (seg2, os4) of
           (Err e, seg, os) \<Rightarrow> (Err e, os)
         | (Panic m, seg, os) \<Rightarrow> (Panic m, os)
         | (Ok (idx, record_count), seg, os) \<Rightarrow> (Ok (seg, idx, record_count), os))"
      "segment_ok os4 seg2 (take n c)" "index_ok os4 (empty_index base ival) []" "seg_base_offset seg2 = base" "seg_path seg2 = segment_path base"
      "only_touches (own_files base) os os4"
      by (rule recover_after_scan [OF nf content 2, of ival]) blast
    have "os_faults os4 = []" "length (take n c) \<le> os_read_limit os4" "length (take n c) < 2 ^ 32" "seg_path seg2 \<noteq> idx_path (empty_index base ival)"
      using nf limit small only_touchesD(4,6) [OF r(6)] r(5) by auto
    from replay_records_to_index_cases [OF this(1) r(2,3) this(2,3) _ this(4), of base D]
    consider e s where "replay_records_to_index D base (empty_index base ival) (seg2, os4) = (Err e, s)"
      | gs idx seg os5 where "replay_records_to_index D base (empty_index base ival) (seg2, os4) = (Ok (idx, length gs), seg, os5)"
        "take n c = wire gs" "chain D gs" "segment_ok os5 seg (take n c)" "index_ok os5 idx (frame_sizes gs)"
        "only_touches {index_path base} os4 os5" "seg_base_offset seg = base" "idx_base_offset idx = base"
      unfolding r(4) empty_index_simps by blast
    then show thesis
    proof cases
      case (1 e s)
      with r(1) failed show thesis by (cases s) simp
    next
      case (2 gs idx seg os5)
      with r(1) salvaged [of seg idx gs os5 n] only_touches_trans [OF r(6) 2(6)] show thesis
        by (simp add: own_files_def insert_absorb insert_commute)
    qed
  qed
qed

section \<open>A log recovered from arbitrary bytes\<close>

definition salvaged :: "deps \<Rightarrow> log \<Rightarrow> os \<Rightarrow> framed list \<Rightarrow> bool" where
  "salvaged D l os gs \<longleftrightarrow>
     (\<exists>s. segments l = [s] \<and> base_of s = 0 \<and> segment_ok os (the_segment s) (wire gs) \<and>
          index_ok os (the_index s) (frame_sizes gs) \<and> idx_base_offset (the_index s) = 0) \<and>
     chain D gs \<and> next_offset l = length gs \<and> length (wire gs) \<le> os_read_limit os \<and> os_faults os = []"

lemma salvaged_read:
  assumes sal: "salvaged D l os gs" and lt: "offset < length gs"
  shows "\<exists>l'. read_record_at D offset (l, os) = (Ok (Some (snd (gs ! offset))), l', os) \<and> salvaged D l' os gs"
proof -
  obtain s where l: "segments l = [s]" "base_of s = 0" and seg: "segment_ok os (the_segment s) (wire gs)"
    and idx: "index_ok os (the_index s) (frame_sizes gs)" "idx_base_offset (the_index s) = 0"
    and ch: "chain D gs" and nxt: "next_offset l = length gs" and lim: "length (wire gs) \<le> os_read_limit os" and nf: "os_faults os = []"
    using sal by (auto simp: salvaged_def)
  obtain j where j: "lookup (the_index s) offset = (length (wire (take j gs)), j)" "j \<le> offset" "j \<le> length gs"
    using lookup_ok [OF idx(1), of offset] idx(2) by (auto simp: lookup_sound_def frame_sizes_take)
  have pos: "drop (length (wire (take j gs))) (wire gs) = wire (drop j gs)" "length (wire (take j gs)) \<le> length (wire gs)"
    using wire_take_drop [of j gs] by (metis append_eq_conv_conj, metis le_add1 length_append)
  have find: "0 = find_segment_index l offset"
    using l by (cases offset) (simp_all add: find_segment_index_def binary_search_by_key_def bsearch_loop.simps Let_def)
  define l' where "l' = (if length (wire (take j gs)) = length (wire gs) then l else moved l 0 (length (wire gs)))"
  have "read_record_at D offset (l, os) = (read_loop D offset j (drop (length (wire (take j gs))) (wire gs)), l', os)"
    unfolding l'_def by (rule read_record_at_segment [OF nf _ find _ _ lim _ pos(2)]) (use l(1) seg lt nxt j(1) in simp_all)
  then have "read_record_at D offset (l, os) = (Ok (Some (snd (gs ! offset))), l', os)"
    unfolding pos(1) using read_loop_chain [OF chain_drop [OF ch] j(2)] lt j(2) by simp
  moreover have "salvaged D l' os gs"
    using sal l segment_ok_seek [OF seg] idx ch nxt lim nf by (simp add: l'_def salvaged_def moved_def Let_def)
  ultimately show ?thesis by blast
qed

text \<open>
  Opening a directory that holds one segment file of arbitrary bytes: an error, or a log over a
  prefix of these bytes.
\<close>

lemma log_open_salvages:
  assumes nf: "os_faults os = []" and dir: "map fst (os_files os) = [segment_path 0]"
    and content: "os_content os (segment_path 0) = Some c" and lim: "length c \<le> os_read_limit os" "length c < 2 ^ 32"
  obtains (failed) e os' where "log_open D cfg os = (Err e, os')"
  | (salvaged) l os' gs n where "log_open D cfg os = (Ok l, os')" "salvaged D l os' gs" "wire gs = take n c" "log_cfg l = cfg"
proof -
  have "discover_segment_offsets os = (Ok [0], os)"
    using nf dir by (simp add: discover_segment_offsets_def read_dir_def io_simps List.map_filter_def)
  then have eq: "log_open D cfg os =
      and_then (recover_active_segment D 0 (index_interval cfg) os) (\<lambda>(seg, idx, count) os.
        (Ok \<lparr>log_cfg = cfg, segments = [\<lparr>the_segment = seg, the_index = idx\<rparr>], next_offset = count, encode_buf = [], actual_sizes = []\<rparr>, os))"
    using nf by (simp add: log_open_def create_dir_all_def io_simps cong del: and_then_cong)
  show thesis
  proof (rule recover_active_segment_cases [OF nf content lim])
    fix e os'
    assume failed: "recover_active_segment D 0 (index_interval cfg) os = (Err e, os')"
    with eq that(1) show thesis by simp
  next
    fix seg idx gs n os'
    assume salvaged: "recover_active_segment D 0 (index_interval cfg) os = (Ok (seg, idx, length gs), os')"
      "wire gs = take n c" "chain D gs" "segment_ok os' seg (wire gs)" "index_ok os' idx (frame_sizes gs)"
      "seg_base_offset seg = 0" "idx_base_offset idx = 0" "only_touches (own_files 0) os os'"
    have "length (wire gs) \<le> os_read_limit os'" "os_faults os' = []"
      using salvaged(2,8) lim(1) nf by (auto dest: only_touchesD)
    with eq salvaged that(2) [OF _ _ salvaged(2)] show thesis
      by (simp add: salvaged_def)
  qed
qed

end
