(* ===== verification/Kafko_Fuzz.thy ===== *)
theory Kafko_Fuzz
  imports Kafko_Salvage Kafko_LogProps
begin

text \<open>
  The fuzz targets of \<^verbatim>\<open>src/fuzz/fuzz_targets\<close> that feed arbitrary bytes to one component:
  \<^verbatim>\<open>decode_record.rs\<close>, \<^verbatim>\<open>decode_record_structured.rs\<close>, \<^verbatim>\<open>sparse_index_parse.rs\<close> and
  \<^verbatim>\<open>recovery_torn_tail.rs\<close>. A target is a function of its input whose result is \<open>Panic\<close> where the
  harness would crash: a failed assertion, an \<^verbatim>\<open>unwrap\<close> of an error, or a panic of the code under
  test. What a fuzzer samples is proved here for every input. The temporary directory of a target
  is an argument.
\<close>

section \<open>The harness\<close>

definition unwrap :: "'a res \<times> 's \<Rightarrow> 'a res \<times> 's" where
  "unwrap r = (case r of (Err e, s) \<Rightarrow> (Panic ''called `Result::unwrap()` on an `Err` value'', s) | _ \<Rightarrow> r)"

text \<open>\<^verbatim>\<open>let _ = \<dots>\<close>: the result is dropped, a panic is not.\<close>

definition ignore :: "'a res \<times> 's \<Rightarrow> unit res \<times> 's" where
  "ignore r = (case r of (Panic m, s) \<Rightarrow> (Panic m, s) | (x, s) \<Rightarrow> (Ok (), s))"

definition assert_that :: "bool \<Rightarrow> string \<Rightarrow> 's \<Rightarrow> unit res \<times> 's" where
  "assert_that b msg s = (if b then (Ok (), s) else (Panic msg, s))"

text \<open>\<^verbatim>\<open>File::create(path).unwrap()\<close> followed by a \<^verbatim>\<open>write_all\<close> whose outcome is dropped.\<close>

definition put_file :: "string \<Rightarrow> bytes \<Rightarrow> os \<Rightarrow> unit res \<times> os" where
  "put_file name bs os =
     and_then (unwrap (file_create name os)) (\<lambda>h os. in_state snd (ignore (file_write_all bs (h, os))))"

lemma unwrap_Ok [simp]: "unwrap (Ok a, s) = (Ok a, s)"
  by (simp add: unwrap_def)

lemma ignore_simps [simp]: "ignore (Ok a, s) = (Ok (), s)" "ignore (Err e, s) = (Ok (), s)"
  by (simp_all add: ignore_def)

lemma assert_that_True [simp]: "assert_that True msg s = (Ok (), s)"
  by (simp add: assert_that_def)

lemma ignore_no_panic: "no_panic r \<Longrightarrow> fst (ignore r) = Ok ()"
  by (cases r; cases "fst r") (auto simp: ignore_def no_panic_def)

lemma os_wf_empty: "os_files os = [] \<Longrightarrow> os_wf os"
  by (simp add: os_wf_def)

lemma put_file_ok:
  assumes "os_faults os = []" and "set (map fst (os_files os)) \<subseteq> {name}" and "os_wf os"
  shows "\<exists>os'. put_file name bs os = (Ok (), os') \<and> map fst (os_files os') = [name] \<and> os_content os' name = Some bs \<and>
           os_faults os' = [] \<and> os_read_limit os' = os_read_limit os"
proof -
  consider "os_files os = []" | f where "os_files os = [(name, f)]"
    using assms(2,3) by (cases "os_files os"; cases "tl (os_files os)") (auto simp: os_wf_def)
  then show ?thesis
    using assms(1)
    by cases (cases "bs = []";
      simp add: put_file_def file_create_def file_write_all_def io_simps set_file_def store_bytes_def os_file_def os_content_def write_at_def)+
qed

section \<open>decode\_record\<close>

definition fuzz_decode_record :: "deps \<Rightarrow> bytes \<Rightarrow> unit res" where
  "fuzz_decode_record D data = fst (ignore (decode D data))"

section \<open>decode\_record\_structured\<close>

record fuzzed_record =
  fz_flag :: u8
  fz_timestamp_ms :: i64
  fz_key :: "bytes option"
  fz_payload :: bytes

definition structured_buf :: "deps \<Rightarrow> fuzzed_record \<Rightarrow> bytes" where
  "structured_buf D input =
     (let key_part_len = (case fz_key input of None \<Rightarrow> 4 | Some k \<Rightarrow> 4 + length k);
          val_part_len = 4 + length (fz_payload input);
          payload_field_len = 1 + 8 + key_part_len + val_part_len;
          total_len = 4 + payload_field_len;
          buf = u32_to_be_bytes (of_nat total_len);
          crc_pos = length buf;
          buf = buf @ replicate 4 0;
          payload_start = length buf;
          buf = buf @ [fz_flag input];
          buf = buf @ u64_to_be_bytes (fz_timestamp_ms input);
          buf = (case fz_key input of
                   None \<Rightarrow> buf @ u32_to_be_bytes KEY_NULL_SENTINEL
                 | Some k \<Rightarrow> buf @ u32_to_be_bytes (of_nat (length k)) @ k);
          buf = buf @ u32_to_be_bytes (of_nat (length (fz_payload input)));
          buf = buf @ fz_payload input;
          crc = crc32_hash D (drop payload_start buf)
      in take crc_pos buf @ u32_to_be_bytes crc @ drop (crc_pos + 4) buf)"

definition fuzz_decode_record_structured :: "deps \<Rightarrow> fuzzed_record \<Rightarrow> unit res" where
  "fuzz_decode_record_structured D input = fst (ignore (decode D (structured_buf D input)))"

section \<open>sparse\_index\_parse\<close>

text \<open>
  \<^verbatim>\<open>lookup\<close> with the checks the language makes: the slice index and the addition of the base
  offset. The entries of a file of arbitrary bytes need not be sorted.
\<close>

definition entry_position :: "sparse_index \<Rightarrow> nat \<Rightarrow> (nat \<times> nat) res" where
  "entry_position idx i =
     (if length (entries idx) \<le> i then Panic ''index out of bounds''
      else let e = entries idx ! i in
        if 2 ^ 64 \<le> idx_base_offset idx + unat (relative_offset e) then Panic ''attempt to add with overflow''
        else Ok (unat (file_position e), idx_base_offset idx + unat (relative_offset e)))"

definition lookup_checked :: "sparse_index \<Rightarrow> nat \<Rightarrow> (nat \<times> nat) res" where
  "lookup_checked idx absolute_offset =
     (if absolute_offset < idx_base_offset idx then Ok (0, idx_base_offset idx)
      else case binary_search_by_key relative_offset (saturating_u32 (absolute_offset - idx_base_offset idx)) (entries idx) of
             Found i \<Rightarrow> entry_position idx i
           | Insert_at 0 \<Rightarrow> Ok (0, idx_base_offset idx)
           | Insert_at (Suc i) \<Rightarrow> entry_position idx i)"

definition fuzz_sparse_index_parse :: "bytes \<Rightarrow> os \<Rightarrow> unit res" where
  "fuzz_sparse_index_parse data os =
     (let (lookup_target, file_bytes) =
        (if 8 \<le> length data then (unat (u64_from_le_bytes (take 8 data)), drop 8 data) else (0, data))
      in fst (and_then (put_file (index_path 0) file_bytes os) (\<lambda>_ os.
           case index_open 0 4096 os of
             (Ok index, os) \<Rightarrow>
               and_then (ignore (lookup_checked index lookup_target, os)) (\<lambda>_ os.
               and_then (ignore (lookup_checked index 0, os)) (\<lambda>_ os.
                 ignore (lookup_checked index (2 ^ 64 - 1), os)))
           | (Err e, os) \<Rightarrow> (Ok (), os)
           | (Panic m, os) \<Rightarrow> (Panic m, os))))"

section \<open>recovery\_torn\_tail\<close>

fun all_readable :: "deps \<Rightarrow> nat list \<Rightarrow> log \<times> os \<Rightarrow> unit res \<times> log \<times> os" where
  "all_readable D [] s = (Ok (), s)"
| "all_readable D (i # is) s =
     and_then (unwrap (read_record_at D i s)) (\<lambda>r s.
     and_then (assert_that (r \<noteq> None) ''acked offset unreadable after recovery'' s) (\<lambda>_ s. all_readable D is s))"

definition fuzz_recovery_torn_tail :: "deps \<Rightarrow> bytes \<Rightarrow> os \<Rightarrow> unit res" where
  "fuzz_recovery_torn_tail D data os =
     fst (and_then (put_file (segment_path 0) data os) (\<lambda>_ os.
       case log_open D default_log_config os of
         (Ok l, os) \<Rightarrow> in_state snd (all_readable D [0 ..< next_offset l] (l, os))
       | (Err e, os) \<Rightarrow> (Ok (), os)
       | (Panic m, os) \<Rightarrow> (Panic m, os)))"

section \<open>The record decoder\<close>

lemma structured_buf_eq:
  "structured_buf D input =
     (let p = [fz_flag input] @ u64_to_be_bytes (fz_timestamp_ms input) @ key_field (fz_key input) @
              u32_to_be_bytes (of_nat (length (fz_payload input))) @ fz_payload input
      in u32_to_be_bytes (of_nat (4 + length p)) @ u32_to_be_bytes (crc32_hash D p) @ p)"
  by (cases "fz_key input")
    (simp_all add: structured_buf_def Let_def key_part_def add.assoc add.commute add.left_commute)

lemma decode_structured:
  assumes fits: "lengths_fit (fz_key input) (fz_payload input)"
  shows "fst (decode D (structured_buf D input)) =
           res_bind (compression_from_flag (fz_flag input)) (\<lambda>c.
           res_bind (decompress D c (fz_payload input)) (\<lambda>v.
             Ok \<lparr>timestamp_ms = fz_timestamp_ms input, key = fz_key input, val = v\<rparr>))"
proof -
  define vf where "vf = u32_to_be_bytes (of_nat (length (fz_payload input))) @ fz_payload input"
  define p where "p = u8_to_byte (fz_flag input) @ u64_to_be_bytes (fz_timestamp_ms input) @ key_field (fz_key input) @ vf"
  have len: "length p = 1 + 8 + key_part (fz_key input) + (4 + length (fz_payload input))"
    by (simp add: p_def vf_def)
  have total: "unat (of_nat (4 + length p) :: u32) = 4 + length p"
    using fits len by (intro unat_u32_of_nat) (simp add: lengths_fit_def)
  have vlen: "unat (of_nat (length (fz_payload input)) :: u32) = length (fz_payload input)"
    using fits by (intro unat_u32_of_nat) (simp add: lengths_fit_def)
  have "structured_buf D input = u32_to_be_bytes (of_nat (4 + length p)) @ u32_to_be_bytes (crc32_hash D p) @ p"
    unfolding structured_buf_eq by (simp add: p_def vf_def u8_to_byte_def Let_def)
  moreover have "MIN_TOTAL_LEN \<le> 4 + length p"
    by (simp add: MIN_TOTAL_LEN_def len key_part_def split: option.split)
  ultimately have "decode D (structured_buf D input) = decode_payload D (4 + length p) p"
    using total by (simp add: decode_def decode_checked_def Let_def buf_slice_to_def)
  also have "fst \<dots> = res_bind (compression_from_flag (fz_flag input)) (\<lambda>c.
      fst (and_then (decode_value D c (4 + length p) vf) (\<lambda>v buf.
        (Ok \<lparr>timestamp_ms = fz_timestamp_ms input, key = fz_key input, val = v\<rparr>, buf))))"
    using decode_key_field [OF fits, of "4 + length p" vf]
    by (cases "compression_from_flag (fz_flag input)") (simp_all add: p_def decode_payload_def lift_res_def)
  also have "(\<lambda>c. fst (and_then (decode_value D c (4 + length p) vf) (\<lambda>v buf.
        (Ok \<lparr>timestamp_ms = fz_timestamp_ms input, key = fz_key input, val = v\<rparr>, buf)))) =
      (\<lambda>c. res_bind (decompress D c (fz_payload input)) (\<lambda>v.
        Ok \<lparr>timestamp_ms = fz_timestamp_ms input, key = fz_key input, val = v\<rparr>))"
  proof
    fix c
    show "fst (and_then (decode_value D c (4 + length p) vf) (\<lambda>v buf.
        (Ok \<lparr>timestamp_ms = fz_timestamp_ms input, key = fz_key input, val = v\<rparr>, buf))) =
      res_bind (decompress D c (fz_payload input)) (\<lambda>v.
        Ok \<lparr>timestamp_ms = fz_timestamp_ms input, key = fz_key input, val = v\<rparr>)"
      using vlen by (cases "c = NoCompression"; cases "decompress D c (fz_payload input)")
        (auto simp: decode_value_def vf_def Let_def lift_res_def buf_slice_to_def buf_advance_def)
  qed
  finally show ?thesis .
qed


section \<open>The index parser\<close>

lemma entry_position_ok:
  assumes "idx_base_offset idx + 2 ^ 32 \<le> 2 ^ 64" and "i < length (entries idx)"
  shows "entry_position idx i = Ok (unat (file_position (entries idx ! i)), idx_base_offset idx + unat (relative_offset (entries idx ! i)))"
  using assms unat_u32_less [of "relative_offset (entries idx ! i)"] by (simp add: entry_position_def Let_def)

lemma lookup_checked_eq:
  assumes "idx_base_offset idx + 2 ^ 32 \<le> 2 ^ 64"
  shows "lookup_checked idx offset = Ok (lookup idx offset)"
proof (cases "binary_search_by_key relative_offset (saturating_u32 (offset - idx_base_offset idx)) (entries idx)")
  case (Found i)
  with entry_position_ok [OF assms, of i] binary_search_in_range(1) [OF Found] show ?thesis
    by (simp add: lookup_checked_def lookup_def Let_def)
next
  case (Insert_at j)
  with entry_position_ok [OF assms, of "j - 1"] binary_search_in_range(2) [OF Insert_at] show ?thesis
    by (cases j) (simp_all add: lookup_checked_def lookup_def Let_def)
qed

lemma fuzz_sparse_index_parse_ok:
  assumes "os_faults os = []" and "os_files os = []"
  shows "fuzz_sparse_index_parse data os = Ok ()"
proof -
  obtain target bs where split: "(if 8 \<le> length data then (unat (u64_from_le_bytes (take 8 data)), drop 8 data) else (0, data)) = (target, bs)"
    by (metis surj_pair)
  obtain os1 where "put_file (index_path 0) bs os = (Ok (), os1)" "os_content os1 (index_path 0) = Some bs" "os_faults os1 = []"
    using put_file_ok [OF assms(1)] assms(2) by (metis empty_iff empty_set list.simps(8) os_wf_empty subsetI)
  then have "fuzz_sparse_index_parse data os =
      (let idx = \<lparr>idx_base_offset = 0, idx_path = index_path 0, entries = parse_entries bs, bytes_since_last_entry = 0, interval = 4096\<rparr>
       in fst (and_then (ignore (lookup_checked idx target, os1)) (\<lambda>_ os.
            and_then (ignore (lookup_checked idx 0, os)) (\<lambda>_ os. ignore (lookup_checked idx (2 ^ 64 - 1), os)))))"
    using split by (auto simp: fuzz_sparse_index_parse_def index_open_def io_simps Let_def)
  then show ?thesis
    by (simp add: lookup_checked_eq Let_def)
qed

section \<open>Recovery\<close>

lemma all_readable_ok:
  "salvaged D l os gs \<Longrightarrow> \<forall>i \<in> set is. i < length gs \<Longrightarrow> \<exists>l'. all_readable D is (l, os) = (Ok (), l', os)"
proof (induction "is" arbitrary: l)
  case (Cons i "is")
  obtain l1 where "read_record_at D i (l, os) = (Ok (Some (snd (gs ! i))), l1, os)" "salvaged D l1 os gs"
    using salvaged_read [OF Cons.prems(1), of i] Cons.prems(2) by auto
  with Cons.IH [of l1] Cons.prems(2) show ?case
    by simp
qed simp

text \<open>
  C23: recovery from a file of arbitrary bytes. Whatever a segment file holds, opening the log does
  not panic, and if it succeeds then every offset below the next one can be read: the target that
  writes its input as a segment, opens the log and reads all of it back never crashes.
\<close>

theorem fuzz_recovery_torn_tail_ok:
  assumes nf: "os_faults os = []" and "os_files os = []" and "length data \<le> os_read_limit os" and "length data < 2 ^ 32"
  shows "fuzz_recovery_torn_tail D data os = Ok ()"
proof -
  obtain os1 where p: "put_file (segment_path 0) data os = (Ok (), os1)" and nf1: "os_faults os1 = []"
    and dir: "map fst (os_files os1) = [segment_path 0]" "os_content os1 (segment_path 0) = Some data" "length data \<le> os_read_limit os1"
    using put_file_ok [OF assms(1)] assms(2,3) by (metis empty_iff empty_set list.simps(8) os_wf_empty subsetI)
  from nf1 dir assms(4) show ?thesis
  proof (rule log_open_salvages)
    fix e os'
    assume "log_open D default_log_config os1 = (Err e, os')"
    with p show ?thesis by (simp add: fuzz_recovery_torn_tail_def)
  next
    fix l os' gs n
    assume "log_open D default_log_config os1 = (Ok l, os')" and sal: "salvaged D l os' gs"
    moreover obtain l' where "all_readable D [0 ..< next_offset l] (l, os') = (Ok (), l', os')"
      using all_readable_ok [OF sal, of "[0 ..< next_offset l]"] sal by (auto simp: salvaged_def)
    ultimately show ?thesis
      using p by (simp add: fuzz_recovery_torn_tail_def)
  qed
qed

lemma fuzz_recovery_torn_tail_ok_witness:
  "fuzz_recovery_torn_tail demo_deps [0, 0, 0, 21, 9, 9, 9, 9, 0, 1] demo_os = Ok ()"
  by (rule fuzz_recovery_torn_tail_ok) (simp_all add: demo_os_def)

text \<open>
  C33: the parsers take any bytes. The fuzz targets of the record decoder and of the index parser
  end without a panic on every input; and the structured target reaches what it is meant to reach:
  its frame passes the length and checksum tests, so the outcome is that of its flag byte and its
  payload, decoded to exactly the timestamp, key and value that went in.
\<close>

theorem fuzz_parsers_ok:
  assumes "os_faults os = []" and "os_files os = []"
  shows "fuzz_decode_record D data = Ok () \<and> fuzz_decode_record_structured D input = Ok () \<and> fuzz_sparse_index_parse data os = Ok () \<and>
    (lengths_fit (fz_key input) (fz_payload input) \<longrightarrow>
       fst (decode D (structured_buf D input)) =
         res_bind (compression_from_flag (fz_flag input)) (\<lambda>c.
         res_bind (decompress D c (fz_payload input)) (\<lambda>v.
           Ok \<lparr>timestamp_ms = fz_timestamp_ms input, key = fz_key input, val = v\<rparr>)))"
  using fuzz_sparse_index_parse_ok [OF assms] decode_structured
  by (simp add: fuzz_decode_record_def fuzz_decode_record_structured_def ignore_no_panic no_panic_decode)

lemma fuzz_parsers_ok_witness:
  "fuzz_sparse_index_parse [1, 2, 3, 4, 5, 6, 7, 8, 255, 255, 255, 255, 0, 0, 0, 9, 0, 0, 0, 1, 0, 0, 0, 2] demo_os = Ok () \<and>
   fst (decode demo_deps (structured_buf demo_deps \<lparr>fz_flag = 0, fz_timestamp_ms = 5, fz_key = Some [1], fz_payload = [2, 3]\<rparr>)) =
     Ok \<lparr>timestamp_ms = 5, key = Some [1], val = [2, 3]\<rparr> \<and>
   fst (decode demo_deps (structured_buf demo_deps \<lparr>fz_flag = 9, fz_timestamp_ms = 5, fz_key = None, fz_payload = []\<rparr>)) =
     Err (UnknownCompression 9)"
proof -
  have os: "os_faults demo_os = []" "os_files demo_os = []"
    by (simp_all add: demo_os_def)
  show ?thesis
    using fuzz_parsers_ok [OF os, of demo_deps "[1, 2, 3, 4, 5, 6, 7, 8, 255, 255, 255, 255, 0, 0, 0, 9, 0, 0, 0, 1, 0, 0, 0, 2]"
        "\<lparr>fz_flag = 0, fz_timestamp_ms = 5, fz_key = Some [1], fz_payload = [2, 3]\<rparr>"]
      fuzz_parsers_ok [OF os, of demo_deps "[]" "\<lparr>fz_flag = 9, fz_timestamp_ms = 5, fz_key = None, fz_payload = []\<rparr>"]
    by (simp add: lengths_fit_def key_part_def compression_from_flag_def)
qed

end
