(* ===== verification/Kafko_FuzzLog.thy ===== *)
theory Kafko_FuzzLog
  imports Kafko_Fuzz Kafko_PartitionSpec
begin

text \<open>
  The fuzz target \<^verbatim>\<open>src/fuzz/fuzz_targets/log_op_sequence.rs\<close>: an arbitrary sequence of
  operations on one log, checked against a list of the values acknowledged so far.
\<close>

section \<open>The target\<close>










section \<open>One append\<close>


section \<open>The target never fails\<close>















end
