(* ===== verification/Kafko_FuzzTopic.thy ===== *)
theory Kafko_FuzzTopic
  imports Kafko_Fuzz Kafko_ProducerProps
begin

text \<open>
  The fuzz targets that drive a topic: \<^verbatim>\<open>topic_routing.rs\<close>, a sequence of sends checked against
  the routing and ordering rules, and \<^verbatim>\<open>topic_layout_recovery.rs\<close>, a topic directory of arbitrary
  subdirectories with arbitrary segment files.
\<close>

section \<open>topic\_routing\<close>














section \<open>Routing, proved\<close>












section \<open>topic\_layout\_recovery\<close>










section \<open>Layouts, proved\<close>





















end
