(* ===== verification/Kafko_FuzzGroup.thy ===== *)
theory Kafko_FuzzGroup
  imports Kafko_Fuzz Kafko_BrokerProps
begin

text \<open>
  The fuzz target \<^verbatim>\<open>src/fuzz/fuzz_targets/offset_store_parse.rs\<close>: arbitrary bytes as the
  committed-offset file of a consumer group, read through the broker.
\<close>

definition fs_write :: "string \<Rightarrow> bytes \<Rightarrow> os \<Rightarrow> unit res \<times> os" where
  "fs_write name bs os = and_then (file_create name os) (\<lambda>h os. in_state snd (file_write_all bs (h, os)))"

text \<open>The layout the target prepares: an empty partition and the group's file.\<close>

definition offset_layout :: "bytes \<Rightarrow> topic_dir \<Rightarrow> unit res \<times> topic_dir" where
  "offset_layout data td =
     and_then (in_state (put_subdir ''0'' td) (unwrap (create_dir_all (subdir td ''0'')))) (\<lambda>_ td.
     and_then (in_state (put_subdir ''offsets'' td) (unwrap (create_dir_all (subdir td ''offsets'')))) (\<lambda>_ td.
       in_state (\<lambda>os. set_subdir ''offsets'' os td) (unwrap (fs_write ''g'' data (subdir td ''offsets'')))))"

definition fuzz_offset_store_parse :: "deps \<Rightarrow> bytes \<Rightarrow> data_dir \<Rightarrow> unit res" where
  "fuzz_offset_store_parse D data dd =
     fst (and_then (in_state (\<lambda>td. set_topic_dir ''t'' td dd) (offset_layout data (topic_dir_of dd ''t''))) (\<lambda>_ dd.
       case broker_open D dd of
         (Ok b, dd) \<Rightarrow>
           (case consumer_for_group D ''t'' ''g'' (b, dd) of
              (Ok c, b, dd) \<Rightarrow>
                and_then (assert_that (position c 0 = 0) ''cursor not clamped to high-water-mark'' dd) (\<lambda>_ dd.
                  in_state snd (ignore (broker_shutdown D (\<lambda>_. False) (drop_handle ''t'' b, dd))))
            | (Err e, b, dd) \<Rightarrow> in_state snd (ignore (broker_shutdown D (\<lambda>_. False) (b, dd)))
            | (Panic m, b, dd) \<Rightarrow> (Panic m, dd))
       | (Err e, dd) \<Rightarrow> (Ok (), dd)
       | (Panic m, dd) \<Rightarrow> (Panic m, dd)))"

lemma offset_layout_ok:
  assumes "td_subdirs td = []" and "os_faults (td_fresh td) = []" and "os_files (td_fresh td) = []"
  obtains os where "offset_layout data td = (Ok (), td\<lparr>td_subdirs := [(''0'', td_fresh td), (''offsets'', os)]\<rparr>)"
    "os_faults os = []" "os_content os ''g'' = Some data"
proof (rule that)
  define f where "f = \<lparr>file_content = data, file_durable = [], file_mtime = os_clock (td_fresh td)\<rparr>"
  let ?os = "(td_fresh td)\<lparr>os_files := [(''g'', f)]\<rparr>"
  have "fs_write ''g'' data (td_fresh td) = (Ok (), ?os)"
    using assms by (cases "data = []")
      (simp_all add: fs_write_def file_create_def file_write_all_def io_simps set_file_def store_bytes_def os_file_def write_at_def f_def)
  then show "offset_layout data td = (Ok (), td\<lparr>td_subdirs := [(''0'', td_fresh td), (''offsets'', ?os)]\<rparr>)"
    using assms by (simp add: offset_layout_def put_subdir_def create_dir_all_def io_simps subdir_def set_subdir_def)
  show "os_faults ?os = []" "os_content ?os ''g'' = Some data"
    using assms by (simp_all add: os_content_def os_file_def f_def)
qed

lemma store_open_total:
  assumes "os_faults os = []" and "os_content os ''g'' = Some data"
  shows "\<exists>st. store_open D ''g'' n os = (Ok st, os)"
  using assms offsets_decode_Ok [of D data n]
  by (auto simp: store_open_def validate_group_name_def is_alphanumeric_def is_digit_def create_dir_all_def fs_read_def with_file_def os_content_def io_simps Let_def)

text \<open>
  A group file of arbitrary bytes. Whatever the committed-offset file of a group holds, the
  broker opens, the group's consumer is created without a panic, and its cursor on an empty
  partition is 0: an offset past the end of the log is not taken over from the file.
\<close>

lemma fuzz_offset_store_parse_ok:
  assumes "dd_topics dd = []" and "dd_faults dd = []" and "\<not> dd_locked dd" and "td_subdirs (dd_fresh dd) = []" and "td_faults (dd_fresh dd) = []"
    and "os_files (td_fresh (dd_fresh dd)) = []" and "os_faults (td_fresh (dd_fresh dd)) = []"
  shows "fuzz_offset_store_parse D data dd = Ok ()"
proof -
  define td where "td = dd_fresh dd"
  obtain os where l: "offset_layout data td = (Ok (), td\<lparr>td_subdirs := [(''0'', td_fresh td), (''offsets'', os)]\<rparr>)"
    "os_faults os = []" "os_content os ''g'' = Some data"
    by (rule offset_layout_ok [of td data]) (use assms in \<open>simp_all add: td_def\<close>)
  define td1 where "td1 = td\<lparr>td_subdirs := [(''0'', td_fresh td), (''offsets'', os)]\<rparr>"
  have zero: "nat_to_dec 0 = ''0''"
    by code_simp
  obtain p os' where p: "partition_open D default_log_config (td_fresh td) = (Ok p, os')" "high_water_mark p = 0"
    using partition_open_fresh [of "td_fresh td" 0 default_log_config D] assms by (auto simp: td_def default_log_config_def)
  have "numbered td1 = [0]"
    by (simp add: numbered_def td1_def List.map_filter_def parse_dec_def is_digit_def dec_val_def)
  then have "discover_partition_indices td1 = (Ok [0], td1)"
    using assms by (simp add: discover_partition_indices_ok td1_def td_def)
  moreover have "subdir td1 ''0'' = td_fresh td"
    by (simp add: td1_def subdir_def)
  moreover from this have "put_subdir ''0'' td1 os' = set_subdir ''0'' os' td1"
    using p(1) by (intro partition_open_created [of D default_log_config _ _ p]) simp
  ultimately have "topic_open D ''t'' default_log_config td1 = (Ok (from_parts ''t'' [p] default_log_config), set_subdir ''0'' os' td1)"
    using p(1) by (simp add: topic_open_def Let_def zero)
  moreover define t where "t = from_parts ''t'' [p] default_log_config"
  ultimately have o: "topic_open D ''t'' default_log_config td1 = (Ok t, set_subdir ''0'' os' td1)"
    by simp
  define dd1 where "dd1 = set_topic_dir ''t'' td1 dd"
  define dd2 where "dd2 = set_topic_dir ''t'' (set_subdir ''0'' os' td1) (dd1\<lparr>dd_locked := True\<rparr>)"
  define b where "b = \<lparr>b_topics = [(''t'', \<lparr>te_topic = t, te_handles = 0\<rparr>)], b_config = default_log_config\<rparr>"
  have op: "broker_open D dd1 = (Ok b, dd2)"
    using o assms(1-3) by (simp add: broker_open_def open_with_config_def acquire_dir_lock_def io_simps unlock_on_failure_def
        dd1_def dd2_def b_def set_topic_dir_def topic_dir_of_def)
  have "subdir (topic_dir_of dd2 ''t'') ''offsets'' = os"
    by (simp add: dd2_def td1_def subdir_def set_subdir_def update_conv')
  with store_open_total [OF l(2,3), of D "unat (partition_count t)"] obtain st where
    st: "store_open D ''g'' (unat (partition_count t)) (subdir (topic_dir_of dd2 ''t'') ''offsets'') = (Ok st, os)"
    by auto
  have "registered b ''t'' = Some \<lparr>te_topic = t, te_handles = 0\<rparr>"
    by (simp add: b_def registered_def)
  then obtain b' dd3 where c: "consumer_for_group D ''t'' ''g'' (b, dd2) = (Ok (from_topic_with_group t st), b', dd3)"
    using st by (simp add: consumer_for_group_def broker_topic_def)
  have "position (from_topic_with_group t st) 0 = 0"
    using p(2) by (simp add: position_def get_or_zero_def from_topic_with_group_def t_def from_parts_def)
  moreover have "topic_dir_of dd ''t'' = td"
    using assms(1) by (simp add: topic_dir_of_def td_def)
  ultimately show ?thesis
    using l(1) op c by (simp add: fuzz_offset_store_parse_def broker_shutdown_def Let_def flip: td1_def dd1_def)
qed

lemma fuzz_offset_store_parse_ok_witness:
  "fuzz_offset_store_parse demo_deps [75, 79, 70, 49, 0, 0, 0, 1, 0, 0, 0, 0, 0, 0, 0, 9] demo_dd = Ok ()"
  by (rule fuzz_offset_store_parse_ok) (simp_all add: demo_dd_def demo_td_def demo_os_def)

end
