(* ===== verification/Kafko_Process.thy ===== *)
theory Kafko_Process
  imports Kafko_Broker
begin

text \<open>
  What the two programs around the library, \<^verbatim>\<open>kafko-http\<close> and \<^verbatim>\<open>kafko-bench\<close>, take from the
  process they run in: environment variables, and the removal of the data directory on request.
\<close>

type_synonym environment = "string \<Rightarrow> string option"

text \<open>\<^verbatim>\<open>std::env::var(name).ok().and_then(|s| s.parse().ok())\<close> for an unsigned integer below \<open>bound\<close>.\<close>

definition env_number :: "environment \<Rightarrow> string \<Rightarrow> nat \<Rightarrow> nat option" where
  "env_number env name bound = Option.bind (env name) (parse_dec bound)"

text \<open>\<^verbatim>\<open>std::env::var(name).unwrap_or_else(...)\<close>\<close>

definition env_or :: "environment \<Rightarrow> string \<Rightarrow> string \<Rightarrow> string" where
  "env_or env name otherwise = (case env name of None \<Rightarrow> otherwise | Some s \<Rightarrow> s)"

text \<open>
  \<^verbatim>\<open>let _ = std::fs::remove_dir_all(&data_dir)\<close>: a removal that fails part-way has removed some
  topics. The lock file goes with the directory: the next broker locks a new file, whoever holds
  the removed one.
\<close>

definition remove_data_dir :: "data_dir \<Rightarrow> data_dir" where
  "remove_data_dir dd =
     (case dd_faults dd of
        Fail kind n # fs \<Rightarrow> dd\<lparr>dd_faults := fs, dd_topics := drop n (dd_topics dd)\<rparr>
      | fs \<Rightarrow> dd\<lparr>dd_faults := tl fs, dd_topics := [], dd_locked := False\<rparr>)"

definition reset_if_asked :: "environment \<Rightarrow> data_dir \<Rightarrow> data_dir" where
  "reset_if_asked env dd = (if env ''KAFKO_RESET'' \<noteq> None then remove_data_dir dd else dd)"

end
