(* ===== verification/Kafko_Http.thy ===== *)
theory Kafko_Http
  imports Kafko_Process
begin

text \<open>
  \<^verbatim>\<open>src/crates/kafko-http/src/main.rs\<close>: the HTTP front end, one topic per compression codec. The
  handlers are modelled on the topics their producers share. The router and the server of
  \<^verbatim>\<open>axum\<close> are not: a request is one of the two routes, already matched and with its body read, and
  whether the address could be bound is an argument. The text of an error, which the derive macro
  of \<^verbatim>\<open>thiserror\<close> generates, is the argument \<open>show_error\<close>.
\<close>

section \<open>The handlers\<close>

record app_state =
  topic_none :: topic
  topic_lz4 :: topic
  topic_zstd :: topic

datatype response = Success string | BadRequest string | InternalServerError string

definition respond :: "(kafko_error \<Rightarrow> string) \<Rightarrow> record_position res \<Rightarrow> response res" where
  "respond show_error r =
     (case r of
        Ok pos \<Rightarrow> Ok (Success (nat_to_dec (pos_offset pos)))
      | Err e \<Rightarrow> Ok (InternalServerError (show_error e))
      | Panic m \<Rightarrow> Panic m)"

definition produce_handler ::
  "deps \<Rightarrow> (kafko_error \<Rightarrow> string) \<Rightarrow> int \<Rightarrow> string \<Rightarrow> bytes \<Rightarrow> app_state \<Rightarrow> response res \<times> app_state" where
  "produce_handler D show_error now codec body app =
     (if codec = ''none''
      then case send D now None body (topic_none app) of (r, t) \<Rightarrow> (respond show_error r, app\<lparr>topic_none := t\<rparr>)
      else if codec = ''lz4''
      then case send D now None body (topic_lz4 app) of (r, t) \<Rightarrow> (respond show_error r, app\<lparr>topic_lz4 := t\<rparr>)
      else if codec = ''zstd''
      then case send D now None body (topic_zstd app) of (r, t) \<Rightarrow> (respond show_error r, app\<lparr>topic_zstd := t\<rparr>)
      else (Ok (BadRequest (''unknown codec: '' @ [CHR 0x27] @ codec @ [CHR 0x27] @ ''. Expected '' @ [CHR 0x27] @ ''none'' @ [CHR 0x27]
              @ '', '' @ [CHR 0x27] @ ''lz4'' @ [CHR 0x27] @ '', or '' @ [CHR 0x27] @ ''zstd'' @ [CHR 0x27])), app))"

definition hwm_handler :: "app_state \<Rightarrow> string res" where
  "hwm_handler app =
     (case topic_partition (topic_none app) 0 of
        None \<Rightarrow> Panic ''topic has at least one partition''
      | Some p \<Rightarrow> Ok (nat_to_dec (high_water_mark p)))"

section \<open>Start-up\<close>

definition ensure_topic :: "deps \<Rightarrow> string \<Rightarrow> compression \<Rightarrow> broker \<times> data_dir \<Rightarrow> unit res \<times> broker \<times> data_dir" where
  "ensure_topic D name codec = (\<lambda>(b, dd).
     if has_topic b name then (Ok (), b, dd)
     else create_topic_with_config D name (default_log_config\<lparr>cfg_compression := codec\<rparr>) (b, dd))"

text \<open>
  \<^verbatim>\<open>main\<close> up to the state the handlers share; every producer is a handle on its topic. When it
  returns early, the handles it holds are dropped first and the broker after them, on the
  multi-thread runtime that \<^verbatim>\<open>#[tokio::main]\<close> starts.
\<close>

definition leave_main :: "deps \<Rightarrow> broker \<times> data_dir \<Rightarrow> data_dir" where
  "leave_main D = (\<lambda>(b, dd).
     snd (broker_drop D (\<lambda>_. False) MultiThread (b\<lparr>b_topics := map (\<lambda>(name, e). (name, e\<lparr>te_handles := 0\<rparr>)) (b_topics b)\<rparr>, dd)))"

definition http_start :: "deps \<Rightarrow> data_dir \<Rightarrow> (app_state \<times> broker) res \<times> data_dir" where
  "http_start D dd =
     and_then (broker_open D dd) (\<lambda>b dd.
       case and_then (ensure_topic D ''bench_none'' NoCompression (b, dd)) (\<lambda>_ s.
            and_then (ensure_topic D ''bench_lz4'' Lz4 s) (\<lambda>_ s.
            and_then (ensure_topic D ''bench_zstd'' Zstd s) (\<lambda>_ (b, dd).
            and_then (in_state (\<lambda>b. (b, dd)) (producer_for ''bench_none'' b)) (\<lambda>none (b, dd).
            and_then (in_state (\<lambda>b. (b, dd)) (producer_for ''bench_lz4'' b)) (\<lambda>lz4 (b, dd).
            and_then (in_state (\<lambda>b. (b, dd)) (producer_for ''bench_zstd'' b)) (\<lambda>zstd (b, dd).
              case broker_topic ''bench_none'' b of
                (None, b) \<Rightarrow> (Panic (''topic '' @ [CHR 0x27] @ ''bench_none'' @ [CHR 0x27] @ '' exists after create''), b, dd)
              | (Some t, b) \<Rightarrow> (Ok \<lparr>topic_none = none, topic_lz4 = lz4, topic_zstd = zstd\<rparr>, b, dd))))))) of
         (Ok app, b, dd) \<Rightarrow> (Ok (app, b), dd)
       | (Err e, b, dd) \<Rightarrow> (Err e, leave_main D (b, dd))
       | (Panic m, b, dd) \<Rightarrow> (Panic m, leave_main D (b, dd)))"

definition http_dir :: "environment \<Rightarrow> string" where
  "http_dir env = env_or env ''KAFKO_DATA_DIR'' ''./kafko-http_data''"

definition bind_address :: "environment \<Rightarrow> string" where
  "bind_address env = env_or env ''KAFKO_BIND'' ''127.0.0.1:9091''"

text \<open>
  The whole start: \<open>listen\<close> is the outcome of binding an address. A server that could not bind
  leaves \<^verbatim>\<open>main\<close>; otherwise it serves with the state that is returned.
\<close>

definition http_main ::
  "deps \<Rightarrow> environment \<Rightarrow> (string \<Rightarrow> io_error option) \<Rightarrow> (string \<Rightarrow> data_dir) \<Rightarrow> (app_state \<times> broker) res \<times> (string \<Rightarrow> data_dir)" where
  "http_main D env listen fs =
     (case http_start D (reset_if_asked env (fs (http_dir env))) of
        (Ok (app, b), dd) \<Rightarrow>
          (case listen (bind_address env) of
             None \<Rightarrow> (Ok (app, b), fs(http_dir env := dd))
           | Some e \<Rightarrow> (Err (Io e), fs(http_dir env := leave_main D (b, dd))))
      | (Err e, dd) \<Rightarrow> (Err e, fs(http_dir env := dd))
      | (Panic m, dd) \<Rightarrow> (Panic m, fs(http_dir env := dd)))"

section \<open>Serving\<close>

text \<open>The two routes: \<^verbatim>\<open>POST /produce/:codec\<close> with a body and \<^verbatim>\<open>GET /hwm\<close>.\<close>

datatype request = Produce string bytes | Hwm

fun serve_request ::
  "deps \<Rightarrow> (kafko_error \<Rightarrow> string) \<Rightarrow> int \<Rightarrow> request \<Rightarrow> app_state \<Rightarrow> response res \<times> app_state" where
  "serve_request D show_error now (Produce codec body) app = produce_handler D show_error now codec body app"
| "serve_request D show_error now Hwm app =
     (case hwm_handler app of Ok text \<Rightarrow> (Ok (Success text), app) | Err e \<Rightarrow> (Err e, app) | Panic m \<Rightarrow> (Panic m, app))"

text \<open>A sequence of requests; \<open>now n\<close> is the time when \<open>n\<close> of them are still to come.\<close>

fun serve_all ::
  "deps \<Rightarrow> (kafko_error \<Rightarrow> string) \<Rightarrow> (nat \<Rightarrow> int) \<Rightarrow> request list \<Rightarrow> app_state \<Rightarrow> response res list \<times> app_state" where
  "serve_all D show_error now [] app = ([], app)"
| "serve_all D show_error now (req # reqs) app =
     (let (x, app) = serve_request D show_error (now (length reqs)) req app;
          (xs, app) = serve_all D show_error now reqs app
      in (x # xs, app))"

section \<open>Properties\<close>

definition app_topic :: "string \<Rightarrow> app_state \<Rightarrow> topic" where
  "app_topic codec app = (if codec = ''none'' then topic_none app else if codec = ''lz4'' then topic_lz4 app else topic_zstd app)"

text \<open>
  Producing over HTTP. A request for a known codec appends its body, without a key, to that
  codec's topic and to no other, and is answered with the offset the record got; a request for
  any other codec is answered as a bad request and nothing is written.
\<close>

lemma produce_handler_spec:
  assumes "topic_live D (app_topic codec app) [a] (length (encoded D (cfg_compression (t_config (app_topic codec app))) r) + n)"
    and "topic_good D (app_topic codec app) r" and "r = record_new (timestamp_now now) None body"
  shows "if codec \<in> {''none'', ''lz4'', ''zstd''}
         then \<exists>app'. produce_handler D show_error now codec body app = (Ok (Success (nat_to_dec (al_next a))), app') \<and>
                topic_live D (app_topic codec app') [al_append [r] a] n \<and>
                (\<forall>other \<in> {''none'', ''lz4'', ''zstd''} - {codec}. app_topic other app' = app_topic other app)
         else \<exists>text. produce_handler D show_error now codec body app = (Ok (BadRequest text), app)"
proof -
  have key: "key r = None"
    by (simp add: assms(3) record_new_def)
  have route: "route_of (length [a]) (t_round_robin (app_topic codec app)) (key r) = 0"
    by (simp add: route_of_def key)
  obtain t' where s: "send_record D r (app_topic codec app) = (Ok (position_new 0 (al_next a)), t')" "topic_live D t' [al_append [r] a] n"
    using send_record_ok [OF assms(1,2) route [symmetric]] by auto
  have "send D now None body t = send_record D r t" for t
    by (simp only: send_def send_record_def key assms(3) [symmetric])
  with s(1) have send: "send D now None body (app_topic codec app) = (Ok (position_new 0 (al_next a)), t')"
    by simp
  show ?thesis
    using send s(2) by (auto simp: produce_handler_def app_topic_def respond_def position_new_def)
qed

lemma produce_handler_spec_witness:
  "\<exists>app app'. produce_handler demo_deps (\<lambda>e. ''error'') 1 ''none'' [1, 2, 3] app = (Ok (Success (nat_to_dec 0)), app')"
proof -
  let ?r = "record_new (timestamp_now 1) None [1, 2, 3]" and ?a = "\<lparr>al_first = 0, al_records = []\<rparr>"
  have u: "unat (1 :: u32) = 1" "(1 :: u32) \<noteq> 0" by simp_all
  obtain t where t: "topic_live demo_deps t [?a] 1000" "t_config t = demo_cfg"
    using topic_create_live [OF demo_codec_laws demo_fresh u(2), of "''t''"] by auto
  define app where "app = \<lparr>topic_none = t, topic_lz4 = t, topic_zstd = t\<rparr>"
  have c: "app_topic ''none'' app = t" "cfg_compression (t_config t) = NoCompression"
    using t(2) by (simp_all add: app_def app_topic_def demo_cfg_def default_log_config_def)
  have "length (encoded demo_deps NoCompression ?r) \<le> 1000" "encodable demo_deps NoCompression ?r"
    unfolding length_encoded_uncompressed
    by (simp_all add: wire_size_def record_new_def key_part_def encodable_def demo_deps_def lengths_fit_def)
  with topic_live_mono [OF t(1)] c
  have "topic_live demo_deps (app_topic ''none'' app) [?a] (length (encoded demo_deps (cfg_compression (t_config (app_topic ''none'' app))) ?r) + 0)"
    "topic_good demo_deps (app_topic ''none'' app) ?r"
    by simp_all
  from produce_handler_spec [OF this refl, of "\<lambda>e. ''error''"]
  obtain app' where "produce_handler demo_deps (\<lambda>e. ''error'') 1 ''none'' [1, 2, 3] app = (Ok (Success (nat_to_dec (al_next ?a))), app')"
    by auto
  then show ?thesis
    by (intro exI) (simp add: al_next_def)
qed

end
