(* ===== verification/Kafko_HttpProps.thy ===== *)
theory Kafko_HttpProps
  imports Kafko_Http Kafko_EndToEnd
begin

text \<open>
  The HTTP front end from an empty directory through any sequence of requests: what is answered
  and what the three topics hold.
\<close>

section \<open>Calls as steps of a partition\<close>

lemma partition_append_steps:
  assumes "w_inbox (p_writer p) = []" and "partition_append D r p = (x, p')"
  shows "(partition_step D)\<^sup>*\<^sup>* p p'"
proof (cases "p_status p = Running \<and> \<not> p_closed p")
  case True
  let ?i = "fresh_channel p"
  have "partition_step D p (enqueue (Append r ?i) p)"
    using True assms(1) fresh_channel_notin [of p] partition_step.client_send [of p "Append r ?i" D]
    by (simp add: enqueue_def INBOX_CAPACITY_def)
  moreover have "p' = run_inbox D (enqueue (Append r ?i) p)"
    using assms(2) True by (auto simp: partition_append_def partition_call_def Let_def split: option.splits sum.splits reply.splits)
  ultimately show ?thesis
    using run_inbox_run [of D "enqueue (Append r ?i) p"] by (metis converse_rtranclp_into_rtranclp)
next
  case False
  then have "p' = p"
    using assms(2) by (auto simp: partition_append_def partition_call_def)
  then show ?thesis by simp
qed

text \<open>A topic of one partition whose high-water mark is in step with its log.\<close>

definition marked :: "topic \<Rightarrow> bool" where
  "marked t \<longleftrightarrow> (\<exists>p. t_partitions t = [p] \<and> partition_inv 0 p)"

lemma marked_append:
  assumes "topic_live D t [a] n" and "marked t" and "append_to D 0 r t = (x, t')"
  shows "marked t'"
proof -
  obtain p where p: "t_partitions t = [p]" "partition_inv 0 p"
    using assms(2) by (auto simp: marked_def)
  obtain y q where q: "partition_append D r p = (y, q)"
    by (cases "partition_append D r p")
  have "w_inbox (p_writer p) = []"
    using assms(1) p(1) by (auto simp: topic_live_def part_repr_def live_def)
  then have "partition_inv 0 q"
    using partition_inv_reachable [OF partition_append_steps [OF _ q] p(2)] by simp
  moreover have "t_partitions t' = [q]"
    using assms(3) p(1) q by (cases y) (auto simp: append_to_def topic_partition_def)
  ultimately show ?thesis
    by (simp add: marked_def)
qed

lemma hwm_marked:
  assumes "topic_live D t [a] n" and "marked t"
  shows "\<exists>p. topic_partition t 0 = Some p \<and> high_water_mark p = al_next a"
proof -
  obtain p where p: "t_partitions t = [p]" "partition_inv 0 p"
    using assms(2) by (auto simp: marked_def)
  have "next_offset (w_log (p_writer p)) = al_next a"
    using assms(1) p(1) by (auto simp: topic_live_def part_repr_def live_def serving_def elim!: log_models_cases)
  with p show ?thesis
    by (simp add: topic_partition_def partition_inv_def high_water_mark_def)
qed

lemma marked_create:
  assumes "topic_create D name 1 cfg td = (Ok t, td')" and "map high_water_mark (t_partitions t) = [0]"
  shows "marked t"
  using assms by (auto simp: topic_create_def from_parts_def marked_def and_then_eq_Ok in_state_eq_Ok dest!: partition_open_inv)

section \<open>The state of the server\<close>

abbreviation codecs :: "string set" where
  "codecs \<equiv> {''none'', ''lz4'', ''zstd''}"

definition codec_of :: "string \<Rightarrow> compression" where
  "codec_of codec = (if codec = ''none'' then NoCompression else if codec = ''lz4'' then Lz4 else Zstd)"

text \<open>The bodies posted for a codec, in order.\<close>

definition posts :: "string \<Rightarrow> request list \<Rightarrow> bytes list" where
  "posts codec reqs = List.map_filter (\<lambda>req. case req of Produce c body \<Rightarrow> if c = codec then Some body else None | Hwm \<Rightarrow> None) reqs"

lemma posts_simps [simp]:
  "posts codec [] = []" "posts codec (Produce c body # reqs) = (if c = codec then body # posts codec reqs else posts codec reqs)"
  "posts codec (Hwm # reqs) = posts codec reqs" "posts codec (reqs @ reqs') = posts codec reqs @ posts codec reqs'"
  by (simp_all add: posts_def map_filter_simps List.map_filter_def)

definition posts_bytes :: "deps \<Rightarrow> string \<Rightarrow> request list \<Rightarrow> nat" where
  "posts_bytes D codec reqs = sum_list (map (\<lambda>body. length (encoded D (codec_of codec) (record_new 0 None body))) (posts codec reqs))"

definition unknown_codec :: "string \<Rightarrow> string" where
  "unknown_codec codec = ''unknown codec: '' @ [CHR 0x27] @ codec @ [CHR 0x27] @ ''. Expected '' @ [CHR 0x27] @ ''none'' @ [CHR 0x27]
     @ '', '' @ [CHR 0x27] @ ''lz4'' @ [CHR 0x27] @ '', or '' @ [CHR 0x27] @ ''zstd'' @ [CHR 0x27]"

text \<open>The answer to a request after those in \<open>before\<close>.\<close>

fun answer :: "request list \<Rightarrow> request \<Rightarrow> response" where
  "answer before (Produce codec body) =
     (if codec \<in> codecs then Success (nat_to_dec (length (posts codec before))) else BadRequest (unknown_codec codec))"
| "answer before Hwm = Success (nat_to_dec (length (posts ''none'' before)))"

definition topic_posts :: "deps \<Rightarrow> compression \<Rightarrow> bytes list \<Rightarrow> nat \<Rightarrow> topic \<Rightarrow> bool" where
  "topic_posts D c bodies n t \<longleftrightarrow> marked t \<and> cfg_compression (t_config t) = c \<and>
     (\<exists>a. topic_live D t [a] n \<and> al_first a = 0 \<and> map val (al_records a) = bodies)"

definition serving_posts :: "deps \<Rightarrow> request list \<Rightarrow> request list \<Rightarrow> app_state \<Rightarrow> bool" where
  "serving_posts D before after app \<longleftrightarrow>
     (\<forall>codec \<in> codecs. topic_posts D (codec_of codec) (posts codec before) (posts_bytes D codec after) (app_topic codec app))"

lemma topic_posts_send:
  assumes "codec_laws D" and "topic_posts D c bodies (length (encoded D c (record_new 0 None body)) + n) t" and "encodable D c (record_new 0 None body)"
  shows "\<exists>t'. send D now None body t = (Ok (position_new 0 (length bodies)), t') \<and> topic_posts D c (bodies @ [body]) n t'"
proof -
  let ?r = "record_new (timestamp_now now) None body"
  obtain a where a: "topic_live D t [a] (length (encoded D c (record_new 0 None body)) + n)" "al_first a = 0" "map val (al_records a) = bodies"
    and t: "marked t" "cfg_compression (t_config t) = c"
    using assms(2) by (auto simp: topic_posts_def)
  have r: "encodable D c ?r" "length (encoded D c ?r) = length (encoded D c (record_new 0 None body))"
    using assms(1,3) encodable_timestamp [of D c "timestamp_now now" None body] length_encoded_timestamp [of D c "timestamp_now now" None body]
    by (auto simp: encodable_def)
  let ?t = "t\<lparr>t_round_robin := t_round_robin t + 1\<rparr>"
  obtain p where p: "route None t = (Ok p, ?t)" "p = 0"
    using route_ok [OF topic_liveD(2) [OF a(1)], of None] topic_liveD(3) [OF a(1)] by (auto simp: route_of_def advance_def unat_eq_0)
  have "topic_live D ?t [a] (length (encoded D (cfg_compression (t_config ?t)) ?r) + n)"
    using a(1) r(2) t(2) by (simp add: topic_live_def)
  from append_to_ok [OF this, of 0] r(1) t(2) obtain t' where t': "append_to D 0 ?r ?t = (Ok (position_new 0 (al_next a)), t')"
    "topic_live D t' [al_append [?r] a] n" "t_config t' = t_config t"
    by auto
  have "marked t'"
    using marked_append [OF _ _ t'(1), of a] a(1) t(1) by (auto simp: topic_live_def marked_def)
  moreover have "al_next a = length bodies" "map val (al_records (al_append [?r] a)) = bodies @ [body]" "al_first (al_append [?r] a) = 0"
    using a(2,3) by (auto simp: al_next_def al_append_def record_new_def)
  ultimately show ?thesis
    using p t' t(2) by (auto simp: send_def topic_posts_def)
qed

lemma produce_known:
  assumes "codec \<in> codecs" and "send D now None body (app_topic codec app) = (Ok (position_new 0 n), t)"
  shows "\<exists>app'. produce_handler D show_error now codec body app = (Ok (Success (nat_to_dec n)), app') \<and> app_topic codec app' = t \<and>
    (\<forall>c \<in> codecs - {codec}. app_topic c app' = app_topic c app)"
  using assms by (elim insertE emptyE) (auto simp: produce_handler_def respond_def position_new_def app_topic_def)

lemma topic_posts_mono: "topic_posts D c bodies n t \<Longrightarrow> m \<le> n \<Longrightarrow> topic_posts D c bodies m t"
  unfolding topic_posts_def using topic_live_mono by blast

lemma serve_request_ok:
  assumes "codec_laws D" and ok: "serving_posts D before (req # after) app"
    and good: "\<forall>codec \<in> codecs. \<forall>body \<in> set (posts codec [req]). encodable D (codec_of codec) (record_new 0 None body)"
  shows "\<exists>app'. serve_request D show_error now req app = (Ok (answer before req), app') \<and> serving_posts D (before @ [req]) after app'"
proof (cases req)
  case (Produce codec body)
  show ?thesis
  proof (cases "codec \<in> codecs")
    case True
    have "topic_posts D (codec_of codec) (posts codec before) (length (encoded D (codec_of codec) (record_new 0 None body)) + posts_bytes D codec after) (app_topic codec app)"
      using ok True Produce by (auto simp: serving_posts_def posts_bytes_def)
    from topic_posts_send [OF assms(1) this] good True Produce obtain t' where
      t': "send D now None body (app_topic codec app) = (Ok (position_new 0 (length (posts codec before))), t')"
        "topic_posts D (codec_of codec) (posts codec before @ [body]) (posts_bytes D codec after) t'"
      by fastforce
    obtain app' where app': "produce_handler D show_error now codec body app = (Ok (Success (nat_to_dec (length (posts codec before)))), app')"
      "app_topic codec app' = t'" "\<forall>c \<in> codecs - {codec}. app_topic c app' = app_topic c app"
      using produce_known [OF True t'(1)] by blast
    have "topic_posts D (codec_of c) (posts c (before @ [req])) (posts_bytes D c after) (app_topic c app')" if "c \<in> codecs" for c
    proof (cases "c = codec")
      case True
      with t'(2) app'(2) Produce show ?thesis by simp
    next
      case False
      have "topic_posts D (codec_of c) (posts c before) (posts_bytes D c (req # after)) (app_topic c app)"
        using ok that unfolding serving_posts_def by (rule bspec)
      moreover have "app_topic c app' = app_topic c app"
        using app'(3) that False by (simp only: Diff_iff singleton_iff simp_thms)
      ultimately show ?thesis
        using False Produce by (simp add: posts_bytes_def)
    qed
    with app'(1) True Produce show ?thesis
      unfolding serving_posts_def by simp
  next
    case False
    with ok Produce show ?thesis
      by (auto simp: produce_handler_def unknown_codec_def serving_posts_def posts_bytes_def)
  qed
next
  case Hwm
  obtain a where "topic_live D (topic_none app) [a] (posts_bytes D ''none'' (req # after))" "marked (topic_none app)" "al_first a = 0"
    "map val (al_records a) = posts ''none'' before"
    using ok by (auto simp: serving_posts_def topic_posts_def app_topic_def)
  with hwm_marked [OF this(1,2)] have "hwm_handler app = Ok (nat_to_dec (length (posts ''none'' before)))"
    by (auto simp: hwm_handler_def al_next_def simp flip: length_map [of val])
  with ok Hwm show ?thesis
    by (auto simp: serving_posts_def posts_bytes_def)
qed

lemma serve_all_ok:
  assumes "codec_laws D" and "serving_posts D before reqs app"
    and "\<forall>codec \<in> codecs. \<forall>body \<in> set (posts codec reqs). encodable D (codec_of codec) (record_new 0 None body)"
  shows "\<exists>app'. serve_all D show_error now reqs app = (map (\<lambda>i. Ok (answer (before @ take i reqs) (reqs ! i))) [0 ..< length reqs], app') \<and>
           serving_posts D (before @ reqs) [] app'"
  using assms(2,3)
proof (induction reqs arbitrary: before app)
  case (Cons req reqs)
  have "posts codec (req # reqs) = posts codec [req] @ posts codec reqs" for codec
    using posts_simps(4) [of codec "[req]" reqs] by simp
  with Cons.prems(2) have good: "\<forall>codec \<in> codecs. \<forall>body \<in> set (posts codec [req]). encodable D (codec_of codec) (record_new 0 None body)"
    "\<forall>codec \<in> codecs. \<forall>body \<in> set (posts codec reqs). encodable D (codec_of codec) (record_new 0 None body)"
    by (simp_all only: set_append ball_Un) blast+
  obtain app1 where 1: "serve_request D show_error (now (length reqs)) req app = (Ok (answer before req), app1)" "serving_posts D (before @ [req]) reqs app1"
    using serve_request_ok [OF assms(1) Cons.prems(1) good(1)] by blast
  obtain app2 where 2: "serve_all D show_error now reqs app1 = (map (\<lambda>i. Ok (answer ((before @ [req]) @ take i reqs) (reqs ! i))) [0 ..< length reqs], app2)"
    "serving_posts D ((before @ [req]) @ reqs) [] app2"
    using Cons.IH [OF 1(2) good(2)] by blast
  have "map (\<lambda>i. Ok (answer (before @ take i (req # reqs)) ((req # reqs) ! i))) [0 ..< length (req # reqs)] =
      Ok (answer before req) # map (\<lambda>i. Ok (answer ((before @ [req]) @ take i reqs) (reqs ! i))) [0 ..< length reqs]"
    by (simp add: upt_conv_Cons map_Suc_upt [symmetric] comp_def del: upt_Suc)
  with 1(1) 2 show ?case
    by (simp del: upt_Suc answer.simps)
qed simp

section \<open>Start-up\<close>

definition codec_config :: "compression \<Rightarrow> log_config" where
  "codec_config c = default_log_config\<lparr>cfg_compression := c\<rparr>"

lemma ensure_creates:
  assumes "topic_create D name 1 (codec_config c) (topic_dir_of dd name) = (Ok t, td)" and "registered b name = None"
  shows "ensure_topic D name c (b, dd) = (Ok (), set_entry name \<lparr>te_topic = t, te_handles = 0\<rparr> b, set_topic_dir name td dd)"
  using assms by (simp add: ensure_topic_def has_topic_def create_topic_with_config_def create_topic_inner_def register_topic_def codec_config_def)

lemma create_codec_topic:
  assumes "codec_laws D" and "td_subdirs td = []" and "os_files (td_fresh td) = []" and "os_faults (td_fresh td) = []"
    and "n \<le> os_read_limit (td_fresh td)" and "2 ^ 30 + n \<le> 2 ^ 32"
  obtains t td' where "topic_create D name 1 (codec_config c) td = (Ok t, td')" "topic_posts D c [] n t"
proof -
  have thr: "segment_size_threshold (codec_config c) + n \<le> 2 ^ 32" and one: "(1 :: u32) \<noteq> 0" "unat (1 :: u32) = 1"
    using assms(6) by (simp_all add: codec_config_def default_log_config_def)
  from topic_create_live [OF assms(1-5) thr one(1), of name, unfolded one(2)] obtain t td' where
    t: "topic_create D name 1 (codec_config c) td = (Ok t, td')" "topic_live D t [\<lparr>al_first = 0, al_records = []\<rparr>] n"
      "map high_water_mark (t_partitions t) = [0]" "t_config t = codec_config c"
    by (auto simp: numeral_1_eq_Suc_0)
  then have "topic_posts D c [] n t"
    using marked_create [OF t(1,3)] by (auto simp: topic_posts_def codec_config_def)
  with t(1) show thesis
    by (rule that)
qed

lemma http_start_ok:
  assumes "codec_laws D" and "dd_topics dd = []" and "dd_faults dd = []" and "\<not> dd_locked dd"
    and fresh: "td_subdirs (dd_fresh dd) = []" "os_files (td_fresh (dd_fresh dd)) = []" "os_faults (td_fresh (dd_fresh dd)) = []"
    and room: "n \<le> os_read_limit (td_fresh (dd_fresh dd))" "2 ^ 30 + n \<le> 2 ^ 32"
  shows "\<exists>app b dd'. http_start D dd = (Ok (app, b), dd') \<and> (\<forall>codec \<in> codecs. topic_posts D (codec_of codec) [] n (app_topic codec app))"
proof -
  let ?b = "\<lparr>b_topics = [], b_config = default_log_config\<rparr>" and ?dd = "dd\<lparr>dd_locked := True\<rparr>"
  note create = create_codec_topic [OF assms(1) fresh room]
  obtain t1 td1 where t1: "topic_create D ''bench_none'' 1 (codec_config NoCompression) (dd_fresh dd) = (Ok t1, td1)" "topic_posts D NoCompression [] n t1"
    by (rule create)
  obtain t2 td2 where t2: "topic_create D ''bench_lz4'' 1 (codec_config Lz4) (dd_fresh dd) = (Ok t2, td2)" "topic_posts D Lz4 [] n t2"
    by (rule create)
  obtain t3 td3 where t3: "topic_create D ''bench_zstd'' 1 (codec_config Zstd) (dd_fresh dd) = (Ok t3, td3)" "topic_posts D Zstd [] n t3"
    by (rule create)
  define b1 where "b1 = set_entry ''bench_none'' \<lparr>te_topic = t1, te_handles = 0\<rparr> ?b"
  define b2 where "b2 = set_entry ''bench_lz4'' \<lparr>te_topic = t2, te_handles = 0\<rparr> b1"
  define b3 where "b3 = set_entry ''bench_zstd'' \<lparr>te_topic = t3, te_handles = 0\<rparr> b2"
  define dd1 where "dd1 = set_topic_dir ''bench_none'' td1 ?dd"
  define dd2 where "dd2 = set_topic_dir ''bench_lz4'' td2 dd1"
  define dd3 where "dd3 = set_topic_dir ''bench_zstd'' td3 dd2"
  have dir: "topic_dir_of dd name = dd_fresh dd" "registered ?b name = None" for name
    using assms(2) by (simp_all add: topic_dir_of_def registered_def)
  have o: "broker_open D dd = (Ok ?b, ?dd)"
    using open_empty [OF assms(2-4)] by (simp add: broker_open_def)
  have e: "ensure_topic D ''bench_none'' NoCompression (?b, ?dd) = (Ok (), b1, dd1)" "ensure_topic D ''bench_lz4'' Lz4 (b1, dd1) = (Ok (), b2, dd2)"
    "ensure_topic D ''bench_zstd'' Zstd (b2, dd2) = (Ok (), b3, dd3)"
    using ensure_creates [of D "''bench_none''" NoCompression ?dd t1 td1 ?b] ensure_creates [of D "''bench_lz4''" Lz4 dd1 t2 td2 b1]
      ensure_creates [of D "''bench_zstd''" Zstd dd2 t3 td3 b2] t1(1) t2(1) t3(1) dir
    by (simp_all add: b1_def b2_def b3_def dd1_def dd2_def dd3_def)
  have reg: "registered b3 ''bench_none'' = Some \<lparr>te_topic = t1, te_handles = 0\<rparr>" "registered b3 ''bench_lz4'' = Some \<lparr>te_topic = t2, te_handles = 0\<rparr>"
    "registered b3 ''bench_zstd'' = Some \<lparr>te_topic = t3, te_handles = 0\<rparr>"
    by (simp_all add: b1_def b2_def b3_def)
  obtain b where "http_start D dd = (Ok (\<lparr>topic_none = t1, topic_lz4 = t2, topic_zstd = t3\<rparr>, b), dd3)"
    using o e reg by (simp add: http_start_def producer_for_def broker_topic_def)
  with t1(2) t2(2) t3(2) show ?thesis
    by (auto simp: app_topic_def codec_of_def)
qed

section \<open>Properties\<close>

text \<open>
  A reset does not ask for the lock: the directory of a broker that is open elsewhere is emptied
  and opened all the same.
\<close>

lemma reset_ignores_lock:
  assumes "env ''KAFKO_RESET'' \<noteq> None" and "dd_locked dd" and "dd_faults dd = []"
  shows "\<exists>dd'. broker_open D (reset_if_asked env dd) = (Ok \<lparr>b_topics = [], b_config = default_log_config\<rparr>, dd')"
  using assms open_empty [of "remove_data_dir dd" D default_log_config] by (simp add: reset_if_asked_def remove_data_dir_def broker_open_def)

text \<open>
  C21: a server from start to the last request. On an empty data directory, or after a reset, the
  server starts, and then any sequence of requests is answered like this: a body posted for one of
  the three codecs with the number of bodies posted for that codec before, a body for any other
  codec as a bad request, and a question for the high-water mark with the number of bodies posted
  without compression. At the end the topic of each codec holds exactly the bodies posted for it,
  in order.
\<close>

theorem http_session:
  assumes "codec_laws D" and "dd = reset_if_asked env (fs (http_dir env))" and "dd_topics dd = []" and "dd_faults dd = []" and "\<not> dd_locked dd"
    and "td_subdirs (dd_fresh dd) = []" and "os_files (td_fresh (dd_fresh dd)) = []" and "os_faults (td_fresh (dd_fresh dd)) = []"
    and "listen (bind_address env) = None"
    and "\<forall>codec \<in> codecs. \<forall>body \<in> set (posts codec reqs). encodable D (codec_of codec) (record_new 0 None body)"
    and "\<forall>codec \<in> codecs. posts_bytes D codec reqs \<le> room" and "room \<le> os_read_limit (td_fresh (dd_fresh dd))" and "2 ^ 30 + room \<le> 2 ^ 32"
  shows "\<exists>app b fs' app'. http_main D env listen fs = (Ok (app, b), fs') \<and>
    serve_all D show_error now reqs app = (map (\<lambda>i. Ok (answer (take i reqs) (reqs ! i))) [0 ..< length reqs], app') \<and>
    (\<forall>codec \<in> codecs. \<exists>a. topic_live D (app_topic codec app') [a] 0 \<and> al_first a = 0 \<and> map val (al_records a) = posts codec reqs)"
proof -
  obtain app b dd' where s: "http_start D dd = (Ok (app, b), dd')" "\<forall>codec \<in> codecs. topic_posts D (codec_of codec) [] room (app_topic codec app)"
    using http_start_ok [OF assms(1,3-8,12,13)] by blast
  then have "serving_posts D [] reqs app"
    using assms(11) topic_posts_mono unfolding serving_posts_def posts_simps by blast
  from serve_all_ok [OF assms(1) this assms(10)] obtain app' where
    a: "serve_all D show_error now reqs app = (map (\<lambda>i. Ok (answer (take i reqs) (reqs ! i))) [0 ..< length reqs], app')" "serving_posts D reqs [] app'"
    by auto
  have "\<forall>codec \<in> codecs. \<exists>a. topic_live D (app_topic codec app') [a] 0 \<and> al_first a = 0 \<and> map val (al_records a) = posts codec reqs"
    using a(2) by (auto simp: serving_posts_def topic_posts_def posts_bytes_def)
  moreover have "http_main D env listen fs = (Ok (app, b), fs(http_dir env := dd'))"
    using s(1) assms(2,9) by (simp add: http_main_def)
  ultimately show ?thesis
    using a(1) by blast
qed

lemma http_session_witness:
  "\<exists>app b fs' app'. http_main demo_deps (\<lambda>_. None) (\<lambda>_. None) (\<lambda>_. demo_dd) = (Ok (app, b), fs') \<and>
     serve_all demo_deps (\<lambda>e. ''error'') (\<lambda>_. 5) [Produce ''none'' [1, 2], Produce ''gzip'' [3], Produce ''none'' [], Hwm] app =
       ([Ok (Success (nat_to_dec 0)), Ok (BadRequest (unknown_codec ''gzip'')), Ok (Success (nat_to_dec 1)), Ok (Success (nat_to_dec 2))], app')"
proof -
  let ?reqs = "[Produce ''none'' [1, 2], Produce ''gzip'' [3], Produce ''none'' [], Hwm]"
  have dd: "demo_dd = reset_if_asked (\<lambda>_. None) ((\<lambda>_. demo_dd) (http_dir (\<lambda>_. None)))" "dd_topics demo_dd = []" "dd_faults demo_dd = []" "\<not> dd_locked demo_dd"
    "td_subdirs (dd_fresh demo_dd) = []" "os_files (td_fresh (dd_fresh demo_dd)) = []" "os_faults (td_fresh (dd_fresh demo_dd)) = []"
    "(\<lambda>_. None) (bind_address (\<lambda>_. None)) = None"
    by (simp_all add: reset_if_asked_def demo_dd_def demo_td_def demo_os_def)
  have reqs: "posts ''none'' ?reqs = [[1, 2], []]" "posts ''lz4'' ?reqs = []" "posts ''zstd'' ?reqs = []"
    by simp_all
  have good: "\<forall>codec \<in> codecs. \<forall>body \<in> set (posts codec ?reqs). encodable demo_deps (codec_of codec) (record_new 0 None body)"
    using reqs by (simp add: codec_of_def encodable_def record_new_def lengths_fit_def key_part_def)
  have ans: "map (\<lambda>i. Ok (answer (take i ?reqs) (?reqs ! i))) [0 ..< length ?reqs] =
      [Ok (Success (nat_to_dec 0)), Ok (BadRequest (unknown_codec ''gzip'')), Ok (Success (nat_to_dec 1)), Ok (Success (nat_to_dec 2))]"
    by (simp add: upt_rec numeral_2_eq_2)
  have "\<forall>codec \<in> codecs. posts_bytes demo_deps codec ?reqs \<le> 1000" "1000 \<le> os_read_limit (td_fresh (dd_fresh demo_dd))" "2 ^ 30 + 1000 \<le> (2 ^ 32 :: nat)"
    using reqs by (simp_all add: posts_bytes_def codec_of_def length_encoded_uncompressed wire_size_def record_new_def key_part_def
        demo_dd_def demo_td_def demo_os_def)
  from http_session [OF demo_codec_laws dd good this, of "\<lambda>e. ''error''" "\<lambda>_. 5", unfolded ans] show ?thesis
    by blast
qed

end
