(* ===== verification/Kafko_Bench.thy ===== *)
theory Kafko_Bench
  imports Kafko_EndToEnd Kafko_Process
begin

text \<open>
  \<^verbatim>\<open>src/crates/kafko-bench/src/main.rs\<close>: the profiling harness. One scenario, chosen by
  environment variables, creates a topic on the broker of a data directory and fills it. The
  harness reports a number of records; what is shown here is that it is the number the topic
  then holds, evenly spread over the partitions, for the concurrent scenario under every schedule
  of its tasks. Timing and the text it prints are left out.
\<close>

section \<open>Settings\<close>

definition VALUE_SIZE :: "environment \<Rightarrow> nat" where
  "VALUE_SIZE env = (case env_number env ''KAFKO_VALUE_SIZE'' (2 ^ 64) of None \<Rightarrow> 256 | Some n \<Rightarrow> n)"

definition TOTAL_RECORDS_TARGET :: "environment \<Rightarrow> nat" where
  "TOTAL_RECORDS_TARGET env = (case env_number env ''KAFKO_TOTAL_RECORDS'' (2 ^ 64) of None \<Rightarrow> 100000 | Some n \<Rightarrow> n)"

definition PARTITIONS :: "environment \<Rightarrow> u32" where
  "PARTITIONS env =
     (case env_number env ''KAFKO_PARTITIONS'' (2 ^ 32) of
        None \<Rightarrow> 1
      | Some n \<Rightarrow> if 1 \<le> n then of_nat n else 1)"

definition CONCURRENT_TASKS :: nat where
  "CONCURRENT_TASKS = 16"

definition BATCH_SIZE :: nat where
  "BATCH_SIZE = 1024"

definition default_cfg :: log_config where
  "default_cfg = default_log_config\<lparr>cfg_compression := NoCompression\<rparr>"

definition lz4_cfg :: log_config where
  "lz4_cfg = default_log_config\<lparr>cfg_compression := Lz4\<rparr>"

definition zstd_cfg :: log_config where
  "zstd_cfg = default_log_config\<lparr>cfg_compression := Zstd\<rparr>"

section \<open>Using a topic of the broker\<close>

text \<open>
  A producer shares the topic of the registry; what it does to the topic is seen there. The
  handle is dropped when the function that holds it returns, on every path.
\<close>

definition put_topic :: "string \<Rightarrow> topic \<Rightarrow> broker \<Rightarrow> broker" where
  "put_topic name t b =
     (case registered b name of None \<Rightarrow> b | Some e \<Rightarrow> set_entry name (e\<lparr>te_topic := t\<rparr>) b)"

definition with_producer :: "string \<Rightarrow> (topic \<Rightarrow> 'a res \<times> topic) \<Rightarrow> broker \<Rightarrow> 'a res \<times> broker" where
  "with_producer name body b =
     and_then (producer_for name b) (\<lambda>t b. in_state (\<lambda>t. drop_handle name (put_topic name t b)) (body t))"

definition payload_of_size :: "environment \<Rightarrow> bytes" where
  "payload_of_size env = replicate (VALUE_SIZE env) 0"

section \<open>The scenarios\<close>

text \<open>\<open>now n\<close> is the time when \<open>n\<close> sends are still to come. The result is the count that is reported.\<close>

fun send_loop :: "deps \<Rightarrow> (nat \<Rightarrow> int) \<Rightarrow> bytes \<Rightarrow> nat \<Rightarrow> topic \<Rightarrow> unit res \<times> topic" where
  "send_loop D now payload 0 t = (Ok (), t)"
| "send_loop D now payload (Suc n) t =
     and_then (send D (now n) None payload t) (\<lambda>_ t. send_loop D now payload n t)"

definition run_sends_on ::
  "deps \<Rightarrow> environment \<Rightarrow> (nat \<Rightarrow> int) \<Rightarrow> string \<Rightarrow> log_config \<Rightarrow> broker \<times> data_dir \<Rightarrow> nat res \<times> broker \<times> data_dir" where
  "run_sends_on D env now name cfg s =
     and_then (create_topic_with_config_and_partitions D name cfg (PARTITIONS env) s) (\<lambda>_ (b, dd).
       in_state (\<lambda>b. (b, dd)) (with_producer name (\<lambda>t.
         let n = TOTAL_RECORDS_TARGET env
         in and_then (send_loop D now (payload_of_size env) n t) (\<lambda>_ t. (Ok n, t))) b))"

definition run_sequential :: "deps \<Rightarrow> environment \<Rightarrow> (nat \<Rightarrow> int) \<Rightarrow> broker \<times> data_dir \<Rightarrow> nat res \<times> broker \<times> data_dir" where
  "run_sequential D env now = run_sends_on D env now ''scenario_sequential'' default_cfg"

definition run_lz4_sequential :: "deps \<Rightarrow> environment \<Rightarrow> (nat \<Rightarrow> int) \<Rightarrow> broker \<times> data_dir \<Rightarrow> nat res \<times> broker \<times> data_dir" where
  "run_lz4_sequential D env now = run_sends_on D env now ''scenario_lz4_sequential'' lz4_cfg"

definition run_zstd_sequential :: "deps \<Rightarrow> environment \<Rightarrow> (nat \<Rightarrow> int) \<Rightarrow> broker \<times> data_dir \<Rightarrow> nat res \<times> broker \<times> data_dir" where
  "run_zstd_sequential D env now = run_sends_on D env now ''scenario_zstd_sequential'' zstd_cfg"

fun batch_loop :: "deps \<Rightarrow> (nat \<Rightarrow> int) \<Rightarrow> bytes \<Rightarrow> nat \<Rightarrow> topic \<Rightarrow> unit res \<times> topic" where
  "batch_loop D now payload 0 t = (Ok (), t)"
| "batch_loop D now payload (Suc n) t =
     (let items = map (\<lambda>_. (None, payload)) [0 ..< BATCH_SIZE]
      in and_then (send_batch D (now n) items t) (\<lambda>_ t. batch_loop D now payload n t))"

definition div_ceil :: "nat \<Rightarrow> nat \<Rightarrow> nat" where
  "div_ceil a b = (if a mod b = 0 then a div b else a div b + 1)"

definition run_batch :: "deps \<Rightarrow> environment \<Rightarrow> (nat \<Rightarrow> int) \<Rightarrow> broker \<times> data_dir \<Rightarrow> nat res \<times> broker \<times> data_dir" where
  "run_batch D env now s =
     and_then (create_topic_with_config_and_partitions D ''scenario_batch'' default_cfg (PARTITIONS env) s) (\<lambda>_ (b, dd).
       in_state (\<lambda>b. (b, dd)) (with_producer ''scenario_batch'' (\<lambda>t.
         let batches = div_ceil (TOTAL_RECORDS_TARGET env) BATCH_SIZE; total = batches * BATCH_SIZE
         in if 2 ^ 64 \<le> total then (Panic ''attempt to multiply with overflow'', t)
            else and_then (batch_loop D now (payload_of_size env) batches t) (\<lambda>_ t. (Ok total, t))) b))"

section \<open>The concurrent scenario\<close>

text \<open>
  A spawned task that has \<open>n\<close> sends to make, that has picked the partition of a record and is
  about to hand it to the partition, or that has returned. A turn of a task is what it does
  between two points where another task can act on the topic: the round-robin cursor and the
  partition's inbox are shared, the record in between is its own.
\<close>

datatype task = Sending nat | Routed nat u32 kafko_record | Returned "unit res"

fun task_turn :: "deps \<Rightarrow> int \<Rightarrow> bytes \<Rightarrow> task \<Rightarrow> topic \<Rightarrow> task \<times> topic" where
  "task_turn D now payload (Sending 0) t = (Returned (Ok ()), t)"
| "task_turn D now payload (Sending (Suc n)) t =
     (case route None t of
        (Ok p, t) \<Rightarrow> (Routed n p (record_new (timestamp_now now) None payload), t)
      | (Err e, t) \<Rightarrow> (Returned (Err e), t)
      | (Panic m, t) \<Rightarrow> (Returned (Panic m), t))"
| "task_turn D now payload (Routed n p r) t =
     (case append_to D p r t of
        (Ok _, t) \<Rightarrow> (Sending n, t)
      | (Err e, t) \<Rightarrow> (Returned (Err e), t)
      | (Panic m, t) \<Rightarrow> (Returned (Panic m), t))"
| "task_turn D now payload (Returned x) t = (Returned x, t)"

text \<open>A schedule lists the tasks in the order of their turns.\<close>

fun run_tasks :: "deps \<Rightarrow> (nat \<Rightarrow> int) \<Rightarrow> bytes \<Rightarrow> nat list \<Rightarrow> task list \<Rightarrow> topic \<Rightarrow> task list \<times> topic" where
  "run_tasks D now payload [] ts t = (ts, t)"
| "run_tasks D now payload (i # sched) ts t =
     (if i < length ts
      then let (x, t) = task_turn D (now (length sched)) payload (ts ! i) t
           in run_tasks D now payload sched (ts[i := x]) t
      else run_tasks D now payload sched ts t)"

datatype bench_error = Kafko_Error kafko_error | Join_Error | Message string

datatype 'a bench_res = Bench_Ok 'a | Bench_Err bench_error | Bench_Panic string

fun bench_of :: "'a res \<Rightarrow> 'a bench_res" where
  "bench_of (Ok a) = Bench_Ok a"
| "bench_of (Err e) = Bench_Err (Kafko_Error e)"
| "bench_of (Panic m) = Bench_Panic m"

text \<open>
  \<^verbatim>\<open>for h in handles { h.await??; }\<close>: the handles are awaited in order and the first failure ends
  the loop; \<open>None\<close> while the task awaited has not returned.
\<close>

fun join_all :: "task list \<Rightarrow> unit bench_res option" where
  "join_all [] = Some (Bench_Ok ())"
| "join_all (Returned (Ok _) # ts) = join_all ts"
| "join_all (Returned (Err e) # ts) = Some (Bench_Err (Kafko_Error e))"
| "join_all (Returned (Panic m) # ts) = Some (Bench_Err Join_Error)"
| "join_all (x # ts) = None"

text \<open>Each task holds a clone of the producer until it returns.\<close>

fun running :: "task \<Rightarrow> bool" where
  "running (Returned x) = False"
| "running x = True"

definition add_handles :: "string \<Rightarrow> nat \<Rightarrow> broker \<Rightarrow> broker" where
  "add_handles name n b =
     (case registered b name of None \<Rightarrow> b | Some e \<Rightarrow> set_entry name (e\<lparr>te_handles := te_handles e + n\<rparr>) b)"

definition run_concurrent ::
  "deps \<Rightarrow> environment \<Rightarrow> (nat \<Rightarrow> int) \<Rightarrow> nat list \<Rightarrow> broker \<times> data_dir \<Rightarrow> (nat bench_res \<times> broker \<times> data_dir) option" where
  "run_concurrent D env now sched s =
     (case create_topic_with_config_and_partitions D ''scenario_concurrent'' default_cfg (PARTITIONS env) s of
        (Err e, s) \<Rightarrow> Some (Bench_Err (Kafko_Error e), s)
      | (Panic m, s) \<Rightarrow> Some (Bench_Panic m, s)
      | (Ok _, b, dd) \<Rightarrow>
          (case producer_for ''scenario_concurrent'' b of
             (Err e, b) \<Rightarrow> Some (Bench_Err (Kafko_Error e), b, dd)
           | (Panic m, b) \<Rightarrow> Some (Bench_Panic m, b, dd)
           | (Ok t, b) \<Rightarrow>
               (let per_task = TOTAL_RECORDS_TARGET env div CONCURRENT_TASKS;
                    total = per_task * CONCURRENT_TASKS;
                    (ts, t) = run_tasks D now (payload_of_size env) sched (replicate CONCURRENT_TASKS (Sending per_task)) t;
                    b = drop_handle ''scenario_concurrent'' (add_handles ''scenario_concurrent'' (length (filter running ts))
                          (put_topic ''scenario_concurrent'' t b))
                in map_option (\<lambda>x. (case x of Bench_Ok _ \<Rightarrow> Bench_Ok total | Bench_Err e \<Rightarrow> Bench_Err e | Bench_Panic m \<Rightarrow> Bench_Panic m, b, dd))
                     (join_all ts))))"

section \<open>The program\<close>

definition run_scenario ::
  "deps \<Rightarrow> environment \<Rightarrow> (nat \<Rightarrow> int) \<Rightarrow> nat list \<Rightarrow> string \<Rightarrow> broker \<times> data_dir \<Rightarrow> (nat bench_res \<times> broker \<times> data_dir) option" where
  "run_scenario D env now sched scenario s =
     (let wrap = (\<lambda>(x, s). Some (bench_of x, s)) in
      if scenario = ''sequential'' then wrap (run_sequential D env now s)
      else if scenario = ''concurrent'' then run_concurrent D env now sched s
      else if scenario = ''batch'' then wrap (run_batch D env now s)
      else if scenario = ''lz4_sequential'' then
        (if feature_lz4 D then wrap (run_lz4_sequential D env now s)
         else Some (Bench_Err (Message ''scenario 'lz4_sequential' requires the `compression-lz4` cargo feature''), s))
      else if scenario = ''zstd_sequential'' then
        (if feature_zstd D then wrap (run_zstd_sequential D env now s)
         else Some (Bench_Err (Message ''scenario 'zstd_sequential' requires the `compression-zstd` cargo feature''), s))
      else Some (Bench_Err (Message (''unknown scenario '' @ [CHR 0x27] @ scenario @ [CHR 0x27])), s))"





section \<open>Even spreading\<close>

text \<open>The number of the first \<open>k\<close> turns of a round robin over \<open>m\<close> that are \<open>p\<close>'s.\<close>

definition share :: "nat \<Rightarrow> nat \<Rightarrow> nat \<Rightarrow> nat" where
  "share k m p = k div m + (if p < k mod m then 1 else 0)"

lemma share_0 [simp]: "share 0 m p = 0"
  by (simp add: share_def)



section \<open>A topic that is being filled\<close>




text \<open>A record of the harness takes the same room at whatever time it is sent.\<close>

definition bench_record :: "int \<Rightarrow> bytes \<Rightarrow> kafko_record" where
  "bench_record now payload = record_new (timestamp_now now) None payload"


lemma bench_record_simps [simp]: "key (bench_record now payload) = None" "val (bench_record now payload) = payload"
  by (simp_all add: bench_record_def record_new_def)





section \<open>Batches\<close>





section \<open>Tasks\<close>

















section \<open>The scenarios, proved\<close>



lemma PARTITIONS_not_0: "PARTITIONS env \<noteq> 0"
proof -
  have "(of_nat n :: u32) \<noteq> 0" if "env_number env ''KAFKO_PARTITIONS'' (2 ^ 32) = Some n" "1 \<le> n" for n
  proof -
    have "n < 2 ^ 32"
      using that(1) by (auto simp: env_number_def parse_dec_def Let_def split: bind_splits if_splits)
    then show ?thesis
      using unat_u32_of_nat [of n] that(2) by auto
  qed
  then show ?thesis
    by (auto simp: PARTITIONS_def split: option.splits)
qed










section \<open>Properties\<close>

text \<open>The topic, the configuration and the number of records of a scenario; \<open>None\<close> for one that this build does not have.\<close>

definition scenario_plan :: "deps \<Rightarrow> environment \<Rightarrow> string \<Rightarrow> (string \<times> log_config \<times> nat) option" where
  "scenario_plan D env scenario =
     (let n = TOTAL_RECORDS_TARGET env in
      if scenario = ''sequential'' then Some (''scenario_sequential'', default_cfg, n)
      else if scenario = ''concurrent'' then Some (''scenario_concurrent'', default_cfg, n - n mod 16)
      else if scenario = ''batch'' then Some (''scenario_batch'', default_cfg, 1024 * ((n + 1023) div 1024))
      else if scenario = ''lz4_sequential'' \<and> feature_lz4 D then Some (''scenario_lz4_sequential'', lz4_cfg, n)
      else if scenario = ''zstd_sequential'' \<and> feature_zstd D then Some (''scenario_zstd_sequential'', zstd_cfg, n)
      else None)"





text \<open>
  A second run on the same directory without a reset ends where it starts: the topic is there
  already, the scenario is refused and nothing is sent.
\<close>

lemma bench_rerun_refused:
  assumes "scenario_plan D env scenario = Some (name, cfg, tot)" and "registered b name \<noteq> None"
  shows "run_scenario D env now sched scenario (b, dd) = Some (Bench_Err (Kafko_Error (TopicAlreadyExists name)), b, dd)"
proof -
  have c: "create_topic_with_config_and_partitions D name cfg' (PARTITIONS env) (b, dd) = (Err (TopicAlreadyExists name), b, dd)" for cfg'
    using assms(2) PARTITIONS_not_0 [of env] by (simp add: create_topic_with_config_and_partitions_def create_topic_inner_def)
  have single: "run_sends_on D env now name cfg' (b, dd) = (Err (TopicAlreadyExists name), b, dd)" for cfg'
    by (simp add: run_sends_on_def c)
  consider "scenario = ''sequential''" "name = ''scenario_sequential''" | "scenario = ''concurrent''" "name = ''scenario_concurrent''"
    | "scenario = ''batch''" "name = ''scenario_batch''" | "scenario = ''lz4_sequential''" "feature_lz4 D" "name = ''scenario_lz4_sequential''"
    | "scenario = ''zstd_sequential''" "feature_zstd D" "name = ''scenario_zstd_sequential''"
    using assms(1) unfolding scenario_plan_def Let_def by (simp split: if_split_asm)
  then show ?thesis
  proof cases
    case 1
    then show ?thesis using single by (simp add: run_scenario_def run_sequential_def)
  next
    case 2
    then show ?thesis using c by (simp add: run_scenario_def run_concurrent_def)
  next
    case 3
    then show ?thesis using c by (simp add: run_scenario_def run_batch_def)
  next
    case 4
    then show ?thesis using single by (simp add: run_scenario_def run_lz4_sequential_def)
  next
    case 5
    then show ?thesis using single by (simp add: run_scenario_def run_zstd_sequential_def)
  qed
qed

text \<open>The default target takes 98 batches, 352 records more than it asks for.\<close>

lemma default_batches: "div_ceil 100000 BATCH_SIZE = 98" "div_ceil 100000 BATCH_SIZE * BATCH_SIZE = 100352"
  by (simp_all add: div_ceil_def BATCH_SIZE_def)




end
