(* ===== verification/Kafko_Crc.thy ===== *)
theory Kafko_Crc
  imports Kafko_Record
begin

unbundle bit_operations_syntax

text \<open>
  What the checksum of \<^verbatim>\<open>crc32fast\<close> promises, and the CRC-32 it documents as its algorithm, as
  a concrete function that keeps the promise. A record and a file of committed offsets are only
  as trustworthy as this checksum: the promise is the hypothesis of the theorems that say which
  damage is noticed.
\<close>

section \<open>The promise\<close>

text \<open>
  \<open>burst bs bs'\<close>: the strings differ, and only within four consecutive bytes. A cyclic
  redundancy check of 32 bits tells any such pair apart.
\<close>

definition burst :: "bytes \<Rightarrow> bytes \<Rightarrow> bool" where
  "burst bs bs' \<longleftrightarrow>
     (\<exists>pre w w' post. bs = pre @ w @ post \<and> bs' = pre @ w' @ post \<and> length w' = length w \<and> length w \<le> 4 \<and> w' \<noteq> w)"

definition detects_bursts :: "(bytes \<Rightarrow> u32) \<Rightarrow> bool" where
  "detects_bursts hash \<longleftrightarrow> (\<forall>bs bs'. burst bs bs' \<longrightarrow> hash bs' \<noteq> hash bs)"

lemma burst_length: "burst bs bs' \<Longrightarrow> length bs' = length bs"
  by (auto simp: burst_def)

lemma burst_one_byte: "i < length bs \<Longrightarrow> b \<noteq> bs ! i \<Longrightarrow> burst bs (bs[i := b])"
  unfolding burst_def
  by (intro exI [of _ "take i bs"] exI [of _ "[bs ! i]"] exI [of _ "[b]"] exI [of _ "drop (Suc i) bs"])
    (simp add: upd_conv_take_nth_drop Cons_nth_drop_Suc)

section \<open>CRC-32\<close>

text \<open>
  The reflected algorithm with the polynomial of IEEE 802.3: one step per bit, eight steps per
  byte, the register starting and ending complemented.
\<close>

definition CRC_POLY :: u32 where
  "CRC_POLY = 0xEDB88320"

definition crc_bit :: "u32 \<Rightarrow> u32" where
  "crc_bit c = (if bit c 0 then drop_bit 1 c XOR CRC_POLY else drop_bit 1 c)"

definition crc_byte :: "u32 \<Rightarrow> u8 \<Rightarrow> u32" where
  "crc_byte c b = (crc_bit ^^ 8) (c XOR ucast b)"

definition crc32_ieee :: "bytes \<Rightarrow> u32" where
  "crc32_ieee bs = NOT (foldl crc_byte 0xFFFFFFFF bs)"

lemma crc_byte_unroll:
  "crc_byte c b = crc_bit (crc_bit (crc_bit (crc_bit (crc_bit (crc_bit (crc_bit (crc_bit (c XOR ucast b))))))))"
  by (simp add: crc_byte_def eval_nat_numeral)

text \<open>The check value that catalogues of checksums list for this algorithm.\<close>

lemma crc32_ieee_check: "crc32_ieee (map (\<lambda>c. of_nat (of_char c)) ''123456789'') = 0xCBF43926"
  by (simp add: crc32_ieee_def crc_byte_unroll crc_bit_def CRC_POLY_def)

text \<open>
  \<open>agree_from k c d\<close>: the registers agree on the bits from \<open>k\<close> upwards. Going back one step
  costs one position at the low end, and reveals the bit that was shifted out, because the top
  bit of the polynomial is set.
\<close>

definition agree_from :: "nat \<Rightarrow> u32 \<Rightarrow> u32 \<Rightarrow> bool" where
  "agree_from k c d \<longleftrightarrow> (\<forall>i. k \<le> i \<and> i < 32 \<longrightarrow> bit c i = bit d i)"

lemma agree_from_0: "agree_from 0 c d \<longleftrightarrow> c = d"
  by (auto simp: agree_from_def intro!: bit_word_eqI)

lemma bit_crc_bit: "i < 32 \<Longrightarrow> bit (crc_bit c) i \<longleftrightarrow> (bit c (Suc i) \<noteq> (bit c 0 \<and> bit CRC_POLY i))"
  by (auto simp: crc_bit_def bit_simps)

lemma bit_past_word: "\<not> bit (c :: u32) 32"
  using bit_imp_le_length [of c 32] by auto

lemma CRC_POLY_top: "bit CRC_POLY 31"
  by code_simp

lemma crc_bit_back:
  assumes "agree_from k (crc_bit c) (crc_bit d)" and "k < 32"
  shows "agree_from (Suc k) c d" and "bit c 0 = bit d 0"
proof -
  have "bit (crc_bit c) 31 = bit (crc_bit d) 31"
    using assms by (simp add: agree_from_def)
  then show low: "bit c 0 = bit d 0"
    by (simp add: bit_crc_bit bit_past_word CRC_POLY_top)
  show "agree_from (Suc k) c d"
    unfolding agree_from_def
  proof (intro allI impI)
    fix i
    assume i: "Suc k \<le> i \<and> i < 32"
    then obtain j where j: "i = Suc j" by (cases i) auto
    with i assms(1) have "bit (crc_bit c) j = bit (crc_bit d) j"
      by (simp add: agree_from_def)
    with low i j show "bit c i = bit d i"
      by (simp add: bit_crc_bit) blast
  qed
qed

lemma crc_bits_back:
  assumes "agree_from k ((crc_bit ^^ n) c) ((crc_bit ^^ n) d)" and "k + n \<le> 32"
  shows "agree_from (k + n) c d \<and> (\<forall>i < n. bit c i = bit d i)"
  using assms
proof (induction n arbitrary: c d)
  case (Suc n)
  have "agree_from k ((crc_bit ^^ n) (crc_bit c)) ((crc_bit ^^ n) (crc_bit d))"
    using Suc.prems(1) by (simp only: funpow_Suc_right o_apply)
  with Suc.IH [of "crc_bit c" "crc_bit d"] Suc.prems(2)
  have prev: "agree_from (k + n) (crc_bit c) (crc_bit d)" "\<forall>i < n. bit (crc_bit c) i = bit (crc_bit d) i"
    by simp_all
  from crc_bit_back [OF prev(1)] Suc.prems(2) have one: "agree_from (Suc (k + n)) c d" "bit c 0 = bit d 0"
    by simp_all
  have "bit c i = bit d i" if i: "i < Suc n" for i
  proof (cases i)
    case (Suc j)
    with i prev(2) Suc.prems(2) one(2) show ?thesis
      by (simp add: bit_crc_bit) blast
  qed (use one(2) in simp)
  with one(1) show ?case by simp
qed (simp add: agree_from_def)

lemma crc_byte_back:
  assumes "agree_from k (crc_byte c b) (crc_byte d b')" and "k \<le> 24"
  shows "agree_from (k + 8) c d" and "c = d \<Longrightarrow> b = b'"
proof -
  have prev: "agree_from (k + 8) (c XOR ucast b) (d XOR ucast b')" "\<forall>i < 8. bit (c XOR ucast b) i = bit (d XOR ucast b') i"
    using crc_bits_back [of k 8 "c XOR ucast b" "d XOR ucast b'"] assms by (simp_all add: crc_byte_def)
  moreover have "\<not> bit b i \<and> \<not> bit b' i" if "8 \<le> i" for i
    using that bit_imp_le_length [of b i] bit_imp_le_length [of b' i] by auto
  ultimately show "agree_from (k + 8) c d"
    by (simp add: agree_from_def bit_simps)
  assume "c = d"
  with prev(2) show "b = b'"
    by (intro bit_word_eqI) (simp add: bit_simps, blast)
qed

text \<open>Up to four bytes are a function of the registers before and after them.\<close>

lemma crc_bytes_back:
  assumes "length w' = length w" and "8 * length w + k \<le> 32"
    and "agree_from k (foldl crc_byte c w) (foldl crc_byte d w')"
  shows "agree_from (8 * length w + k) c d"
  using assms
proof (induction w' w arbitrary: c d rule: list_induct2)
  case (Cons b' w' b w)
  then have "agree_from (8 * length w + k) (crc_byte c b) (crc_byte d b')" by simp
  from crc_byte_back(1) [OF this] Cons.prems show ?case by (simp add: add.commute add.left_commute)
qed simp

lemma crc_bytes_inj:
  assumes "length w' = length w" and "length w \<le> 4" and "foldl crc_byte c w = foldl crc_byte c w'"
  shows "w' = w"
  using assms
proof (induction w' w arbitrary: c rule: list_induct2)
  case (Cons b' w' b w)
  have "agree_from (8 * length w + 0) (crc_byte c b) (crc_byte c b')"
    using Cons.hyps Cons.prems by (intro crc_bytes_back [of w' w]) (simp_all add: agree_from_0)
  from crc_byte_back(2) [OF this] Cons.prems have "b = b'" by simp
  with Cons show ?case by simp
qed simp

lemma crc_fold_inj: "foldl crc_byte c bs = foldl crc_byte d bs \<Longrightarrow> c = d"
proof (induction bs arbitrary: c d)
  case (Cons b bs)
  then have eq: "crc_byte c b = crc_byte d b" by simp
  then have "agree_from 0 ((crc_bit ^^ 8) (c XOR ucast b)) ((crc_bit ^^ 8) (d XOR ucast b))"
    by (simp add: agree_from_0 crc_byte_def)
  from crc_bits_back [OF this] have "agree_from 8 (c XOR ucast b) (d XOR ucast b)" "\<forall>i < 8. bit (c XOR ucast b) i = bit (d XOR ucast b) i"
    by simp_all
  then have "bit (c XOR ucast b) i = bit (d XOR ucast b) i" if "i < 32" for i
    using that by (cases "i < 8") (simp_all add: agree_from_def)
  then show ?case
    by (intro bit_word_eqI) (simp add: bit_simps, blast)
qed simp

theorem crc32_ieee_detects_bursts: "detects_bursts crc32_ieee"
  unfolding detects_bursts_def
proof (intro allI impI notI)
  fix bs bs'
  assume "burst bs bs'" and "crc32_ieee bs' = crc32_ieee bs"
  then obtain pre w w' post where eq: "bs = pre @ w @ post" "bs' = pre @ w' @ post" "length w' = length w" "length w \<le> 4" "w' \<noteq> w"
    and "foldl crc_byte 0xFFFFFFFF bs' = foldl crc_byte 0xFFFFFFFF bs"
    by (auto simp: burst_def crc32_ieee_def)
  then have "foldl crc_byte (foldl crc_byte 0xFFFFFFFF pre) w = foldl crc_byte (foldl crc_byte 0xFFFFFFFF pre) w'"
    using crc_fold_inj [of _ post] by simp
  from crc_bytes_inj [OF eq(3,4) this] eq(5) show False by simp
qed

end
