(* ===== verification/Kafko_Integrity.thy ===== *)
theory Kafko_Integrity
  imports Kafko_Crc Kafko_LogProps Kafko_Offsets
begin

unbundle bit_operations_syntax

text \<open>
  Damage to stored bytes: which damage the checksums of kafko notice, and what the log and the
  committed offsets do about it. Recovery after a crash is the subject of \<open>Kafko_Recovery\<close>; here
  the files were written completely and some of their bytes have changed since.
\<close>

section \<open>A damaged record\<close>

text \<open>
  \<open>damaged f f'\<close>: the frame \<open>f\<close> of a record has become \<open>f'\<close>. Its length field (the first four
  bytes, which the checksum does not cover) is intact, and the damage is either a burst of at
  most four bytes anywhere in the payload or confined to the stored checksum.
\<close>

definition damaged :: "bytes \<Rightarrow> bytes \<Rightarrow> bool" where
  "damaged f f' \<longleftrightarrow>
     length f' = length f \<and> take 4 f' = take 4 f \<and>
     (take 4 (drop 4 f') = take 4 (drop 4 f) \<and> burst (drop 8 f) (drop 8 f') \<or> drop 8 f' = drop 8 f \<and> f' \<noteq> f)"

lemma frame_parts:
  assumes "f = frame_of D c ts k vb" and "p = payload_of c ts k vb"
  shows "take 4 f = u32_to_be_bytes (of_nat (4 + length p))" "take 4 (drop 4 f) = u32_to_be_bytes (crc32_hash D p)" "drop 8 f = p"
    "length f = 8 + length p"
  using assms by (simp_all add: frame_of_def Let_def)

lemma take_4_4_8: "take 4 f @ take 4 (drop 4 f) @ drop 8 f = f"
  by (metis append_take_drop_id drop_drop numeral_Bit0 add.commute)

lemma decode_damaged:
  assumes frame: "wire_frame D f r" and crc: "detects_bursts (crc32_hash D)" and dam: "damaged f f'"
  obtains x a b where "x \<noteq> a" "decode D (f' @ rest) = (Err (CrcMismatch x a), b)"
proof -
  obtain c vb where fits: "lengths_fit (key r) vb" and f: "f = frame_of D c (timestamp_ms r) (key r) vb"
    using frame by (auto simp: wire_frame_def)
  define p where "p = payload_of c (timestamp_ms r) (key r) vb"
  define p' where "p' = drop 8 f'"
  define w where "w = u32_from_be_bytes (take 4 (drop 4 f'))"
  note parts = frame_parts [OF f p_def]
  have len: "length f' = 8 + length p" "length p' = length p"
    using dam parts(4) by (auto simp: damaged_def p'_def)
  then have stored: "take 4 (drop 4 f') = u32_to_be_bytes w"
    using be32_full.put_get [of "take 4 (drop 4 f')"] by (simp add: w_def)
  have whole: "f' = u32_to_be_bytes (of_nat (4 + length p')) @ u32_to_be_bytes w @ p'"
    using take_4_4_8 [of f'] dam parts(1) len(2) stored by (simp add: damaged_def p'_def)
  have "crc32_hash D p' \<noteq> w"
  proof (cases "take 4 (drop 4 f') = take 4 (drop 4 f)")
    case True
    have "f' = f" if "drop 8 f' = drop 8 f"
      using that True dam unfolding damaged_def by (metis take_4_4_8)
    then have "burst p p'"
      using dam parts(3) by (auto simp: damaged_def p'_def)
    moreover have "w = crc32_hash D p"
      using True parts(2) by (simp add: w_def)
    ultimately show ?thesis
      using crc by (auto simp: detects_bursts_def)
  next
    case False
    then have "p' = p" "u32_to_be_bytes w \<noteq> u32_to_be_bytes (crc32_hash D p)"
      using dam parts(2,3) stored by (auto simp: damaged_def p'_def)
    then show ?thesis by auto
  qed
  with decode_bad_checksum [OF payload_length_fits [OF fits, of c "timestamp_ms r", folded p_def] len(2) this, of rest]
  show thesis
    using that [of w "crc32_hash D p'"] unfolding whole by simp
qed

section \<open>A damaged file\<close>

text \<open>\<open>rot name pos bs os\<close>: the bytes of a file from \<open>pos\<close> on have turned into \<open>bs\<close>, in every copy of the file.\<close>

definition rot :: "string \<Rightarrow> nat \<Rightarrow> bytes \<Rightarrow> os \<Rightarrow> os" where
  "rot name pos bs os =
     (case os_file os name of
        None \<Rightarrow> os
      | Some f \<Rightarrow>
          let c = write_at (file_content f) pos bs
          in set_file name (f\<lparr>file_content := c, file_durable := take (length (file_durable f)) c\<rparr>) os)"

lemma rot_touches [simp]: "only_touches {name} os (rot name pos bs os)"
  by (auto simp: rot_def Let_def split: option.split)

lemma os_content_rot: "os_content os name = Some c \<Longrightarrow> os_content (rot name pos bs os) name = Some (write_at c pos bs)"
  by (auto simp: rot_def Let_def os_content_def)

lemma rot_names: "map fst (os_files (rot name pos bs os)) = map fst (os_files os)"
proof (cases "os_file os name")
  case (Some f)
  then have "name \<in> fst ` set (os_files os)"
    by (auto simp: os_file_def dest!: map_of_SomeD intro: rev_image_eqI)
  with Some show ?thesis
    by (simp add: rot_def Let_def set_file_def update_keys)
qed (simp add: rot_def)

lemma wire_split: "k < length fs \<Longrightarrow> wire fs = wire (take k fs) @ fst (fs ! k) @ wire (drop (Suc k) fs)"
  by (metis wire_take_drop Cons_nth_drop_Suc concat.simps(2) list.simps(9))

lemma write_at_frame:
  assumes "k < length fs" and "length f' = length (fst (fs ! k))"
  shows "write_at (wire fs) (length (wire (take k fs))) f' = wire (take k fs) @ f' @ wire (drop (Suc k) fs)"
  using assms(2) by (simp add: write_at_def wire_split [OF assms(1)])

section \<open>The log over damaged files\<close>

text \<open>
  \<open>rot_record start fss i k f'\<close>: in the log whose segments hold the frames \<open>fss\<close>, record number
  \<open>k\<close> of segment number \<open>i\<close> has turned into \<open>f'\<close>.
\<close>

definition rot_record :: "nat \<Rightarrow> framed list list \<Rightarrow> nat \<Rightarrow> nat \<Rightarrow> bytes \<Rightarrow> os \<Rightarrow> os" where
  "rot_record start fss i k f' =
     rot (segment_path (start + length (concat (take i fss)))) (length (wire (take k (fss ! i)))) f'"

lemma damaged_length: "damaged f f' \<Longrightarrow> length f' = length f"
  by (simp add: damaged_def)



text \<open>\<open>crc_error res\<close>: the call reported a record whose checksum does not match its payload.\<close>

definition crc_error :: "'a res \<Rightarrow> bool" where
  "crc_error res \<longleftrightarrow> (\<exists>x a. x \<noteq> a \<and> res = Err (CrcMismatch x a))"










lemma rotted_directory:
  assumes inv: "log_inv D l os start (fss @ [fs]) (length fs)" and k: "k < length fs" and len: "length f' = length (fst (fs ! k))"
    and os': "os' = rot_record start (fss @ [fs]) (length fss) k f' os" and torn: "torn = f' @ wire (drop (Suc k) fs)"
    and base: "base = start + length (concat fss)"
  shows "dir_repr D os' start fss (take k fs) torn"
    and "\<forall>b \<in> set (starts start fss). \<forall>x \<in> own_files b. os_durable os' x = os_content os' x"
    and "os_durable os' (segment_path base) = os_content os' (segment_path base)"
proof -
  have rot: "os' = rot (segment_path base) (length (wire (take k fs))) f' os"
    by (simp add: os' rot_record_def base)
  note same = only_touchesD(2,3) [OF rot_touches, of _ "segment_path base" "length (wire (take k fs))" f' os, folded rot]
  have repr: "log_repr D l os start (fss @ [fs])" and syn: "log_synced l os (fss @ [fs]) (length fs)"
    using inv by (auto simp: log_inv_def)
  from repr obtain ss s where l: "segments l = ss @ [s]" and s: "seg_repr D os s fs" and sb: "base_of s = base"
    and bases: "map base_of ss = starts start fss" and ne: "list_all (\<lambda>fs. fs \<noteq> []) fss"
    unfolding base by (auto elim!: log_repr_active)
  have content: "os_content os (segment_path base) = Some (wire fs)" "os_content os' (segment_path base) = Some (wire (take k fs) @ torn)"
    using os_content_rot [of os "segment_path base" "wire fs"] seg_repr_contents(1) [OF s] write_at_frame [OF k len] sb
    by (simp_all add: rot torn)
  have apart: "x \<noteq> segment_path base" if "b \<in> set (starts start fss)" "x \<in> own_files b" for b x
    using starts_apart [OF ne that] by (auto simp: base own_files_def)
  show "dir_repr D os' start fss (take k fs) torn"
  proof (rule log_repr_dir [OF repr])
    show "map fst (os_files os') = map fst (os_files os)"
      unfolding rot by (rule rot_names)
    show "\<forall>s \<in> set (butlast (segments l)). \<forall>x \<in> own_files (base_of s). os_content os' x = os_content os x"
      using apart same(1) l bases [symmetric] by auto
  qed (use content(2) s in \<open>auto simp: base seg_repr_def dest: in_set_takeD\<close>)
  show "\<forall>b \<in> set (starts start fss). \<forall>x \<in> own_files b. os_durable os' x = os_content os' x"
    using syn apart same l bases [symmetric] by (auto simp: log_synced_def)
  have "os_durable os (segment_path base) = Some (wire fs)"
    using syn l sb by (simp add: log_synced_def)
  moreover have "length (wire (take k fs) @ torn) = length (wire fs)"
    using arg_cong [OF wire_split [OF k], of length] len by (simp add: torn)
  ultimately show "os_durable os' (segment_path base) = os_content os' (segment_path base)"
    using content by (auto simp: rot os_durable_def os_content_def rot_def Let_def split: option.splits)
qed

text \<open>
  C31: recovery over damage. A log of which every record is durable, and one record of whose active
  segment has been damaged since: \<^verbatim>\<open>Log::open\<close> succeeds, the log ends before the damaged
  record, and every record behind it is gone from the file although it was synced and intact.
\<close>

theorem damaged_record_truncates:
  assumes nf: "os_faults os = []" and inv: "log_inv D l os start (fss @ [fs]) (length fs)"
    and lim: "next_offset l < 2 ^ 64" "length (wire fs) \<le> os_read_limit os" "length (wire fs) \<le> 2 ^ 32"
    and crc: "detects_bursts (crc32_hash D)" and k: "k < length fs" and dam: "damaged (fst (fs ! k)) f'"
  shows "let a = abs_log start (fss @ [fs]); m = length (concat fss) + k
         in \<exists>l' os'. log_open D cfg (rot_record start (fss @ [fs]) (length fss) k f' os) = (Ok l', os') \<and>
              log_models D l' os' (a\<lparr>al_records := take m (al_records a)\<rparr>) (start + m)"
proof -
  let ?os = "rot_record start (fss @ [fs]) (length fss) k f' os" and ?torn = "f' @ wire (drop (Suc k) fs)"
  have frames: "\<forall>(f, r) \<in> set fs. wire_frame D f r" and nxt: "next_offset l = start + length (concat fss) + length fs"
    using inv by (auto simp: log_inv_def seg_repr_def elim!: log_repr_active)
  have "wire_frame D (fst (fs ! k)) (snd (fs ! k))"
    using frames nth_mem [OF k] by (auto simp: case_prod_beta)
  then have stop: "scan_stops D ?torn"
    by (rule decode_damaged [OF _ crc dam, of _ "wire (drop (Suc k) fs)"]) (simp add: scan_stops_def)
  have same: "os_faults ?os = []" "os_read_limit ?os = os_read_limit os"
    using nf only_touchesD(4,6) [OF rot_touches] by (simp_all add: rot_record_def)
  have "length (wire (take k fs) @ ?torn) = length (wire fs)"
    using arg_cong [OF wire_split [OF k], of length] damaged_length [OF dam] by simp
  then have rec: "recoverable ?os start fss (take k fs) ?torn"
    using recoverable_prefix [OF lim(2,3) _ frames, of start fss k ?torn] lim(1) nxt same(2) by (simp add: recoverable_def)
  note dir = rotted_directory [OF inv k damaged_length [OF dam] refl refl refl]
  show ?thesis
  proof (rule log_open_durable [OF same(1) dir(1) stop rec dir(2,3), of cfg])
    fix l' os'
    assume "log_open D cfg ?os = (Ok l', os')" "log_inv D l' os' start (fss @ [take k fs]) (length (take k fs))"
    with log_modelsI [OF this(2)] k show ?thesis
      by (auto simp: Let_def abs_log_def durable_end_def take_map add.assoc)
  qed
qed

section \<open>Damaged committed offsets\<close>

text \<open>
  A group's file has its own checksum. Whatever a burst does to the offsets in it, the group is
  taken back to the beginning rather than to a wrong place.
\<close>

definition damaged_offsets :: "bytes \<Rightarrow> bytes \<Rightarrow> bool" where
  "damaged_offsets bs bs' \<longleftrightarrow>
     length bs' = length bs \<and>
     (take 4 bs' = take 4 bs \<and> burst (drop 4 bs) (drop 4 bs') \<or> drop 4 bs' = drop 4 bs \<and> bs' \<noteq> bs)"

lemma damaged_offsets_reset:
  assumes crc: "detects_bursts (crc32_hash D)" and dam: "damaged_offsets (offsets_encode D offsets) bs'"
  shows "offsets_decode D bs' n = Ok (replicate n 0)"
proof -
  define body where "body = drop 4 (offsets_encode D offsets)"
  define w where "w = u32_from_le_bytes (take 4 bs')"
  have enc: "take 4 (offsets_encode D offsets) = u32_to_le_bytes (crc32_hash D body)" "8 \<le> length (offsets_encode D offsets)"
    by (simp_all add: offsets_encode_def Let_def body_def)
  have len: "8 \<le> length bs'"
    using dam enc(2) by (simp add: damaged_offsets_def)
  then have stored: "take 4 bs' = u32_to_le_bytes w"
    using le32_full.put_get [of "take 4 bs'"] by (simp add: w_def)
  have "crc32_hash D (drop 4 bs') \<noteq> w"
  proof (cases "take 4 bs' = take 4 (offsets_encode D offsets)")
    case True
    then have "burst body (drop 4 bs')"
      using dam append_take_drop_id [of 4 bs'] append_take_drop_id [of 4 "offsets_encode D offsets"]
      unfolding damaged_offsets_def body_def by metis
    with crc True stored enc(1) show ?thesis
      using le32.put_inj by (auto simp: detects_bursts_def)
  next
    case False
    with dam have "drop 4 bs' = body"
      by (auto simp: damaged_offsets_def body_def)
    with False stored enc(1) show ?thesis by auto
  qed
  with len show ?thesis
    by (simp add: offsets_decode_def Let_def slice_at_def w_def)
qed

lemma damaged_offsets_restart:
  assumes "detects_bursts (crc32_hash D)" and "os_faults os = []" and "validate_group_name g = Ok ()"
    and "os_content os g = Some bs'" and "damaged_offsets (offsets_encode D offsets) bs'"
  shows "\<exists>st. store_open D g n os = (Ok st, os) \<and> committed st = replicate n 0"
  using store_open_reload [OF assms(2,3), of D n] damaged_offsets_reset [OF assms(1,5), of n] assms(4) by (simp add: reload_def)

section \<open>Records\<close>

text \<open>
  C30: corruption of a record. A stored record in whose payload or checksum up to four adjacent
  bytes have changed (one flipped bit, for instance) is reported by \<^verbatim>\<open>decode\<close> as a checksum
  mismatch, under every codec and whatever follows it: neither another record nor another error.
\<close>

theorem corruption_detected:
  assumes "codec_laws D" and "detects_bursts (crc32_hash D)" and "encodable D c r" and "damaged (encoded D c r) f'"
  shows "crc_error (fst (decode D (f' @ rest)))"
  by (rule decode_damaged [OF encode_with_encoded(2) [OF assms(1,3)] assms(2,4), of rest]) (simp add: crc_error_def)

section \<open>Examples\<close>

text \<open>The build of \<open>Kafko_Compression\<close> with the checksum \<^verbatim>\<open>crc32fast\<close> documents.\<close>

definition crc_deps :: deps where
  "crc_deps = demo_deps\<lparr>crc32_hash := crc32_ieee\<rparr>"

lemma crc_deps_ok: "codec_laws crc_deps" "detects_bursts (crc32_hash crc_deps)" "encodable crc_deps NoCompression demo_record"
  using demo_codec_laws crc32_ieee_detects_bursts demo_encodable(1)
  by (simp_all add: crc_deps_def codec_laws_def encodable_def)

lemma damaged_one_byte:
  assumes "8 \<le> i" and "i < length f" and "b \<noteq> f ! i"
  shows "damaged f (f[i := b])"
  using assms burst_one_byte [of "i - 8" "drop 8 f" b] by (simp add: damaged_def drop_update_swap)

definition rotten_frame :: bytes where
  "rotten_frame = (let f = encoded crc_deps NoCompression demo_record in f[28 := f ! 28 XOR 1])"

lemma rotten_frame: "damaged (encoded crc_deps NoCompression demo_record) rotten_frame"
proof -
  have "length (encoded crc_deps NoCompression demo_record) = 29"
    unfolding length_encoded_uncompressed by (simp add: wire_size_def demo_record_def record_new_def key_part_def)
  moreover have "b XOR 1 \<noteq> b" for b :: u8
  proof -
    have "bit (b XOR 1) 0 \<noteq> bit b 0"
      by (simp add: bit_simps)
    then show ?thesis by metis
  qed
  ultimately show ?thesis
    unfolding rotten_frame_def Let_def by (intro damaged_one_byte) simp_all
qed

lemma corruption_detected_witness: "crc_error (fst (decode crc_deps (rotten_frame @ [])))"
  by (rule corruption_detected [OF crc_deps_ok rotten_frame])

text \<open>A log of two synced records in one segment.\<close>

lemma rotten_log:
  obtains l os where "os_faults os = []" "os_read_limit os = os_read_limit demo_os" "next_offset l = 2"
    "log_inv crc_deps l os 0 ([] @ [replicate 2 (encoded crc_deps NoCompression demo_record, demo_record)]) 2"
proof -
  let ?g = "(encoded crc_deps NoCompression demo_record, demo_record)"
  obtain l os where c: "log_create demo_cfg demo_os = (Ok l, os)" "log_inv crc_deps l os 0 [[]] 0" "log_cfg l = demo_cfg"
    "os_faults os = []" "os_read_limit os = os_read_limit demo_os"
    by (rule log_create_inv [of demo_os demo_cfg crc_deps]) (simp_all add: demo_os_def)
  have cfg: "cfg_compression (log_cfg l) = NoCompression" "segment_size_threshold (log_cfg l) + 58 \<le> 2 ^ 32"
    using c(3) by (simp_all add: demo_cfg_def default_log_config_def)
  have len: "length (encoded crc_deps NoCompression demo_record) = 29"
    unfolding length_encoded_uncompressed by (simp add: wire_size_def demo_record_def record_new_def key_part_def)
  obtain l' os' fss n where a: "log_inv crc_deps l' os' 0 fss n" "os_faults os' = []" "next_offset l' = next_offset l + 2"
    "os_read_limit os' = os_read_limit os" "pushed (segment_size_threshold (log_cfg l)) (sum_list (map wire_size [demo_record, demo_record])) [[]] [?g, ?g] fss"
    by (rule log_append_batch_inv [OF c(4) crc_deps_ok(1) c(2), of "[demo_record, demo_record]"])
      (use crc_deps_ok(3) cfg len in auto)
  have "fss = [[?g, ?g]]"
    using a(1,5) by (auto simp: pushed_def log_inv_def log_repr_def)
  moreover have "next_offset l = 0"
    using c(2) by (simp add: log_inv_def log_repr_def)
  ultimately have inv: "log_inv crc_deps l' os' 0 ([] @ [[?g, ?g]]) n" and nxt: "next_offset l' = 2"
    using a(1,3) by simp_all
  show thesis
    by (rule log_sync_inv [OF a(2) inv]) (use that nxt a(4) c(5) in \<open>simp add: numeral_2_eq_2\<close>)
qed


lemma damaged_record_truncates_witness:
  "\<exists>l os fss l' os'. log_inv crc_deps l os 0 fss 2 \<and> next_offset l = 2 \<and>
     log_open crc_deps demo_cfg (rot_record 0 fss 0 0 rotten_frame os) = (Ok l', os') \<and>
     log_models crc_deps l' os' \<lparr>al_first = 0, al_records = []\<rparr> 0"
proof (rule rotten_log)
  fix l os
  let ?fs = "replicate 2 (encoded crc_deps NoCompression demo_record, demo_record)"
  assume *: "os_faults os = []" "os_read_limit os = os_read_limit demo_os" "next_offset l = 2" "log_inv crc_deps l os 0 ([] @ [?fs]) 2"
  have len: "length (wire ?fs) = 58"
    by (simp add: numeral_2_eq_2 length_encoded_uncompressed wire_size_def demo_record_def record_new_def key_part_def)
  have "next_offset l < 2 ^ 64" "length (wire ?fs) \<le> os_read_limit os" "length (wire ?fs) \<le> 2 ^ 32"
    unfolding len using *(2,3) by (simp_all add: demo_os_def)
  from damaged_record_truncates [OF *(1) _ this crc_deps_ok(2), of 0 "[]" 0 rotten_frame demo_cfg] rotten_frame *(4)
  obtain l' os' where "log_open crc_deps demo_cfg (rot_record 0 [?fs] 0 0 rotten_frame os) = (Ok l', os')"
    "log_models crc_deps l' os' \<lparr>al_first = 0, al_records = []\<rparr> 0"
    by (auto simp: Let_def abs_log_def)
  moreover have "log_inv crc_deps l os 0 [?fs] 2"
    using *(4) by simp
  ultimately show ?thesis
    using *(3) by blast
qed

end
