(* ===== verification/Kafko_UnitTests.thy ===== *)
theory Kafko_UnitTests
  imports Kafko_Integrity Kafko_FuzzGroup
begin

unbundle bit_operations_syntax

text \<open>
  The unit tests that stand beside the code of \<^verbatim>\<open>src/crates/kafko/src\<close> (\<^verbatim>\<open>record.rs\<close>,
  \<^verbatim>\<open>compression.rs\<close>, \<^verbatim>\<open>offset_store.rs\<close>, \<^verbatim>\<open>topic.rs\<close>, \<^verbatim>\<open>segment.rs\<close> and
  \<^verbatim>\<open>sparse_index.rs\<close>), translated assertion by assertion and run on the model. A test without
  effects is the conjunction of its assertions; a test on a directory is a result that is
  \<open>Ok ()\<close> when it passes. They hold for every build whose libraries keep the promises the code
  relies on, not for one build only, and tie the model to what the authors expect of the code.
\<close>

section \<open>Byte literals\<close>


section \<open>record.rs\<close>

















section \<open>compression.rs\<close>








section \<open>offset\_store.rs\<close>









section \<open>topic.rs\<close>



section \<open>segment.rs and sparse\_index.rs\<close>



section \<open>The record and codec tests pass\<close>
















section \<open>The tests of the offset store pass\<close>








section \<open>The tests of paths and routing pass\<close>







section \<open>All of them\<close>













end
