(* ===== verification/Kafko_Wedge.thy ===== *)
theory Kafko_Wedge
  imports Kafko_Integrity Kafko_ConsumerProps
begin

text \<open>
  A damaged record in front of a consumer. A scan of \<^verbatim>\<open>try_take_next\<close> ends with the first
  partition whose read fails, and an error moves neither the cursor of that partition nor the
  partition the next scan starts at; nothing but a seek of the caller, whom the error does not tell
  partition or offset, gets past the record.
\<close>

section \<open>A partition with a damaged record\<close>





section \<open>The consumer\<close>




section \<open>Example\<close>


end
