(* ===== verification/Spec2Isabelle.thy ===== *)
theory Spec2Isabelle
  imports Kafko_EndToEnd Kafko_Wakeup Kafko_LogType Kafko_FuzzLog Kafko_FuzzTopic Kafko_FuzzGroup Kafko_HttpProps Kafko_Bench Kafko_UnitTests Kafko_Wedge
begin

text \<open>
  \<^bold>\<open>kafko, an embedded log broker: model and proofs\<close>

  \<^bold>\<open>The program.\<close> A broker (\<^verbatim>\<open>src/crates/kafko/src/broker.rs\<close>) owns a data directory, locked against
  a second broker, and a registry of topics. A topic (\<^verbatim>\<open>topic.rs\<close>) is a directory of numbered
  partitions; records go to partitions by the hash of their key or round robin. A partition
  (\<^verbatim>\<open>partition.rs\<close>) is one log and the writer task that owns it; clients send commands through a
  bounded inbox and wait on a reply channel each, and the task coalesces waiting appends into
  batches. A log (\<^verbatim>\<open>log.rs\<close>) is a sequence of segment files (\<^verbatim>\<open>segment.rs\<close>), each with a sparse
  index (\<^verbatim>\<open>sparse_index.rs\<close>); opening it recovers the last segment by scanning checksums. Records
  have a framed wire format (\<^verbatim>\<open>record.rs\<close>) with optional compression (\<^verbatim>\<open>compression.rs\<close>).
  Producers (\<^verbatim>\<open>producer.rs\<close>) send single records and batches, consumers (\<^verbatim>\<open>consumer.rs\<close>) merge the
  partitions of a topic, wait at the tail on a shared wake-up, and commit offsets per group
  (\<^verbatim>\<open>offset_store.rs\<close>). \<^verbatim>\<open>kafko-http\<close> puts three topics behind an HTTP endpoint, \<^verbatim>\<open>kafko-bench\<close> fills a
  topic in one of five ways, and eight fuzz targets (\<^verbatim>\<open>src/fuzz/fuzz_targets\<close>) drive the parsers, the
  recovery, a log, a topic and a group file with arbitrary input. Six of the library's files carry
  unit tests.

  \<^bold>\<open>Theories.\<close>
  \<^item> \<open>Kafko_Prelude\<close>: byte fields with their round-trip laws (locale \<open>wire_field\<close>, interpreted for
    every integer width and byte order, and \<open>full_field\<close>, where every string of the width is a value), decimal names, binary search as in the standard library.
  \<^item> \<open>Kafko_Error\<close>: \<^verbatim>\<open>KafkoError\<close>, results with errors and panics, and \<open>and_then\<close>, the \<open>?\<close> of the
    source on a state that is kept on the error paths too.
  \<^item> \<open>Kafko_Os\<close>: one directory of files with content and durable content, system calls that follow a
    schedule of failures (a write may stop half way), and what a power loss can leave.
  \<^item> \<open>Kafko_Compression\<close>, \<open>Kafko_Record\<close>: codecs, encoder and decoder.
  \<^item> \<open>Kafko_Segment\<close>, \<open>Kafko_Index\<close>, \<open>Kafko_Log\<close>: the operations of the files of these names.
  \<^item> \<open>Kafko_LogInv\<close>, \<open>Kafko_LogSpec\<close>, \<open>Kafko_LogRead\<close>, \<open>Kafko_Recovery\<close>, \<open>Kafko_LogProps\<close>: the representation
    of a log on disk, the abstract log (a first offset and a list of records) and the proofs that
    append, batch append, read, retention, sync and recovery implement it.
  \<^item> \<open>Kafko_Offsets\<close>: \<open>offset_store\<close>; the locale \<open>checkpoint\<close> says what a store that saves values promises.
  \<^item> \<open>Kafko_Alloc\<close>: offsets under failing system calls; the locale \<open>offset_allocator\<close>.
  \<^item> \<open>Kafko_Partition\<close>, \<open>Kafko_PartitionSpec\<close>, \<open>Kafko_Service\<close>: the writer task as a step relation with
    its invariant; a wake-up against the abstract log; client calls and the locale
    \<open>partition_service\<close>, on which producers and consumers rest.
  \<^item> \<open>Kafko_Topic\<close>, \<open>Kafko_TopicProps\<close>, \<open>Kafko_Producer\<close>, \<open>Kafko_ProducerProps\<close>, \<open>Kafko_Consumer\<close>,
    \<open>Kafko_ConsumerProps\<close>, \<open>Kafko_Broker\<close>, \<open>Kafko_BrokerProps\<close>: the source files of these names and their
    properties.
  \<^item> \<open>Kafko_EndToEnd\<close>: what the property of the whole program needs of its parts; the property is at
    the end of this theory.
  \<^item> \<open>Kafko_Wakeup\<close>: waiting at the tail, every access to shared state a step of its own.
  \<^item> \<open>Kafko_LogType\<close>: the shape of a log under every failure of system calls; \<open>log_step\<close> and
    \<open>log_reachable\<close> are its calls and the logs they lead to.
  \<^item> \<open>Kafko_Salvage\<close>: recovery from a segment of arbitrary bytes, of which \<open>chain\<close> is the part that
    decodes.
  \<^item> \<open>Kafko_Fuzz\<close>, \<open>Kafko_FuzzLog\<close>, \<open>Kafko_FuzzTopic\<close>, \<open>Kafko_FuzzGroup\<close>: the fuzz targets as functions of
    their input, with \<open>Panic\<close> where a target would crash.
  \<^item> \<open>Kafko_Crc\<close>: what the checksum library promises (\<open>detects_bursts\<close>), and CRC-32 itself with the
    proof that it keeps the promise.
  \<^item> \<open>Kafko_Integrity\<close>: stored bytes that have changed (\<open>damaged\<close>, \<open>rot\<close>), and what reading, recovery
    and the offset store do about them. \<open>Kafko_Wedge\<close>: what a consumer does in front of a damaged record.
  \<^item> \<open>Kafko_UnitTests\<close>: the unit tests of the library, run on the model.
  \<^item> \<open>Kafko_Process\<close>, \<open>Kafko_Http\<close>, \<open>Kafko_HttpProps\<close>: environment variables and the reset; the handlers
    and \<^verbatim>\<open>main\<close> of \<^verbatim>\<open>kafko-http\<close>; sequences of requests.
  \<^item> \<open>Kafko_Bench\<close>: the settings, scenarios and \<^verbatim>\<open>main\<close> of \<^verbatim>\<open>kafko-bench\<close>; the tasks of the concurrent
    scenario take turns in any order.

  \<^bold>\<open>How the model corresponds.\<close> Structs are records and enums datatypes, with the fields and
  constructors of the source; a method that takes \<^verbatim>\<open>&mut self\<close> is a function from the state to a
  result and the new state. Loops are recursive functions. What the source reaches through
  \<^verbatim>\<open>std::fs\<close> and \<^verbatim>\<open>tokio::fs\<close> is a call of \<open>Kafko_Os\<close>. A reply channel is a number, a reply sent is an
  entry of \<open>w_replies\<close>. A client call enqueues its command and gives the task turns until its inbox
  is empty; that other clients' commands may be interleaved is the subject of \<open>partition_step\<close>. A
  handle on a topic (\<^verbatim>\<open>Arc<Topic>\<close>) is a count in the registry. Checksums, codecs and the build's
  feature flags are the fields of \<open>deps\<close>; \<open>codec_laws\<close> states that decompression inverts compression,
  \<open>detects_bursts\<close> that the checksum tells strings apart that differ within four bytes.
  \<^verbatim>\<open>tokio::sync::Notify\<close> is the parameter \<open>notify_ops\<close> with \<open>notify_laws\<close>.

  \<^bold>\<open>What is shown.\<close>
  \<^item> Wire format: decoding inverts encoding; every torn prefix is reported as truncated, a changed
    checksum as a mismatch; decoding and parsing an index never panic on any input, and a frame
    whose lengths and checksum are right decodes to what its flag and payload say. Up to four
    adjacent changed bytes in a payload or a checksum are always reported.
  \<^item> Log: append, batch append, read and retention refine the abstract log; segments keep to their
    size threshold; sync makes everything durable; after a power loss opening gives a prefix with
    every durable record in it. Whatever system calls fail, a log stays well formed and its
    operations do not panic. Opening a segment of arbitrary bytes does not panic either, and what
    is recovered can be read; the same for a topic of arbitrary partition directories. Any sequence
    of operations gives consecutive offsets and keeps what was written. With a damaged record in any
    segment a read gives the right record or an error, never a wrong record.
  \<^item> Offsets: commits are atomic under any failure of system calls, and a group resumes from its last
    successful commit, or from the beginning if its file has been damaged.
  \<^item> Partition: in every reachable state the high-water mark is the log's next offset, acknowledged
    offsets are gapless, replies come once and in order; batching is invisible to clients; every
    call returns; a failed append leaves the partition usable and a panic is reported to every caller.
  \<^item> Topic, producer, consumer: creation and layout, even spread of keyless records, what a batch
    wrote is read back and a batch equals its records sent singly; a consumer gets every record once
    and in order, and no partition starves. Any sequence of sends keeps equal keys together. A group
    file of arbitrary bytes does not move a cursor past the end of the log.
  \<^item> Broker: the registry invariant over all operations, handles pin their topics, deletion, the lock,
    and restart after shutdown and power loss.
  \<^item> The whole program: a batch sent to a new topic is received, complete and in order, by a consumer
    of the broker that is opened after shutdown and power loss.
  \<^item> Waiting: no wake-up is lost under any interleaving.
  \<^item> The programs: an HTTP session from an empty directory is answered with the right offsets and
    leaves in each topic the bodies posted for it; every scenario of the harness stores as many
    records as it reports, evenly spread, the concurrent one under every schedule.
  \<^item> Behaviour that the documentation does not tell: a caught-up consumer never sleeps, a consumer
    below the retention point never gets a record, a write that failed half way displaces the next,
    a group named like another group's temporary file is erased, shutdown passes over topics in use,
    a value above the decompression cap cannot be read back, a reset empties a directory that
    another broker has locked, opening a log whose active segment has one damaged record deletes
    the intact records behind it, a damaged record at the cursor of a consumer keeps it from the
    records of all partitions.
  \<^item> Tests: every unit test of the library passes on the model, in every build.

  \<^bold>\<open>Bounds and assumptions.\<close> Offsets and sizes are natural numbers; the statements that need it say
  that offsets stay below \<open>2 ^ 64\<close>, and file positions and offsets relative to a segment below
  \<open>2 ^ 32\<close>, where the source panics. A record is \<open>encodable\<close> when its lengths fit 32 bits and its value
  the codec's cap. One read call returns at most \<open>os_read_limit\<close> bytes, as on Linux; reads and recovery
  are proved for segments within it. \<open>topic_live\<close>, \<open>live\<close> and \<open>serving\<close> carry the number of bytes for
  which there is still room. A power loss keeps file names and durable content and, of what was
  written after the last sync, any prefix. Names are strings. Loads and stores of the parked counter
  are sequentially consistent. No recursion needs fuel: every loop of the model terminates.

  \<^bold>\<open>Not modelled.\<close> Criterion benchmarks, the integration tests under \<^verbatim>\<open>tests/\<close> and
  scripts, which only call what is modelled; accessors, which are the selectors of the records; the
  router and the server of \<^verbatim>\<open>axum\<close>, of which a request is one of the two routes; timing, throughput
  and printed text of \<^verbatim>\<open>kafko-bench\<close>; display strings of errors other than those that \<^verbatim>\<open>Clone\<close>
  copies; thread-local scratch buffers, which are empty at the start of each use; two concurrent
  \<^verbatim>\<open>create_topic\<close> calls for one name beyond the check under the write lock; the watch receiver that
  \<^verbatim>\<open>watch_high_water_mark\<close> hands out.
\<close>

section \<open>The whole program\<close>

text \<open>
  C1: what producers were told is stored, consumers receive, across a restart. On an empty data
  directory open a broker, create a topic with any number of partitions, send a batch, drop the
  producer and shut the broker down; let the power fail. Then the directory opens again, and a
  new consumer of the topic receives as many records as were sent and then finds nothing more; in
  every partition these are the records of the batch that went there, in the order they were sent
  and each under the position that the producer was given for it.
\<close>

theorem produced_is_consumed_after_restart:
  assumes "codec_laws D" and "dd_topics dd = []" and "dd_faults dd = []" and "\<not> dd_locked dd"
    and "td_subdirs (dd_fresh dd) = []" and "os_files (td_fresh (dd_fresh dd)) = []" and "os_faults (td_fresh (dd_fresh dd)) = []"
    and "list_all (encodable D (cfg_compression cfg)) rs" and "pcount \<noteq> 0"
    and "sum_list (map (\<lambda>r. length (encoded D (cfg_compression cfg) r)) rs) = amount"
    and "amount \<le> os_read_limit (td_fresh (dd_fresh dd))" and "segment_size_threshold cfg + amount \<le> 2 ^ 32"
  shows "\<exists>b1 dd1 b2 dd2 t b3 e positions t' topics dd3.
           open_with_config D cfg dd = (Ok b1, dd1) \<and>
           create_topic_with_partitions D name pcount (b1, dd1) = (Ok (), b2, dd2) \<and>
           producer_for name b2 = (Ok t, b3) \<and> registered b3 name = Some e \<and>
           send_batch_records D rs t = (Ok positions, t') \<and> length positions = length rs \<and>
           broker_shutdown D (\<lambda>i. False) (drop_handle name (set_entry name (e\<lparr>te_topic := t'\<rparr>) b3), dd2) = (Ok (), topics, dd3) \<and>
           (\<forall>dd4. broker_power_loss topics dd4 \<longrightarrow>
              (\<exists>b5 dd5 c b6 e' items s.
                 open_with_config D cfg dd4 = (Ok b5, dd5) \<and> consumer_for name b5 = (Ok c, b6) \<and> registered b6 name = Some e' \<and>
                 consume D (Suc (length rs)) (c, te_topic e') = (map (Ok \<circ> Some) items @ [Ok None], s) \<and> length items = length rs \<and>
                 (\<forall>p < unat pcount. filter (\<lambda>x. pos_partition (fst x) = of_nat p) items =
                                    filter (\<lambda>x. pos_partition (fst x) = of_nat p) (zip positions rs))))"
proof -
  let ?b = "\<lambda>t n. \<lparr>b_topics = [(name, \<lparr>te_topic = t, te_handles = n\<rparr>)], b_config = cfg\<rparr>"
  let ?as = "empty_logs (unat pcount)"
  obtain t td where t: "topic_create D name pcount cfg (dd_fresh dd) = (Ok t, td)" "topic_live D t ?as amount" "t_config t = cfg" "t_name t = name"
    using topic_create_live [OF assms(1,5-7,11,12,9), of name] by blast
  let ?rts = "topic_routes t rs"
  obtain t' where t': "send_batch_records D rs t = (Ok (map (batch_position ?rts ?as) [0 ..< length rs]), t')"
    "topic_live D t' (batch_logs ?rts rs ?as) 0"
    using send_batch_refines [of D t ?as rs 0] t(2,3) assms(8,10) by auto
  have name: "t_name t' = name"
    using same_shape_batch [of t D rs] t'(1) t(4) by (simp add: same_shape_def)
  have routes: "\<forall>q \<in> set ?rts. q < unat pcount"
    using routes_less [of "unat pcount" _ "map key rs" "t_round_robin t"] topic_liveD(1,4) [OF t(2)] by (auto simp: in_set_conv_nth)
  have used: "drop_handle name (set_entry name (\<lparr>te_topic = t, te_handles = 1\<rparr>\<lparr>te_topic := t'\<rparr>) (?b t 1)) = ?b t' 0"
    by (simp add: drop_handle_def set_entry_def registered_def)
  obtain topics dd3 where s: "broker_shutdown D (\<lambda>i. False) (?b t' 0, set_topic_dir name td (dd\<lparr>dd_locked := True\<rparr>)) = (Ok (), topics, dd3)"
    by (simp add: broker_shutdown_def Let_def)
  have again: "\<exists>b5 dd5 c b6 e' items s. open_with_config D cfg dd4 = (Ok b5, dd5) \<and> consumer_for name b5 = (Ok c, b6) \<and>
      registered b6 name = Some e' \<and> consume D (Suc (length rs)) (c, te_topic e') = (map (Ok \<circ> Some) items @ [Ok None], s) \<and>
      length items = length rs \<and> (\<forall>p < unat pcount. filter (\<lambda>x. pos_partition (fst x) = of_nat p) items =
        filter (\<lambda>x. pos_partition (fst x) = of_nat p) (zip (map (batch_position ?rts ?as) [0 ..< length rs]) rs))"
    if loss: "broker_power_loss topics dd4" for dd4
  proof -
    obtain b5 dd5 e where b5: "open_with_config D cfg dd4 = (Ok b5, dd5)" "registered b5 name = Some e" "topic_live D (te_topic e) (batch_logs ?rts rs ?as) 0"
      using single_topic_reopen [OF t'(2) name _ s loss, of cfg] assms(12) by auto
    have "consumer_for name b5 = (Ok (from_topic (te_topic e)), set_entry name (e\<lparr>te_handles := te_handles e + 1\<rparr>) b5)"
      using b5(2) by (simp add: consumer_for_def broker_topic_def)
    moreover have "registered (set_entry name (e\<lparr>te_handles := te_handles e + 1\<rparr>) b5) name = Some (e\<lparr>te_handles := te_handles e + 1\<rparr>)"
      by simp
    ultimately show ?thesis
      using b5(1) consume_batch [OF b5(3) _ routes refl] by (auto simp del: consume.simps)
  qed
  have p: "producer_for name (?b t 0) = (Ok t, ?b t 1)" "registered (?b t 1) name = Some \<lparr>te_topic = t, te_handles = 1\<rparr>"
    by (simp_all add: producer_for_def broker_topic_def registered_def set_entry_def)
  have "length (map (batch_position ?rts ?as) [0 ..< length rs]) = length rs"
    by simp
  note facts = open_empty [OF assms(2-4), of D cfg] create_first_topic [OF t(1) assms(2,9)] p t'(1) this s [folded used]
  show ?thesis
    by ((rule exI)+, (rule conjI, rule facts)+, intro allI impI, erule again)
qed

lemma produced_is_consumed_after_restart_witness:
  "\<exists>t positions t' dd4 b5 dd5 c b6 e' items s.
     send_batch_records demo_deps [demo_record, demo_record] t = (Ok positions, t') \<and>
     open_with_config demo_deps demo_cfg dd4 = (Ok b5, dd5) \<and> consumer_for ''t'' b5 = (Ok c, b6) \<and> registered b6 ''t'' = Some e' \<and>
     consume demo_deps 3 (c, te_topic e') = (map (Ok \<circ> Some) items @ [Ok None], s) \<and> length items = 2"
proof -
  have c: "cfg_compression demo_cfg = NoCompression"
    by (simp add: demo_cfg_def default_log_config_def)
  have dd: "dd_topics demo_dd = []" "dd_faults demo_dd = []" "\<not> dd_locked demo_dd" "td_subdirs (dd_fresh demo_dd) = []"
    "os_files (td_fresh (dd_fresh demo_dd)) = []" "os_faults (td_fresh (dd_fresh demo_dd)) = []"
    "list_all (encodable demo_deps (cfg_compression demo_cfg)) [demo_record, demo_record]" "(2 :: u32) \<noteq> 0"
    "sum_list (map (\<lambda>r. length (encoded demo_deps (cfg_compression demo_cfg) r)) [demo_record, demo_record]) = 58"
    "58 \<le> os_read_limit (td_fresh (dd_fresh demo_dd))" "segment_size_threshold demo_cfg + 58 \<le> 2 ^ 32"
    using demo_fresh demo_encodable(1) by (simp_all add: demo_dd_def c length_demo_encoded)
  from produced_is_consumed_after_restart [OF demo_codec_laws dd, of "''t''"]
  obtain b1 dd1 b2 dd2 t b3 e positions t' topics dd3 where
    s: "open_with_config demo_deps demo_cfg demo_dd = (Ok b1, dd1)" "create_topic_with_partitions demo_deps ''t'' 2 (b1, dd1) = (Ok (), b2, dd2)"
      "producer_for ''t'' b2 = (Ok t, b3)" "registered b3 ''t'' = Some e" "send_batch_records demo_deps [demo_record, demo_record] t = (Ok positions, t')"
      "broker_shutdown demo_deps (\<lambda>i. False) (drop_handle ''t'' (set_entry ''t'' (e\<lparr>te_topic := t'\<rparr>) b3), dd2) = (Ok (), topics, dd3)"
    and again: "\<forall>dd4. broker_power_loss topics dd4 \<longrightarrow> (\<exists>b5 dd5 c b6 e' items s.
      open_with_config demo_deps demo_cfg dd4 = (Ok b5, dd5) \<and> consumer_for ''t'' b5 = (Ok c, b6) \<and> registered b6 ''t'' = Some e' \<and>
      consume demo_deps (Suc (length [demo_record, demo_record])) (c, te_topic e') = (map (Ok \<circ> Some) items @ [Ok None], s) \<and>
      length items = length [demo_record, demo_record] \<and>
      (\<forall>p < unat (2 :: u32). filter (\<lambda>x. pos_partition (fst x) = of_nat p) items =
         filter (\<lambda>x. pos_partition (fst x) = of_nat p) (zip positions [demo_record, demo_record])))"
    by (elim exE conjE) (rule that)
  have "broker_inv b1"
    using s(1) demo_inv by (simp add: demo_open)
  from broker_power_loss_possible [OF session_inv [OF this s(2-5)] s(6)] obtain dd4 where "broker_power_loss topics dd4"
    by blast
  with again obtain b5 dd5 c b6 e' items u where
    "open_with_config demo_deps demo_cfg dd4 = (Ok b5, dd5)" "consumer_for ''t'' b5 = (Ok c, b6)" "registered b6 ''t'' = Some e'"
    "consume demo_deps (Suc (length [demo_record, demo_record])) (c, te_topic e') = (map (Ok \<circ> Some) items @ [Ok None], u)"
    "length items = length [demo_record, demo_record]"
    by blast
  then show ?thesis
    using s(5) by (simp only: length_Cons list.size(3) numeral_2_eq_2 numeral_3_eq_3) blast
qed

end
